(* ===== verification/Kernel_Prelude.thy ===== *)
theory Kernel_Prelude
  imports Main "HOL-Library.Word"
begin

text \<open>
  Shared vocabulary of the posnk kernel development: the machine types of the
  32-bit build, the error numbers of \<^verbatim>\<open>include/crt/errno.h\<close>, the ways in which kernel
  code can go wrong (a failed \<^verbatim>\<open>assert\<close>, a wild or stale pointer), the outcome of
  code that may go to sleep, and the generic list and word lemmas on which the
  component theories rely.
\<close>

unbundle bit_operations_syntax

section \<open>Machine types\<close>

text \<open>
  Pointers are natural numbers with \<^verbatim>\<open>NULL\<close> as 0; integers whose overflow matters are
  words of the width the C type has on the supported targets (i386, ARMv7).
\<close>

type_synonym addr = nat
type_synonym u8 = "8 word"
type_synonym u16 = "16 word"
type_synonym u32 = "32 word"
type_synonym u64 = "64 word"

abbreviation (input) NULL :: addr where
  "NULL \<equiv> 0"

section \<open>Errors, faults and outcomes\<close>

text \<open>The error numbers that the modelled functions report.\<close>

datatype errno =
    EPERM | ENOENT | EINTR | EIO | E2BIG | EBADF | EAGAIN | ENOMEM | EACCES | EFAULT
  | EBUSY | EEXIST | ENODEV | ENOTDIR | EISDIR | EINVAL | ENFILE | EMFILE | ENOTTY
  | EFBIG | ENOSPC | ESPIPE | EPIPE | ENOMSG | EIDRM | ENOTSUP | ENXIO | ELOOP | ENAMETOOLONG

text \<open>
  What makes the kernel itself fail: \<open>Assert_Failed\<close> is a false \<^verbatim>\<open>assert\<close>,
  \<open>Null_Deref\<close> an access through \<^verbatim>\<open>NULL\<close>, \<open>Out_Of_Bounds\<close> an access outside the
  object, \<open>Use_After_Free\<close> an access to an object that was freed or never allocated,
  \<open>Page_Fault\<close> an access of kernel code through an address that is not mapped.
\<close>

datatype fault = Assert_Failed | Null_Deref | Out_Of_Bounds | Use_After_Free | Page_Fault

text \<open>Code that may fault: \<^term>\<open>Inl\<close> carries the fault.\<close>

type_synonym 'a exec = "fault + 'a"

text \<open>
  A system call sets \<^verbatim>\<open>syscall_errno\<close> and returns -1, or returns a value: the
  first component is \<^term>\<open>Inl\<close> the error number or \<^term>\<open>Inr\<close> the value.
\<close>

type_synonym ('a, 's) sysret = "fault + ((errno + 'a) \<times> 's)"

text \<open>
  A function that may block runs up to the point where it returns or has to sleep
  on a semaphore.  \<open>Sleep k s\<close> is a function that waits with local variables \<open>k\<close>
  after having changed the shared state to \<open>s\<close>.
\<close>

datatype ('r, 'k, 's) outcome = Return 'r 's | Sleep 'k 's | Crash fault

fun no_crash :: "('r, 'k, 's) outcome \<Rightarrow> bool" where
  "no_crash (Crash f) = False"
| "no_crash (Return r s) = True"
| "no_crash (Sleep k s) = True"

fun out_state :: "('r, 'k, 's) outcome \<Rightarrow> 's option" where
  "out_state (Return r s) = Some s"
| "out_state (Sleep k s) = Some s"
| "out_state (Crash f) = None"

text \<open>
  Code that may fault or, because it follows pointers, not return: \<^term>\<open>None\<close> is not returning.  The continuation
  gets the value.
\<close>

definition xbind :: "'a exec option \<Rightarrow> ('a \<Rightarrow> 'b exec option) \<Rightarrow> 'b exec option" where
  "xbind x k = (case x of None \<Rightarrow> None | Some (Inl f) \<Rightarrow> Some (Inl f) | Some (Inr a) \<Rightarrow> k a)"

lemma xbind_simps [simp]:
  "xbind None k = None" "xbind (Some (Inl f)) k = Some (Inl f)" "xbind (Some (Inr a)) k = k a"
  by (simp_all add: xbind_def)

section \<open>Constants that several components use\<close>

text \<open>The kinds of streams, and the type of a file in its mode.\<close>

definition STREAM_TYPE_FILE :: u32 where "STREAM_TYPE_FILE = 0"
definition STREAM_TYPE_PIPE :: u32 where "STREAM_TYPE_PIPE = 1"
definition STREAM_TYPE_EXTERNAL :: u32 where "STREAM_TYPE_EXTERNAL = 2"

definition S_IFMT :: u32 where "S_IFMT = 0xF000"
definition S_ISREG :: "u32 \<Rightarrow> bool" where "S_ISREG mode \<longleftrightarrow> mode AND S_IFMT = 0x8000"
definition S_ISDIR :: "u32 \<Rightarrow> bool" where "S_ISDIR mode \<longleftrightarrow> mode AND S_IFMT = 0x4000"
definition S_ISCHR :: "u32 \<Rightarrow> bool" where "S_ISCHR mode \<longleftrightarrow> mode AND S_IFMT = 0x2000"
definition S_ISBLK :: "u32 \<Rightarrow> bool" where "S_ISBLK mode \<longleftrightarrow> mode AND S_IFMT = 0x6000"
definition S_ISFIFO :: "u32 \<Rightarrow> bool" where "S_ISFIFO mode \<longleftrightarrow> mode AND S_IFMT = 0x1000"
definition S_ISLNK :: "u32 \<Rightarrow> bool" where "S_ISLNK mode \<longleftrightarrow> mode AND S_IFMT = 0xA000"

section \<open>Collections of lemmas\<close>

named_theorems flag_simps \<open>evaluation of C flag tests on words\<close>
named_theorems kernel_defs \<open>definitions unfolded when a whole handler is evaluated\<close>
named_theorems frame_simps \<open>what an operation leaves unchanged\<close>

section \<open>Flags\<close>

text \<open>C's \<^verbatim>\<open>x & m\<close> used as a condition.\<close>

definition flag :: "'a::len word \<Rightarrow> 'a word \<Rightarrow> bool" where
  "flag x m \<longleftrightarrow> x AND m \<noteq> 0"

lemma flag_bit: "flag x (push_bit n 1) \<longleftrightarrow> bit x n" for x :: "'a::len word"
proof -
  have "x AND push_bit n 1 = push_bit n (of_bool (bit x n))"
    by (rule bit_word_eqI) (auto simp: bit_simps)
  then show ?thesis
    by (auto simp: flag_def push_bit_eq_0_iff dest: bit_imp_le_length)
qed

lemma flag_or: "flag x (m OR n) \<longleftrightarrow> flag x m \<or> flag x n" for x :: "'a::len word"
  by (auto simp: flag_def bit_eq_iff bit_simps)

lemma bit_push1: "bit (push_bit k 1 :: 'a::len word) n \<longleftrightarrow> n = k \<and> k < LENGTH('a)"
  by (auto simp: bit_simps)

section \<open>Words\<close>

lemma unat_pow2: "n < LENGTH('a) \<Longrightarrow> unat (2 ^ n :: 'a::len word) = 2 ^ n"
proof -
  assume n: "n < LENGTH('a)"
  have "unat (of_nat (2 ^ n) :: 'a word) = 2 ^ n mod 2 ^ LENGTH('a)"
    by (simp only: unat_of_nat)
  with n show ?thesis by simp
qed

lemma sint_add_u32:
  assumes "- (2 ^ 31) \<le> sint a + sint b" "sint a + sint b < 2 ^ 31"
  shows "sint (a + b :: u32) = sint a + sint b"
  using assms by (simp add: sint_word_ariths signed_take_bit_int_eq_self)

lemma sint_diff_u32:
  assumes "- (2 ^ 31) \<le> sint a - sint b" "sint a - sint b < 2 ^ 31"
  shows "sint (a - b :: u32) = sint a - sint b"
  using assms by (simp add: sint_word_ariths signed_take_bit_int_eq_self)

text \<open>A condition on the state in which a call leaves the kernel, if it does not fault.\<close>

definition exec_post :: "('s \<Rightarrow> bool) \<Rightarrow> ('r \<times> 's) exec \<Rightarrow> bool" where
  "exec_post P x \<longleftrightarrow> (case x of Inl f \<Rightarrow> True | Inr (r, s) \<Rightarrow> P s)"

lemma exec_post_simps [simp]:
  "exec_post P (Inl f)" "exec_post P (Inr (r, s)) = P s"
  "exec_post P (if c then x else y) = (if c then exec_post P x else exec_post P y)"
  by (simp_all add: exec_post_def)

lemma exec_post_intros:
  "exec_post P (Inl f)" "P s \<Longrightarrow> exec_post P (Inr (r, s))"
  "exec_post P x \<Longrightarrow> exec_post P y \<Longrightarrow> exec_post P (if c then x else y)"
  by simp_all

lemma exec_postD: "exec_post P x \<Longrightarrow> x = Inr (r, s) \<Longrightarrow> P s"
  by simp

lemma sint_nonneg:
  fixes w :: "'a::len word"
  assumes "0 \<le> sint w"
  shows "sint w = uint w"
proof -
  have nb: "\<not> bit w (LENGTH('a) - Suc 0)" using assms by (simp add: sint_uint bit_simps)
  have "bit w n \<Longrightarrow> n < LENGTH('a) - Suc 0" for n
    using nb bit_imp_le_length [of w n] by (cases "n = LENGTH('a) - Suc 0") simp_all
  then have "take_bit (LENGTH('a) - Suc 0) (uint w) = uint w"
    by (intro bit_eqI) (auto simp: bit_simps)
  then show ?thesis using nb by (simp add: sint_uint signed_take_bit_def bit_simps)
qed

lemma sint_nonneg_nat: "0 \<le> sint w \<Longrightarrow> nat (sint w) = unat w"
  by (simp add: sint_nonneg)

lemma sint_incr:
  "sint w < 2 ^ 31 - 1 \<Longrightarrow> sint (w + 1 :: u32) = sint w + 1"
  using sint_add_u32 [of w 1] sint_range_size [of w] by (simp add: word_size)

lemma sint_decr:
  "- (2 ^ 31) < sint w \<Longrightarrow> sint (w - 1 :: u32) = sint w - 1"
  using sint_diff_u32 [of w 1] sint_range_size [of w] by (simp add: word_size)

lemma unat_incr: "unat u < 2 ^ 32 - 1 \<Longrightarrow> unat (u + 1 :: u32) = unat u + 1 \<and> u + 1 \<noteq> 0"
  by (auto simp: unat_word_ariths unat_eq_0 dest: arg_cong [of _ 0 unat])

lemma unat_decr: "u \<noteq> 0 \<Longrightarrow> unat (u - 1 :: u32) = unat u - 1"
  by (simp add: unat_minus_one)

lemma unat_of_nat_le: "n \<le> unat w \<Longrightarrow> unat (of_nat n :: 'a word) = n" for w :: "'a::len word"
proof -
  assume "n \<le> unat w"
  also have "unat w < 2 ^ LENGTH('a)" by simp
  finally show ?thesis by (simp add: unat_of_nat)
qed

section \<open>Lists\<close>

lemma find_append: "find P (xs @ ys) = (case find P xs of None \<Rightarrow> find P ys | Some x \<Rightarrow> Some x)"
  by (induction xs) auto

lemma find_SomeD: "find P xs = Some x \<Longrightarrow> x \<in> set xs \<and> P x"
  by (auto simp: find_Some_iff)

lemma set_tl_subset: "set (tl xs) \<subseteq> set xs"
  by (cases xs) auto

section \<open>Memory objects\<close>

text \<open>
  A buffer is the list of its bytes; \<open>mem_read\<close> and \<open>mem_write\<close> are the two sides of a
  \<^verbatim>\<open>memcpy\<close>.  Their users check the bounds first, where C would not.
\<close>

definition mem_read :: "'a list \<Rightarrow> nat \<Rightarrow> nat \<Rightarrow> 'a list" where
  "mem_read b off n = take n (drop off b)"

definition mem_write :: "'a list \<Rightarrow> nat \<Rightarrow> 'a list \<Rightarrow> 'a list" where
  "mem_write b off xs = take off b @ xs @ drop (off + length xs) b"

lemma mem_read_length: "off + n \<le> length b \<Longrightarrow> length (mem_read b off n) = n"
  by (simp add: mem_read_def)

lemma mem_write_length: "off + length xs \<le> length b \<Longrightarrow> length (mem_write b off xs) = length b"
  by (simp add: mem_write_def)

lemma mem_read_append: "mem_read b off (m + n) = mem_read b off m @ mem_read b (off + m) n"
  by (simp add: mem_read_def take_add add.commute)

lemma mem_read_split:
  "n \<le> m \<Longrightarrow> mem_read b off m = mem_read b off n @ mem_read b (off + n) (m - n)"
  using mem_read_append [of b off n "m - n"] by simp

text \<open>What was written is read back, after what already stood before it.\<close>

lemma mem_read_write:
  assumes "off \<le> pos" "pos + length xs \<le> length b"
  shows "mem_read (mem_write b pos xs) off (pos - off + length xs) = mem_read b off (pos - off) @ xs"
  using assms by (simp add: mem_read_def mem_write_def drop_take)

lemma mem_read_zero [simp]: "mem_read b off 0 = []"
  by (simp add: mem_read_def)

end
