(* ===== verification/Llist.thy ===== *)
theory Llist
  imports Kernel_Prelude
begin

text \<open>
  The intrusive doubly linked lists of \<^verbatim>\<open>util/llist.c\<close>.  A heap gives every node its
  \<^verbatim>\<open>next\<close> and \<^verbatim>\<open>prev\<close> field; the operations are translated write by write.  The
  relation \<open>dll h l xs\<close> says that the head \<open>l\<close> heads the circular list of the nodes
  \<open>xs\<close>; every operation is proved to implement the corresponding operation on the
  abstract list, and to leave the lists that share no node with it alone.
\<close>

section \<open>The heap and the operations\<close>

record llheap =
  next_of :: "addr \<Rightarrow> addr"
  prev_of :: "addr \<Rightarrow> addr"

definition set_next :: "llheap \<Rightarrow> addr \<Rightarrow> addr \<Rightarrow> llheap" where
  "set_next h a v = h\<lparr>next_of := (next_of h)(a := v)\<rparr>"

definition set_prev :: "llheap \<Rightarrow> addr \<Rightarrow> addr \<Rightarrow> llheap" where
  "set_prev h a v = h\<lparr>prev_of := (prev_of h)(a := v)\<rparr>"

lemma llheap_fields [simp]:
  "next_of (set_next h a v) = (next_of h)(a := v)"
  "prev_of (set_next h a v) = prev_of h"
  "next_of (set_prev h a v) = next_of h"
  "prev_of (set_prev h a v) = (prev_of h)(a := v)"
  by (simp_all add: set_next_def set_prev_def)

definition llist_get_first :: "llheap \<Rightarrow> addr \<Rightarrow> addr exec" where
  "llist_get_first h list =
     (if list = NULL then Inl Assert_Failed
      else Inr (if next_of h list = list then NULL else next_of h list))"

definition llist_get_last :: "llheap \<Rightarrow> addr \<Rightarrow> addr exec" where
  "llist_get_last h list =
     (if list = NULL then Inl Assert_Failed
      else Inr (if prev_of h list = list then NULL else prev_of h list))"

definition llist_unlink :: "llheap \<Rightarrow> addr \<Rightarrow> llheap exec" where
  "llist_unlink h entry =
     (if entry = NULL then Inl Assert_Failed
      else if \<not> ((prev_of h entry \<noteq> NULL \<and> next_of h entry \<noteq> NULL) \<or>
                 (prev_of h entry = NULL \<and> next_of h entry = NULL)) then Inl Assert_Failed
      else let h1 = (if prev_of h entry \<noteq> NULL
                     then set_next h (prev_of h entry) (next_of h entry) else h);
               h2 = (if next_of h1 entry \<noteq> NULL
                     then set_prev h1 (next_of h1 entry) (prev_of h1 entry) else h1);
               h3 = set_next h2 entry NULL;
               h4 = set_prev h3 entry NULL
           in Inr h4)"

definition llist_remove_last :: "llheap \<Rightarrow> addr \<Rightarrow> (addr \<times> llheap) exec" where
  "llist_remove_last h list =
     (if list = NULL then Inl Assert_Failed
      else let result = prev_of h list in
           if result = list then Inr (NULL, h)
           else case llist_unlink h result of
                  Inl f \<Rightarrow> Inl f
                | Inr h' \<Rightarrow> Inr (result, h'))"

definition llist_remove_first :: "llheap \<Rightarrow> addr \<Rightarrow> (addr \<times> llheap) exec" where
  "llist_remove_first h list =
     (if list = NULL then Inl Assert_Failed
      else let result = next_of h list in
           if result = list then Inr (NULL, h)
           else case llist_unlink h result of
                  Inl f \<Rightarrow> Inl f
                | Inr h' \<Rightarrow> Inr (result, h'))"

definition llist_add_end :: "llheap \<Rightarrow> addr \<Rightarrow> addr \<Rightarrow> llheap exec" where
  "llist_add_end h list entry =
     (if list = NULL then Inl Assert_Failed
      else if entry = NULL then Inl Assert_Failed
      else let h1 = set_prev h entry (prev_of h list);
               h2 = set_next h1 entry list
           in if prev_of h2 list = NULL then Inl Null_Deref
              else let h3 = set_next h2 (prev_of h2 list) entry;
                       h4 = set_prev h3 list entry
                   in Inr h4)"

definition llist_create :: "llheap \<Rightarrow> addr \<Rightarrow> llheap exec" where
  "llist_create h list =
     (if list = NULL then Inl Assert_Failed
      else Inr (set_prev (set_next h list list) list list))"

text \<open>
  The two loops walk the \<^verbatim>\<open>next\<close> pointers until they are back at the head.  On a heap
  that is not a proper list they may never return, which is the value \<^term>\<open>None\<close>.  The
  counter is a C \<^verbatim>\<open>int\<close>; the iterator callback is a predicate on nodes.
\<close>

partial_function (option) llist_size_loop ::
    "llheap \<Rightarrow> addr \<Rightarrow> addr \<Rightarrow> u32 \<Rightarrow> u32 exec option" where
  "llist_size_loop h list work count =
     (if work = NULL then Some (Inl Assert_Failed)
      else if list = work then Some (Inr count)
      else llist_size_loop h list (next_of h work) (count + 1))"

definition llist_size :: "llheap \<Rightarrow> addr \<Rightarrow> u32 exec option" where
  "llist_size h list =
     (if list = NULL then Some (Inl Assert_Failed)
      else llist_size_loop h list (next_of h list) 0)"

partial_function (option) llist_select_loop ::
    "llheap \<Rightarrow> addr \<Rightarrow> (addr \<Rightarrow> bool) \<Rightarrow> addr \<Rightarrow> addr exec option" where
  "llist_select_loop h list iterator work =
     (if work = NULL then Some (Inl Assert_Failed)
      else if list = work then Some (Inr NULL)
      else if iterator work then Some (Inr work)
      else llist_select_loop h list iterator (next_of h work))"

definition llist_iterate_select ::
    "llheap \<Rightarrow> addr \<Rightarrow> (addr \<Rightarrow> bool) \<Rightarrow> addr exec option" where
  "llist_iterate_select h list iterator =
     (if list = NULL then Some (Inl Assert_Failed)
      else llist_select_loop h list iterator (next_of h list))"

section \<open>What a heap represents\<close>

text \<open>Consecutive nodes of a path point at each other.\<close>

fun linked :: "llheap \<Rightarrow> addr list \<Rightarrow> bool" where
  "linked h (a # b # zs) \<longleftrightarrow> next_of h a = b \<and> prev_of h b = a \<and> linked h (b # zs)"
| "linked h zs \<longleftrightarrow> True"

definition dll :: "llheap \<Rightarrow> addr \<Rightarrow> addr list \<Rightarrow> bool" where
  "dll h l xs \<longleftrightarrow> distinct (l # xs) \<and> NULL \<notin> set (l # xs) \<and> linked h (l # xs @ [l])"

lemma linked_append:
  "linked h (xs @ a # ys) \<longleftrightarrow> linked h (xs @ [a]) \<and> linked h (a # ys)"
  by (induction h xs rule: linked.induct) (auto simp: neq_Nil_conv)

lemma linked_next_frame:
  "a \<notin> set (butlast zs) \<Longrightarrow> linked (set_next h a v) zs = linked h zs"
  by (induction h zs rule: linked.induct) auto

lemma linked_prev_frame:
  "a \<notin> set (tl zs) \<Longrightarrow> linked (set_prev h a v) zs = linked h zs"
  by (induction h zs rule: linked.induct) auto

lemmas linked_frame = linked_next_frame linked_prev_frame

lemma linked_between:
  "linked h (xs @ a # b # ys) \<Longrightarrow> next_of h a = b \<and> prev_of h b = a"
  by (induction h xs rule: linked.induct) (auto simp: linked_append [of h _ a "b # ys"])

lemma dll_not_null: "dll h l xs \<Longrightarrow> l \<noteq> NULL \<and> NULL \<notin> set xs \<and> l \<notin> set xs \<and> distinct xs"
  by (auto simp: dll_def)


section \<open>The operations implement the abstract list\<close>

text \<open>
  Unlinking: with \<open>p\<close> and \<open>n\<close> the neighbours of the entry in the ring, the code's four
  writes close the ring behind it and clear its own links.
\<close>

definition unlinked :: "llheap \<Rightarrow> addr \<Rightarrow> addr \<Rightarrow> addr \<Rightarrow> llheap" where
  "unlinked h p e n = set_prev (set_next (set_prev (set_next h p n) n p) e NULL) e NULL"

lemma llist_unlink_ring:
  assumes ring: "linked h (us @ p # e # n # vs)"
    and "NULL \<notin> {p, e, n}" and "p \<noteq> e"
  shows "llist_unlink h e = Inr (unlinked h p e n)"
proof -
  have "prev_of h e = p" and "next_of h e = n"
    using linked_between [of h us p e "n # vs"] linked_between [of h "us @ [p]" e n vs] ring
    by auto
  with assms(2,3) show ?thesis
    by (simp add: llist_unlink_def unlinked_def Let_def)
qed

lemma unlinked_ring:
  assumes ring: "linked h (us @ p # e # n # vs)"
    and "p \<notin> set us" "n \<notin> set (tl (us @ [p]))" "e \<notin> set (us @ [p])"
    and "p \<notin> set (butlast (n # vs))" "n \<notin> set vs" "e \<notin> set (n # vs)"
  shows "linked (unlinked h p e n) (us @ p # n # vs)"
proof -
  from ring have "linked h (us @ [p])"
    using linked_append [of h us p "e # n # vs"] by simp
  then have front: "linked (unlinked h p e n) (us @ [p])"
    using assms(2-4) by (cases us) (simp_all add: unlinked_def linked_frame)
  from ring have "linked h (n # vs)"
    using linked_append [of h "us @ [p, e]" n vs] by simp
  then have rear: "linked (unlinked h p e n) (n # vs)"
    using assms(5-7) in_set_butlastD [of e "n # vs"]
    by (cases vs rule: rev_cases) (auto simp: unlinked_def linked_frame)
  have "next_of (unlinked h p e n) p = n" "prev_of (unlinked h p e n) n = p"
    using assms(4,7) by (auto simp: unlinked_def)
  with front rear show ?thesis
    using linked_append [of "unlinked h p e n" us p "n # vs"] by simp
qed

lemma ring_split:
  obtains us p where "l # ys = us @ [p]" "last (l # ys) = p" "butlast (l # ys) = us"
  using append_butlast_last_id [of "l # ys"] by (metis list.distinct(1))

lemma llist_unlink_dll:
  assumes "dll h l (ys @ e # zs)"
  shows "\<exists>h'. llist_unlink h e = Inr h' \<and> dll h' l (ys @ zs)
              \<and> next_of h' e = NULL \<and> prev_of h' e = NULL"
proof -
  obtain us p where us: "l # ys = us @ [p]" by (rule ring_split)
  obtain n vs where vs: "zs @ [l] = n # vs" by (cases "zs @ [l]") auto
  have ring: "linked h (us @ p # e # n # vs)"
  proof -
    have "l # (ys @ e # zs) @ [l] = us @ p # e # n # vs"
      using us vs by (metis append.assoc append_Cons append_Nil)
    with assms show ?thesis by (simp add: dll_def)
  qed
  have d: "distinct (l # ys @ e # zs)" and nn: "NULL \<notin> set (l # ys @ e # zs)"
    using assms by (auto simp: dll_def)
  have p: "p \<in> set (l # ys)" and n: "n \<in> set (zs @ [l])"
    using us vs by auto
  have unl: "llist_unlink h e = Inr (unlinked h p e n)"
  proof (rule llist_unlink_ring [OF ring])
    have "{p, e, n} \<subseteq> set (l # ys @ e # zs)" using p n by auto
    with nn show "NULL \<notin> {p, e, n}" by blast
    show "p \<noteq> e" using d p by auto
  qed
  have "linked (unlinked h p e n) (us @ p # n # vs)"
  proof (rule unlinked_ring [OF ring])
    have "distinct (l # ys)" "e \<notin> set (l # ys)" "distinct (zs @ [l])" "e \<notin> set (zs @ [l])"
      using d by auto
    then have du: "distinct (us @ [p])" "e \<notin> set (us @ [p])"
      and dv: "distinct (n # vs)" "e \<notin> set (n # vs)"
      by (simp_all only: us vs not_False_eq_True)
    show "p \<notin> set us" using du by simp
    have "tl (us @ [p]) = ys" using us by (metis list.sel(3))
    then show "n \<notin> set (tl (us @ [p]))" using n d by auto
    show "e \<notin> set (us @ [p])" by (rule du)
    have "butlast (n # vs) = zs" using vs by (metis butlast_snoc)
    then show "p \<notin> set (butlast (n # vs))" using p d by auto
    show "n \<notin> set vs" using dv by simp
    show "e \<notin> set (n # vs)" by (rule dv)
  qed
  moreover have "us @ p # n # vs = l # (ys @ zs) @ [l]"
    using us vs by (metis append.assoc append_Cons append_Nil)
  ultimately have "dll (unlinked h p e n) l (ys @ zs)"
    using d nn by (auto simp: dll_def)
  with unl show ?thesis by (auto simp: unlinked_def)
qed


text \<open>Writes outside a list do not change it.\<close>

definition same_off :: "addr set \<Rightarrow> llheap \<Rightarrow> llheap \<Rightarrow> bool" where
  "same_off S h h' \<longleftrightarrow>
     (\<forall>a. a \<notin> S \<longrightarrow> next_of h' a = next_of h a \<and> prev_of h' a = prev_of h a)"

lemma linked_same_off:
  "same_off S h h' \<Longrightarrow> S \<inter> set zs = {} \<Longrightarrow> linked h' zs = linked h zs"
  by (induction h zs rule: linked.induct) (auto simp: same_off_def)

lemma dll_same_off:
  assumes "same_off S h h'" "S \<inter> set (l # xs) = {}"
  shows "dll h' l xs = dll h l xs"
  using linked_same_off [OF assms(1), of "l # xs @ [l]"] assms(2) by (auto simp: dll_def)

lemma llist_unlink_same_off:
  assumes "dll h l (ys @ e # zs)" and "llist_unlink h e = Inr h'"
  shows "same_off (set (l # ys @ e # zs)) h h'"
proof -
  obtain us p where us: "l # ys = us @ [p]" by (rule ring_split)
  obtain n vs where vs: "zs @ [l] = n # vs" by (cases "zs @ [l]") auto
  have "linked h ((us @ [p]) @ e # n # vs)"
    using assms(1) us vs unfolding dll_def by (metis append.assoc append_Cons)
  then have "prev_of h e = p" "next_of h e = n"
    using linked_between [of h us p e "n # vs"] linked_between [of h "us @ [p]" e n vs] by auto
  moreover have "p \<in> set (l # ys)" "n \<in> set (zs @ [l])" using us vs by auto
  ultimately show ?thesis
    using assms(2) by (auto simp: llist_unlink_def Let_def same_off_def split: if_splits)
qed

lemma dll_prev_head:
  assumes "dll h l xs" shows "prev_of h l = last (l # xs)"
proof -
  obtain us p where us: "l # xs = us @ [p]" by (rule ring_split)
  then have "linked h (us @ [p, l])"
    using assms by (metis append.assoc append_Cons append_Nil dll_def)
  with us show ?thesis using linked_between [of h us p l "[]"] by (metis last_snoc)
qed

lemma dll_next_head:
  assumes "dll h l xs" shows "next_of h l = hd (xs @ [l])"
proof -
  obtain n vs where "xs @ [l] = n # vs" by (cases "xs @ [l]") auto
  with assms show ?thesis by (simp add: dll_def)
qed

lemma llist_add_end_dll:
  assumes "dll h l xs" and "e \<notin> set (l # xs)" and "e \<noteq> NULL"
  shows "\<exists>h'. llist_add_end h l e = Inr h' \<and> dll h' l (xs @ [e])
              \<and> same_off (set (l # xs @ [e])) h h'"
proof -
  obtain us p where us: "l # xs = us @ [p]" by (rule ring_split)
  have p: "prev_of h l = p" "p \<in> set (l # xs)"
    using dll_prev_head [OF assms(1)] us by (metis last_snoc, metis in_set_conv_decomp)
  have nn: "l \<noteq> NULL" "p \<noteq> NULL" "l \<noteq> e" "p \<noteq> e" "distinct (l # xs)"
    using assms p(2) unfolding dll_def by (metis list.set_intros(1))+
  define h' where "h' = set_prev (set_next (set_next (set_prev h e p) e l) p e) l e"
  have add: "llist_add_end h l e = Inr h'"
    using nn assms(3) p by (simp add: llist_add_end_def Let_def h'_def)
  have "linked h (us @ [p])"
    using assms(1) us linked_append [of h us p "[l]"]
    by (metis append.assoc append_Cons append_Nil dll_def)
  moreover have "distinct (us @ [p])" "e \<notin> set (us @ [p])" "tl (us @ [p]) = xs"
    using us nn(5) assms(2) by (metis, metis, metis list.sel(3))
  moreover have "l \<notin> set xs" using nn(5) by simp
  ultimately have "linked h' (us @ [p])"
    by (cases us) (auto simp: h'_def linked_frame)
  moreover have "linked h' (p # e # l # [])"
    using nn by (auto simp: h'_def)
  ultimately have "linked h' (us @ p # e # [l])"
    using linked_append [of h' us p "[e, l]"] by simp
  moreover have "us @ p # e # [l] = l # (xs @ [e]) @ [l]"
    using us by (metis append.assoc append_Cons append_Nil)
  ultimately have "dll h' l (xs @ [e])"
    using assms by (auto simp: dll_def)
  moreover have "same_off (set (l # xs @ [e])) h h'"
    using p by (auto simp: same_off_def h'_def)
  ultimately show ?thesis using add by blast
qed


lemma llist_create_dll:
  "l \<noteq> NULL \<Longrightarrow> \<exists>h'. llist_create h l = Inr h' \<and> dll h' l [] \<and> same_off {l} h h'"
  by (auto simp: llist_create_def dll_def same_off_def)

lemma llist_get_first_dll:
  assumes "dll h l xs"
  shows "llist_get_first h l = Inr (case xs of [] \<Rightarrow> NULL | x # _ \<Rightarrow> x)"
  using dll_next_head [OF assms] dll_not_null [OF assms]
  by (cases xs) (auto simp: llist_get_first_def)

lemma llist_get_last_dll:
  assumes "dll h l xs"
  shows "llist_get_last h l = Inr (if xs = [] then NULL else last xs)"
  using dll_prev_head [OF assms] dll_not_null [OF assms]
  by (cases xs rule: rev_cases) (auto simp: llist_get_last_def)

lemma llist_remove_first_dll:
  assumes "dll h l xs"
  shows "\<exists>h'. llist_remove_first h l = Inr (case xs of [] \<Rightarrow> NULL | x # _ \<Rightarrow> x, h') \<and> dll h' l (tl xs)"
proof (cases xs)
  case Nil
  with assms dll_next_head [OF assms] dll_not_null [OF assms] show ?thesis
    by (auto simp: llist_remove_first_def Let_def)
next
  case (Cons x ys)
  obtain h' where "llist_unlink h x = Inr h'" "dll h' l ys"
    using llist_unlink_dll [of h l "[]" x ys] assms Cons by auto
  with Cons dll_next_head [OF assms] dll_not_null [OF assms] show ?thesis
    by (auto simp: llist_remove_first_def Let_def)
qed

lemma llist_remove_last_dll:
  assumes "dll h l xs"
  shows "\<exists>h'. llist_remove_last h l = Inr (if xs = [] then NULL else last xs, h') \<and> dll h' l (butlast xs)"
proof (cases xs rule: rev_cases)
  case Nil
  with assms dll_prev_head [OF assms] dll_not_null [OF assms] show ?thesis
    by (auto simp: llist_remove_last_def Let_def)
next
  case (snoc ys x)
  obtain h' where "llist_unlink h x = Inr h'" "dll h' l ys"
    using llist_unlink_dll [of h l ys x "[]"] assms snoc by auto
  with snoc dll_prev_head [OF assms] dll_not_null [OF assms] show ?thesis
    by (auto simp: llist_remove_last_def Let_def)
qed

lemma llist_size_loop_dll:
  assumes "linked h (zs @ [l])" "l \<notin> set zs" "NULL \<notin> set zs" "l \<noteq> NULL"
  shows "llist_size_loop h l (hd (zs @ [l])) n = Some (Inr (n + of_nat (length zs)))"
  using assms
proof (induction zs arbitrary: n)
  case Nil
  then show ?case by (simp add: llist_size_loop.simps)
next
  case (Cons z zs)
  then have "next_of h z = hd (zs @ [l])" by (cases zs) auto
  moreover have "linked h (zs @ [l])" using Cons.prems by (cases zs) auto
  ultimately show ?case
    using Cons by (subst llist_size_loop.simps) (auto simp: algebra_simps)
qed

lemma llist_select_loop_dll:
  assumes "linked h (zs @ [l])" "l \<notin> set zs" "NULL \<notin> set zs" "l \<noteq> NULL"
  shows "llist_select_loop h l P (hd (zs @ [l])) =
           Some (Inr (case find P zs of None \<Rightarrow> NULL | Some z \<Rightarrow> z))"
  using assms
proof (induction zs)
  case Nil
  then show ?case by (simp add: llist_select_loop.simps)
next
  case (Cons z zs)
  then have "next_of h z = hd (zs @ [l])" by (cases zs) auto
  moreover have "linked h (zs @ [l])" using Cons.prems by (cases zs) auto
  ultimately show ?case
    using Cons by (subst llist_select_loop.simps) auto
qed

lemma linked_tail: "linked h (a # zs) \<Longrightarrow> linked h zs"
  by (cases zs) auto

lemma llist_size_dll:
  assumes "dll h l xs"
  shows "llist_size h l = Some (Inr (of_nat (length xs)))"
  using llist_size_loop_dll [of h xs l 0] dll_next_head [OF assms] dll_not_null [OF assms]
    linked_tail [of h l "xs @ [l]"] assms
  by (auto simp: llist_size_def dll_def)

lemma llist_iterate_select_dll:
  assumes "dll h l xs"
  shows "llist_iterate_select h l P = Some (Inr (case find P xs of None \<Rightarrow> NULL | Some x \<Rightarrow> x))"
  using llist_select_loop_dll [of h xs l P] dll_next_head [OF assms] dll_not_null [OF assms]
    linked_tail [of h l "xs @ [l]"] assms
  by (auto simp: llist_iterate_select_def dll_def)


lemma dll_rotate: "dll h x (y # ys) \<Longrightarrow> dll h y (ys @ [x])"
proof -
  assume d: "dll h x (y # ys)"
  then have "linked h ((y # ys) @ [x])" "linked h [x, y]"
    unfolding dll_def using linked_append [of h "[x]" y "ys @ [x]"] by auto
  then have "linked h ((y # ys) @ x # [y])"
    using linked_append [of h "y # ys" x "[y]"] by blast
  with d show ?thesis by (auto simp: dll_def)
qed

text \<open>A circular list may be read from any of its nodes.\<close>

lemma dll_rotate_to: "dll h l (ys @ e # zs) \<Longrightarrow> dll h e (zs @ l # ys)"
proof (induction ys arbitrary: l zs)
  case Nil
  then show ?case using dll_rotate by fastforce
next
  case (Cons y ys)
  then have "dll h y (ys @ e # (zs @ [l]))" using dll_rotate by fastforce
  then show ?case using Cons.IH by fastforce
qed

section \<open>The interface of the lists\<close>

text \<open>
  What the users of a list rely on.  \<open>rep h l xs\<close> relates a heap to the sequence of
  entries of the list \<open>l\<close>; \<open>good l e\<close> says that \<open>e\<close> may be an entry of it at all.
\<close>

locale linked_list =
  fixes rep :: "'h \<Rightarrow> 'l \<Rightarrow> 'a list \<Rightarrow> bool"
    and good :: "'l \<Rightarrow> 'a \<Rightarrow> bool"
    and add_end :: "'h \<Rightarrow> 'l \<Rightarrow> 'a \<Rightarrow> 'h exec"
    and unlink :: "'h \<Rightarrow> 'a \<Rightarrow> 'h exec"
  assumes rep_distinct: "rep h l xs \<Longrightarrow> distinct xs"
    and rep_good: "rep h l xs \<Longrightarrow> e \<in> set xs \<Longrightarrow> good l e"
    and rep_add_end:
      "rep h l xs \<Longrightarrow> good l e \<Longrightarrow> e \<notin> set xs \<Longrightarrow> \<exists>h'. add_end h l e = Inr h' \<and> rep h' l (xs @ [e])"
    and rep_unlink:
      "rep h l (ys @ e # zs) \<Longrightarrow> \<exists>h'. unlink h e = Inr h' \<and> rep h' l (ys @ zs)"
begin

text \<open>Moving an entry to the end of its list, as the caches do when it is used.\<close>

definition touch :: "'h \<Rightarrow> 'l \<Rightarrow> 'a \<Rightarrow> 'h exec" where
  "touch h l e = (case unlink h e of Inl f \<Rightarrow> Inl f | Inr h' \<Rightarrow> add_end h' l e)"

primrec touches :: "'h \<Rightarrow> 'l \<Rightarrow> 'a list \<Rightarrow> 'h exec" where
  "touches h l [] = Inr h"
| "touches h l (e # es) = (case touch h l e of Inl f \<Rightarrow> Inl f | Inr h' \<Rightarrow> touches h' l es)"

lemma unlink_remove1:
  assumes "rep h l xs" "e \<in> set xs"
  shows "\<exists>h'. unlink h e = Inr h' \<and> rep h' l (remove1 e xs)"
proof -
  obtain ys zs where xs: "xs = ys @ e # zs" "e \<notin> set ys"
    using assms(2) by (meson split_list_first)
  with rep_unlink assms(1) show ?thesis by (auto simp: remove1_append)
qed

lemma touch_rep:
  assumes "rep h l xs" "e \<in> set xs"
  shows "\<exists>h'. touch h l e = Inr h' \<and> rep h' l (remove1 e xs @ [e])"
proof -
  obtain h1 where h1: "unlink h e = Inr h1" "rep h1 l (remove1 e xs)"
    using unlink_remove1 [OF assms] by blast
  moreover have "e \<notin> set (remove1 e xs)"
    using rep_distinct [OF assms(1)] by simp
  ultimately show ?thesis
    using rep_add_end rep_good [OF assms] by (auto simp: touch_def)
qed

text \<open>
  After any sequence of uses, the entries that were not used come first in their old
  order, then the used ones in the order of their last use: the head of the list is the
  least recently used entry.
\<close>

lemma touches_lru:
  assumes "rep h l xs" "set es \<subseteq> set xs"
  shows "\<exists>h'. touches h l es = Inr h' \<and> rep h' l (filter (\<lambda>x. x \<notin> set es) xs @ remdups es)"
  using assms
proof (induction es arbitrary: h xs)
  case Nil
  then show ?case by simp
next
  case (Cons e es)
  obtain h1 where h1: "touch h l e = Inr h1" "rep h1 l (remove1 e xs @ [e])"
    using touch_rep [of h l xs e] Cons.prems by auto
  have d: "distinct xs" using rep_distinct Cons.prems(1) by blast
  have "set es \<subseteq> set (remove1 e xs @ [e])"
    using Cons.prems(2) d by (auto simp: set_remove1_eq)
  then obtain h' where h': "touches h1 l es = Inr h'"
      "rep h' l (filter (\<lambda>x. x \<notin> set es) (remove1 e xs @ [e]) @ remdups es)"
    using Cons.IH [OF h1(2)] by blast
  have "filter (\<lambda>x. x \<notin> set es) (remove1 e xs @ [e]) @ remdups es =
        filter (\<lambda>x. x \<notin> set (e # es)) xs @ remdups (e # es)"
    using d by (auto simp: distinct_remove1_removeAll removeAll_filter_not_eq conj_commute
        intro: filter_cong)
  with h1 h' show ?case by auto
qed

end

interpretation ll: linked_list dll "\<lambda>l e. e \<noteq> NULL \<and> e \<noteq> l" llist_add_end llist_unlink
proof unfold_locales
  show "dll h l xs \<Longrightarrow> distinct xs" for h l xs by (simp add: dll_def)
  show "dll h l xs \<Longrightarrow> e \<in> set xs \<Longrightarrow> e \<noteq> NULL \<and> e \<noteq> l" for h l xs e
    using dll_not_null by metis
  show "dll h l xs \<Longrightarrow> e \<noteq> NULL \<and> e \<noteq> l \<Longrightarrow> e \<notin> set xs \<Longrightarrow>
      \<exists>h'. llist_add_end h l e = Inr h' \<and> dll h' l (xs @ [e])" for h l xs e
    using llist_add_end_dll [of h l xs e] by auto
  show "dll h l (ys @ e # zs) \<Longrightarrow> \<exists>h'. llist_unlink h e = Inr h' \<and> dll h' l (ys @ zs)"
    for h l ys e zs
    using llist_unlink_dll by blast
qed

section \<open>Properties\<close>

text \<open>
  A heap with two lists for the examples: head 1 with the entries 2, 3, 4 and head 5
  with the entry 6.
\<close>

definition two_lists :: llheap where
  "two_lists =
     \<lparr>next_of = (\<lambda>_. NULL)(1 := 2, 2 := 3, 3 := 4, 4 := 1, 5 := 6, 6 := 5),
      prev_of = (\<lambda>_. NULL)(1 := 4, 2 := 1, 3 := 2, 4 := 3, 5 := 6, 6 := 5)\<rparr>"

lemma two_lists_rep: "dll two_lists 1 [2, 3, 4]" "dll two_lists 5 [6]"
  by (simp_all add: two_lists_def dll_def)

text \<open>
  C23: moving an entry from one list to another with \<^verbatim>\<open>llist_unlink\<close> and
  \<^verbatim>\<open>llist_add_end\<close> takes it out of the first list, wherever it stood, and puts it
  last in the second, without a failed assertion and with both lists intact.
\<close>

theorem llist_move:
  assumes "dll h l (ys @ e # zs)" "dll h m ws" "set (l # ys @ e # zs) \<inter> set (m # ws) = {}"
  shows "\<exists>h1 h2. llist_unlink h e = Inr h1 \<and> next_of h1 e = NULL \<and> prev_of h1 e = NULL
           \<and> llist_add_end h1 m e = Inr h2 \<and> dll h2 l (ys @ zs) \<and> dll h2 m (ws @ [e])"
proof -
  obtain h1 where 1: "llist_unlink h e = Inr h1" "dll h1 l (ys @ zs)"
    using llist_unlink_dll [OF assms(1)] by blast
  have "dll h1 m ws"
    using dll_same_off [OF llist_unlink_same_off [OF assms(1) 1(1)]] assms(2,3) by blast
  moreover have n: "e \<noteq> NULL" "e \<notin> set (l # ys @ zs)" "e \<notin> set (m # ws)"
    using dll_not_null [OF assms(1)] assms by (metis in_set_conv_decomp, auto simp: dll_def)
  ultimately obtain h2 where 2: "llist_add_end h1 m e = Inr h2" "dll h2 m (ws @ [e])"
      "same_off (set (m # ws @ [e])) h1 h2"
    using llist_add_end_dll by blast
  have "set (m # ws @ [e]) \<inter> set (l # ys @ zs) = {}" using n assms(3) by auto
  then have "dll h2 l (ys @ zs)" using dll_same_off [OF 2(3)] 1(2) by blast
  with 1 2 show ?thesis by (auto simp: llist_unlink_def Let_def split: if_splits)
qed

theorem llist_move_witness:
  "\<exists>h1 h2. llist_unlink two_lists 3 = Inr h1 \<and> llist_add_end h1 5 3 = Inr h2
     \<and> dll h2 1 [2, 4] \<and> dll h2 5 [6, 3]"
  using llist_move [of two_lists 1 "[2]" 3 "[4]" 5 "[6]"] two_lists_rep by auto

text \<open>
  C24: \<^verbatim>\<open>llist_iterate_select\<close> on a list terminates and returns the first entry that the
  iterator accepts, \<^verbatim>\<open>NULL\<close> when there is none; \<^verbatim>\<open>llist_size\<close> returns the number of
  entries, as a C \<^verbatim>\<open>int\<close>.
\<close>

theorem llist_loops_return:
  assumes "dll h l xs"
  shows "llist_iterate_select h l P = Some (Inr (case find P xs of None \<Rightarrow> NULL | Some x \<Rightarrow> x))
       \<and> llist_size h l = Some (Inr (of_nat (length xs)))"
  using llist_iterate_select_dll [OF assms] llist_size_dll [OF assms] by blast

theorem llist_loops_return_witness:
  "llist_iterate_select two_lists 1 (\<lambda>x. x > 2) = Some (Inr 3)
     \<and> llist_size two_lists 1 = Some (Inr 3)"
  using llist_loops_return [OF two_lists_rep(1), of "\<lambda>x. x > 2"] by simp

end
