(* ===== verification/Mruc.thy ===== *)
theory Mruc
  imports Llist "HOL-Library.Multiset"
begin

text \<open>
  The most-recently-used cache of \<^verbatim>\<open>util/mruc.c\<close>: a hash table whose buckets are
  circular lists through the entries, and one list of all entries in order of use.
  The abstract contract is a list of keyed entries, least recently used first; the
  operations are proved to implement lookup, insertion, removal, use and eviction on it.
\<close>

section \<open>State and operations\<close>

text \<open>
  \<open>c_mrul\<close> is the address of the list head embedded in the cache structure.  The
  entries' own fields are kept by field: \<open>links\<close> holds their \<^verbatim>\<open>mru_link\<close>, \<open>bkts\<close>
  their \<^verbatim>\<open>bkt_next\<close> and \<^verbatim>\<open>bkt_prev\<close>.
\<close>

record mruc =
  c_table :: "addr list"
  c_tsize :: u32
  c_count :: u32
  c_csize :: u32
  c_mrul :: addr

record mruc_st =
  links :: llheap
  bkts :: llheap
  e_cache :: "addr \<Rightarrow> addr"
  e_hash :: "addr \<Rightarrow> u64"
  caches :: "addr \<Rightarrow> mruc"

text \<open>\<^verbatim>\<open>hash & ( cache->tsize - 1 )\<close>, with the \<^verbatim>\<open>int\<close> size converted to 64 bits.\<close>

definition bkt_index :: "mruc \<Rightarrow> u64 \<Rightarrow> nat" where
  "bkt_index k hash = unat (hash AND scast (c_tsize k - 1))"

definition mruc_get_lru :: "'x mruc_st_scheme \<Rightarrow> addr \<Rightarrow> addr exec" where
  "mruc_get_lru st c =
     (if c = NULL then Inl Assert_Failed
      else llist_get_first (links st) (c_mrul (caches st c)))"

definition mruc_get_mru :: "'x mruc_st_scheme \<Rightarrow> addr \<Rightarrow> addr exec" where
  "mruc_get_mru st c =
     (if c = NULL then Inl Assert_Failed
      else llist_get_last (links st) (c_mrul (caches st c)))"

definition mruc_create :: "'x mruc_st_scheme \<Rightarrow> addr \<Rightarrow> u32 \<Rightarrow> u32 \<Rightarrow> 'x mruc_st_scheme exec" where
  "mruc_create st c csize tsize =
     (if c = NULL then Inl Assert_Failed
      else let k = (caches st c)\<lparr>c_csize := csize, c_tsize := tsize, c_count := 0,
                      c_table := replicate (unat tsize) NULL\<rparr>
           in case llist_create (links st) (c_mrul k) of
                Inl f \<Rightarrow> Inl f
              | Inr h \<Rightarrow> Inr (st\<lparr>links := h, caches := (caches st)(c := k)\<rparr>))"

definition mruc_bump :: "'x mruc_st_scheme \<Rightarrow> addr \<Rightarrow> 'x mruc_st_scheme exec" where
  "mruc_bump st entry =
     (if entry = NULL then Inl Assert_Failed
      else let c = e_cache st entry in
           if c = NULL then Inl Assert_Failed
           else case llist_unlink (links st) entry of
                  Inl f \<Rightarrow> Inl f
                | Inr h \<Rightarrow>
                    (case llist_add_end h (c_mrul (caches st c)) entry of
                       Inl f \<Rightarrow> Inl f
                     | Inr h' \<Rightarrow> Inr (st\<lparr>links := h'\<rparr>)))"

text \<open>
  The insertion into a bucket, where \<open>b\<close> is the bucket pointer: at the end of a
  non-empty ring, or as a ring of its own.
\<close>

definition bkt_insert :: "llheap \<Rightarrow> addr \<Rightarrow> addr \<Rightarrow> llheap exec" where
  "bkt_insert h b entry =
     (if b \<noteq> NULL
      then let h1 = set_next h entry b;
               h2 = set_prev h1 entry (prev_of h1 b)
           in if prev_of h2 b = NULL then Inl Null_Deref
              else let h3 = set_next h2 (prev_of h2 b) entry
                   in Inr (set_prev h3 b entry)
      else Inr (set_prev (set_next h entry entry) entry entry))"

text \<open>
  \<open>mruc_link\<close> is \<^verbatim>\<open>mruc_add\<close> up to the increment of the counter, \<open>mruc_add\<close> the
  whole function with the call of the evictor (a callback of the cache's owner).
\<close>

definition mruc_link :: "'x mruc_st_scheme \<Rightarrow> addr \<Rightarrow> addr \<Rightarrow> u64 \<Rightarrow> 'x mruc_st_scheme exec" where
  "mruc_link st c entry hash =
     (if c = NULL \<or> entry = NULL then Inl Assert_Failed
      else let k = caches st c;
               st1 = st\<lparr>e_cache := (e_cache st)(entry := c), e_hash := (e_hash st)(entry := hash)\<rparr>;
               i = bkt_index k hash
           in if length (c_table k) \<le> i then Inl Out_Of_Bounds
           else case bkt_insert (bkts st1) (c_table k ! i) entry of
                Inl f \<Rightarrow> Inl f
              | Inr b \<Rightarrow>
                (case llist_add_end (links st1) (c_mrul k) entry of
                   Inl f \<Rightarrow> Inl f
                 | Inr h \<Rightarrow>
                   let k' = k\<lparr>c_table := (if c_table k ! i = NULL then (c_table k)[i := entry]
                                          else c_table k),
                              c_count := c_count k + 1\<rparr>
                   in Inr (st1\<lparr>bkts := b, links := h, caches := (caches st)(c := k')\<rparr>)))"

definition mruc_add ::
    "('x mruc_st_scheme \<Rightarrow> addr \<Rightarrow> 'x mruc_st_scheme exec) \<Rightarrow> 'x mruc_st_scheme \<Rightarrow> addr \<Rightarrow> addr \<Rightarrow> u64 \<Rightarrow> 'x mruc_st_scheme exec" where
  "mruc_add evictor st c entry hash =
     (case mruc_link st c entry hash of
        Inl f \<Rightarrow> Inl f
      | Inr st' \<Rightarrow>
          if sint (c_count (caches st' c)) > sint (c_csize (caches st' c))
          then case mruc_get_lru st' c of
                 Inl f \<Rightarrow> Inl f
               | Inr e \<Rightarrow> evictor st' e
          else Inr st')"

definition mruc_remove :: "'x mruc_st_scheme \<Rightarrow> addr \<Rightarrow> 'x mruc_st_scheme exec" where
  "mruc_remove st entry =
     (if entry = NULL then Inl Assert_Failed
      else let c = e_cache st entry in
           if c = NULL then Inl Assert_Failed
           else let k = caches st c; i = bkt_index k (e_hash st entry) in
           case llist_unlink (links st) entry of
             Inl f \<Rightarrow> Inl f
           | Inr h \<Rightarrow>
             if length (c_table k) \<le> i then Inl Out_Of_Bounds
             else
               (let b = bkts st;
                    own = (next_of b entry = entry);
                    b' = (if own then b
                          else let b1 = set_prev b (next_of b entry) (prev_of b entry)
                               in set_next b1 (prev_of b1 entry) (next_of b1 entry));
                    t' = (if own then (c_table k)[i := NULL]
                          else if c_table k ! i = entry then (c_table k)[i := next_of b' entry]
                          else c_table k);
                    k' = k\<lparr>c_table := t', c_count := c_count k - 1\<rparr>
                in if \<not> own \<and> (next_of b entry = NULL \<or> prev_of b entry = NULL) then Inl Null_Deref
                   else Inr (st\<lparr>links := h, caches := (caches st)(c := k'),
                           e_cache := (e_cache st)(entry := NULL),
                           bkts := set_prev (set_next b' entry NULL) entry NULL\<rparr>)))"

partial_function (option) mruc_get_loop ::
    "'x mruc_st_scheme \<Rightarrow> u64 \<Rightarrow> addr \<Rightarrow> addr \<Rightarrow> addr option" where
  "mruc_get_loop st hash bkt entry =
     (if e_hash st entry = hash then Some entry
      else let e = next_of (bkts st) entry in
           if e = bkt then Some NULL else mruc_get_loop st hash bkt e)"

definition mruc_get :: "'x mruc_st_scheme \<Rightarrow> addr \<Rightarrow> u64 \<Rightarrow> addr exec option" where
  "mruc_get st c hash =
     (if c = NULL then Some (Inl Assert_Failed)
      else let k = caches st c; i = bkt_index k hash in
           if length (c_table k) \<le> i then Some (Inl Out_Of_Bounds)
           else let bkt = c_table k ! i in
                if bkt = NULL then Some (Inr NULL)
                else map_option Inr (mruc_get_loop st hash bkt bkt))"

partial_function (option) mruc_flush ::
    "('x mruc_st_scheme \<Rightarrow> addr \<Rightarrow> 'x mruc_st_scheme exec) \<Rightarrow> 'x mruc_st_scheme \<Rightarrow> addr \<Rightarrow> 'x mruc_st_scheme exec option" where
  "mruc_flush evictor st c =
     (case mruc_get_lru st c of
        Inl f \<Rightarrow> Some (Inl f)
      | Inr entry \<Rightarrow>
          if entry = NULL then Some (Inr st)
          else case evictor st entry of
                 Inl f \<Rightarrow> Some (Inl f)
               | Inr st' \<Rightarrow> mruc_flush evictor st' c)"

section \<open>What a cache represents\<close>

text \<open>
  \<open>ring h b bs\<close>: the bucket pointer \<open>b\<close> heads the ring of the entries \<open>bs\<close>.
\<close>

fun ring :: "llheap \<Rightarrow> addr \<Rightarrow> addr list \<Rightarrow> bool" where
  "ring h b [] \<longleftrightarrow> b = NULL"
| "ring h b (x # xs) \<longleftrightarrow> b = x \<and> dll h x xs"

definition cache_ok :: "mruc \<Rightarrow> bool" where
  "cache_ok k \<longleftrightarrow> (\<exists>n < 31. c_tsize k = 2 ^ n) \<and> length (c_table k) = unat (c_tsize k)"

definition mruc_rep :: "'x mruc_st_scheme \<Rightarrow> addr \<Rightarrow> addr list \<Rightarrow> addr list list \<Rightarrow> bool" where
  "mruc_rep st c es bs \<longleftrightarrow>
     c \<noteq> NULL \<and> cache_ok (caches st c) \<and> dll (links st) (c_mrul (caches st c)) es \<and>
     sint (c_count (caches st c)) = int (length es) \<and>
     (\<forall>e \<in> set es. e_cache st e = c) \<and>
     length bs = length (c_table (caches st c)) \<and>
     (\<forall>i < length bs. ring (bkts st) (c_table (caches st c) ! i) (bs ! i) \<and>
        set (bs ! i) = {e \<in> set es. bkt_index (caches st c) (e_hash st e) = i})"

text \<open>
  What an operation on cache \<open>c\<close> leaves alone: the list links outside \<open>S\<close> and the
  parameters of the cache.
\<close>

definition mruc_frame :: "addr set \<Rightarrow> addr \<Rightarrow> 'x mruc_st_scheme \<Rightarrow> 'x mruc_st_scheme \<Rightarrow> bool" where
  "mruc_frame S c st st' \<longleftrightarrow>
     same_off S (links st) (links st') \<and>
     c_csize (caches st' c) = c_csize (caches st c) \<and>
     c_mrul (caches st' c) = c_mrul (caches st c)"

text \<open>
  Taking an entry out of its ring.  If it is the only one the bucket becomes empty; if
  it was the bucket pointer, the ring is headed by its successor.
\<close>

definition ring_cut :: "llheap \<Rightarrow> addr \<Rightarrow> llheap" where
  "ring_cut b e =
     (let b' = (if next_of b e = e then b
                else let b1 = set_prev b (next_of b e) (prev_of b e)
                     in set_next b1 (prev_of b1 e) (next_of b1 e))
      in set_prev (set_next b' e NULL) e NULL)"

section \<open>The operations on the representation\<close>

lemma scast_mask: "n < 31 \<Longrightarrow> (scast (mask n :: u32) :: u64) = mask n"
  by (intro bit_word_eqI) (auto simp: bit_simps min_def)

lemma bkt_index_bound:
  assumes "cache_ok k" shows "bkt_index k h < length (c_table k)"
proof -
  obtain n where n: "n < 31" "c_tsize k = 2 ^ n" "length (c_table k) = unat (c_tsize k)"
    using assms by (auto simp: cache_ok_def)
  have "c_tsize k - 1 = mask n" using n(2) by (simp add: mask_eq_decr_exp)
  then have "bkt_index k h = unat (h AND mask n)"
    using n(1) scast_mask [of n] by (simp add: bkt_index_def)
  also have "\<dots> < 2 ^ n"
    by (simp add: take_bit_eq_mask [symmetric] unsigned_take_bit_eq)
  also have "\<dots> = unat (c_tsize k)"
    using n by (simp add: unat_pow2)
  finally show ?thesis using n(3) by simp
qed

lemma mruc_get_loop_ring:
  assumes "linked (bkts st) ((e # rest) @ [b])" "b \<notin> set rest"
  shows "mruc_get_loop st k b e =
           Some (case find (\<lambda>x. e_hash st x = k) (e # rest) of None \<Rightarrow> NULL | Some x \<Rightarrow> x)"
  using assms
proof (induction rest arbitrary: e)
  case Nil
  then show ?case by (subst mruc_get_loop.simps) (simp add: Let_def)
next
  case (Cons r rest)
  then show ?case by (subst mruc_get_loop.simps) (auto simp: Let_def)
qed

lemma mruc_get_find:
  fixes k :: u64
  assumes "mruc_rep st c es bs"
  defines "i \<equiv> bkt_index (caches st c) k"
  shows "mruc_get st c k =
           Some (Inr (case find (\<lambda>x. e_hash st x = k) (bs ! i) of None \<Rightarrow> NULL | Some x \<Rightarrow> x))"
proof -
  have i: "i < length (c_table (caches st c))"
    using assms by (auto simp: mruc_rep_def bkt_index_bound)
  have r: "ring (bkts st) (c_table (caches st c) ! i) (bs ! i)"
    using assms i by (auto simp: mruc_rep_def)
  show ?thesis
  proof (cases "bs ! i")
    case Nil
    with r i assms show ?thesis by (auto simp: mruc_get_def mruc_rep_def Let_def)
  next
    case (Cons b rest)
    with r have d: "dll (bkts st) b rest" and t: "c_table (caches st c) ! i = b" by auto
    have "mruc_get_loop st k b b =
        Some (case find (\<lambda>x. e_hash st x = k) (b # rest) of None \<Rightarrow> NULL | Some x \<Rightarrow> x)"
      using d by (intro mruc_get_loop_ring) (auto simp: dll_def)
    moreover have "b \<noteq> NULL" using d by (auto simp: dll_def)
    ultimately show ?thesis
      using t i Cons assms by (auto simp: mruc_get_def mruc_rep_def Let_def)
  qed
qed

text \<open>Lookup by key: an entry with that key is found exactly when the cache has one.\<close>

lemma mruc_get_iff:
  assumes "mruc_rep st c es bs"
  shows "\<exists>e. mruc_get st c k = Some (Inr e) \<and>
             (if k \<in> e_hash st ` set es then e \<in> set es \<and> e_hash st e = k else e = NULL)"
proof -
  let ?i = "bkt_index (caches st c) k"
  have "?i < length bs" using assms by (auto simp: mruc_rep_def bkt_index_bound)
  then have s: "set (bs ! ?i) = {e \<in> set es. bkt_index (caches st c) (e_hash st e) = ?i}"
    using assms by (auto simp: mruc_rep_def)
  show ?thesis
  proof (cases "find (\<lambda>x. e_hash st x = k) (bs ! ?i)")
    case None
    then have "k \<notin> e_hash st ` set es" using s by (auto simp: find_None_iff)
    with None show ?thesis using mruc_get_find [OF assms, of k] by auto
  next
    case (Some e)
    then have "e \<in> set es" "e_hash st e = k" using s by (auto simp: find_Some_iff)
    with Some show ?thesis using mruc_get_find [OF assms, of k] by auto
  qed
qed

lemma bkt_insert_ring:
  assumes "ring h b xs" "e \<notin> set xs" "e \<noteq> NULL"
  shows "\<exists>h'. bkt_insert h b e = Inr h' \<and> ring h' (if b = NULL then e else b) (xs @ [e])
              \<and> same_off (insert e (set xs)) h h'"
proof (cases xs)
  case Nil
  with assms show ?thesis
    by (auto simp: bkt_insert_def dll_def same_off_def)
next
  case (Cons x ys)
  with assms have d: "dll h x ys" "b = x" "e \<notin> set (x # ys)" "b \<noteq> NULL"
    using dll_not_null by auto
  then obtain h' where h': "llist_add_end h x e = Inr h'" "dll h' x (ys @ [e])"
      "same_off (set (x # ys @ [e])) h h'"
    using llist_add_end_dll assms(3) by metis
  moreover have "bkt_insert h b e = Inr h'"
    using h'(1) d(2-4) assms(3)
    by (auto simp: bkt_insert_def llist_add_end_def Let_def set_next_def set_prev_def fun_upd_twist
        split: if_splits)
  ultimately show ?thesis using Cons d by (auto simp: insert_commute)
qed


lemma ring_same_off:
  "same_off S h h' \<Longrightarrow> S \<inter> set xs = {} \<Longrightarrow> ring h' b xs = ring h b xs"
  by (cases xs) (auto simp: dll_same_off)





lemma mruc_add_insert:
  assumes r: "mruc_rep st c es bs"
    and e: "e \<noteq> NULL" "e \<notin> set es" "e \<noteq> c_mrul (caches st c)"
    and room: "length es < 2 ^ 31 - 1"
  shows "\<exists>st' bs'. mruc_rep st' c (es @ [e]) bs' \<and> e_hash st' = (e_hash st)(e := k)
            \<and> mruc_frame (set (c_mrul (caches st c) # es @ [e])) c st st'
            \<and> mruc_st.more st' = mruc_st.more st
            \<and> mruc_add evictor st c e k =
                (if int (length es) + 1 > sint (c_csize (caches st c))
                 then evictor st' (hd (es @ [e])) else Inr st')"
proof -
  define K where "K = caches st c"
  define i where "i = bkt_index K k"
  have ok: "cache_ok K" "c \<noteq> NULL" and dl: "dll (links st) (c_mrul K) es"
    and cnt: "sint (c_count K) = int (length es)" and len: "length bs = length (c_table K)"
    and own: "\<forall>x \<in> set es. e_cache st x = c"
    using r by (auto simp: mruc_rep_def K_def)
  have bkt: "ring (bkts st) (c_table K ! j) (bs ! j)"
      "set (bs ! j) = {x \<in> set es. bkt_index K (e_hash st x) = j}" if "j < length bs" for j
    using r that by (auto simp: mruc_rep_def K_def)
  have i: "i < length bs" using bkt_index_bound [OF ok(1)] len by (simp add: i_def)
  have "e \<notin> set (bs ! i)" using bkt(2) [OF i] e by auto
  then obtain b where b: "bkt_insert (bkts st) (c_table K ! i) e = Inr b"
      "ring b (if c_table K ! i = NULL then e else c_table K ! i) (bs ! i @ [e])"
      "same_off (insert e (set (bs ! i))) (bkts st) b"
    using bkt_insert_ring [OF bkt(1) [OF i]] e by blast
  obtain h where h: "llist_add_end (links st) (c_mrul K) e = Inr h" "dll h (c_mrul K) (es @ [e])"
      "same_off (set (c_mrul K # es @ [e])) (links st) h"
    using llist_add_end_dll [OF dl, of e] e by (auto simp: K_def)
  define K' where "K' = K\<lparr>c_table := (if c_table K ! i = NULL then (c_table K)[i := e]
                                          else c_table K), c_count := c_count K + 1\<rparr>"
  define st' where "st' = st\<lparr>e_cache := (e_cache st)(e := c), e_hash := (e_hash st)(e := k),
                       bkts := b, links := h, caches := (caches st)(c := K')\<rparr>"
  have idx: "bkt_index K' = bkt_index K" by (auto simp: K'_def bkt_index_def fun_eq_iff)
  have K': "cache_ok K'" "length (c_table K') = length (c_table K)" "c_mrul K' = c_mrul K"
      "c_csize K' = c_csize K" "sint (c_count K') = int (length es) + 1"
    using ok cnt room by (auto simp: K'_def cache_ok_def sint_incr)
  have tab: "c_table K' ! i = (if c_table K ! i = NULL then e else c_table K ! i)"
    using i len by (simp add: K'_def)
  have rings: "ring b (c_table K' ! j) (bs[i := bs ! i @ [e]] ! j) \<and>
       set (bs[i := bs ! i @ [e]] ! j) =
         {x \<in> set (es @ [e]). bkt_index K (((e_hash st)(e := k)) x) = j}"
    if j: "j < length bs" for j
  proof (cases "j = i")
    case True
    with b(2) tab i bkt(2) [OF i] e show ?thesis by (auto simp: i_def)
  next
    case False
    have "insert e (set (bs ! i)) \<inter> set (bs ! j) = {}"
      using bkt(2) [OF i] bkt(2) [OF j] e False by auto
    then have "ring b (c_table K ! j) (bs ! j)"
      using ring_same_off [OF b(3)] bkt(1) [OF j] by blast
    with False bkt(2) [OF j] e show ?thesis by (auto simp: K'_def i_def)
  qed
  have rep': "mruc_rep st' c (es @ [e]) (bs[i := bs ! i @ [e]])"
    using ok K' h(2) own rings len idx by (simp add: mruc_rep_def st'_def)
  have lru: "mruc_get_lru st' c = Inr (hd (es @ [e]))"
    using llist_get_first_dll [OF h(2)] K' ok
    by (cases es) (auto simp: mruc_get_lru_def st'_def)
  have "mruc_link st c e k = Inr st'"
    using ok e(1) b(1) h(1) i len
    by (simp add: mruc_link_def Let_def K_def st'_def K'_def i_def)
  then have "mruc_add evictor st c e k =
          (if int (length es) + 1 > sint (c_csize K) then evictor st' (hd (es @ [e])) else Inr st')"
    using lru K' by (simp add: mruc_add_def st'_def)
  moreover have "mruc_frame (set (c_mrul K # es @ [e])) c st st'"
    using h(3) K' by (simp add: mruc_frame_def st'_def K_def)
  ultimately show ?thesis using rep' by (auto simp: st'_def K_def)
qed


lemma ring_cut_unlink:
  assumes "llist_unlink h e = Inr h'" "next_of h e \<noteq> e" "prev_of h e \<noteq> e"
    "next_of h e \<noteq> NULL" "prev_of h e \<noteq> NULL"
  shows "ring_cut h e = h'"
  using assms
  by (auto simp: ring_cut_def llist_unlink_def Let_def set_next_def set_prev_def split: if_splits)

lemma dll_links_nonnull:
  assumes "dll h l xs" "xs \<noteq> []" "e \<in> set (l # xs)"
  shows "next_of h e \<noteq> NULL \<and> prev_of h e \<noteq> NULL \<and> next_of h e \<noteq> e \<and> prev_of h e \<noteq> e"
proof -
  have "\<exists>zs. dll h e zs \<and> zs \<noteq> []"
  proof (cases "e = l")
    case True
    with assms show ?thesis by auto
  next
    case False
    then obtain ys zs where xs: "xs = ys @ e # zs" using assms(3) by (auto dest: split_list)
    have "dll h e (zs @ l # ys)" using dll_rotate_to assms(1) unfolding xs .
    then show ?thesis by blast
  qed
  then obtain zs where z: "dll h e zs" "zs \<noteq> []" by blast
  have "next_of h e = hd zs" "prev_of h e = last zs"
    using dll_next_head [OF z(1)] dll_prev_head [OF z(1)] z(2) by auto
  moreover have "hd zs \<in> set zs" "last zs \<in> set zs" using z(2) by auto
  ultimately show ?thesis using dll_not_null [OF z(1)] by metis
qed

lemma ring_cut_ring:
  assumes "ring h b xs" "e \<in> set xs"
  shows "ring (ring_cut h e)
           (if next_of h e = e then NULL else if b = e then next_of h e else b) (remove1 e xs)
         \<and> same_off (set xs) h (ring_cut h e)
         \<and> (next_of h e \<noteq> e \<longrightarrow> next_of h e \<noteq> NULL \<and> prev_of h e \<noteq> NULL)"
proof (cases xs)
  case Nil
  with assms show ?thesis by simp
next
  case (Cons x ys)
  with assms have d: "dll h x ys" "b = x" by auto
  show ?thesis
  proof (cases "ys = []")
    case True
    then have "e = x" "next_of h e = e"
      using assms Cons d dll_next_head by (auto)
    with True Cons show ?thesis by (auto simp: ring_cut_def same_off_def)
  next
    case False
    note nn = dll_links_nonnull [OF d(1) False, of e]
    show ?thesis
    proof (cases "e = x")
      case True
      then obtain y zs where ys: "ys = y # zs" using False by (cases ys) auto
      have dx: "dll h y (zs @ [x])" using dll_rotate d(1) ys by simp
      obtain h' where h': "llist_unlink h x = Inr h'" "dll h' y zs"
        using llist_unlink_dll [of h y zs x "[]"] dx by auto
      have "next_of h x = y" using dll_next_head [OF d(1)] ys by simp
      moreover have "same_off (set xs) h h'"
        using llist_unlink_same_off [of h y zs x "[]"] dx h'(1) Cons ys
        by (simp add: insert_commute)
      ultimately show ?thesis
        using ring_cut_unlink [OF h'(1)] nn True Cons d h' ys by auto
    next
      case e: False
      then have ey: "e \<in> set ys" using assms Cons by auto
      then obtain us vs where ys: "ys = us @ e # vs" "e \<notin> set us"
        by (meson split_list_first)
      obtain h' where h': "llist_unlink h e = Inr h'" "dll h' x (us @ vs)"
        using llist_unlink_dll [of h x us e vs] d(1) ys by auto
      moreover have "same_off (set xs) h h'"
        using llist_unlink_same_off [of h x us e vs] d(1) h'(1) Cons ys by simp
      ultimately show ?thesis
        using ring_cut_unlink [OF h'(1)] nn e ey Cons d ys by (auto simp: remove1_append)
    qed
  qed
qed


lemma mruc_remove_rep:
  assumes r: "mruc_rep st c es bs" and e: "e \<in> set es"
  shows "\<exists>st' bs'. mruc_remove st e = Inr st' \<and> mruc_rep st' c (remove1 e es) bs'
            \<and> e_hash st' = e_hash st \<and> e_cache st' e = NULL
            \<and> mruc_frame (set (c_mrul (caches st c) # es)) c st st'
            \<and> mruc_st.more st' = mruc_st.more st"
proof -
  define K where "K = caches st c"
  define i where "i = bkt_index K (e_hash st e)"
  have ok: "cache_ok K" "c \<noteq> NULL" and dl: "dll (links st) (c_mrul K) es"
    and cnt: "sint (c_count K) = int (length es)" and len: "length bs = length (c_table K)"
    and own: "\<forall>x \<in> set es. e_cache st x = c"
    using r by (auto simp: mruc_rep_def K_def)
  have bkt: "ring (bkts st) (c_table K ! j) (bs ! j)"
      "set (bs ! j) = {x \<in> set es. bkt_index K (e_hash st x) = j}" if "j < length bs" for j
    using r that by (auto simp: mruc_rep_def K_def)
  have i: "i < length bs" using bkt_index_bound [OF ok(1)] len by (simp add: i_def)
  have ei: "e \<in> set (bs ! i)" using bkt(2) [OF i] e by (auto simp: i_def)
  let ?b = "bkts st"
  note cut = ring_cut_ring [OF bkt(1) [OF i] ei]
  obtain us vs where es: "es = us @ e # vs" "e \<notin> set us" using e by (meson split_list_first)
  then obtain h where h: "llist_unlink (links st) e = Inr h" "dll h (c_mrul K) (remove1 e es)"
    using llist_unlink_dll [of "links st" "c_mrul K" us e vs] dl by (auto simp: remove1_append)
  have off: "same_off (set (c_mrul K # es)) (links st) h"
    using llist_unlink_same_off [of "links st" "c_mrul K" us e vs] dl es h(1) by simp
  have dist: "distinct es" "e \<noteq> NULL" using dll_not_null [OF dl] e by (blast, metis)
  define t' where "t' = (c_table K)[i := if next_of ?b e = e then NULL
      else if c_table K ! i = e then next_of ?b e else c_table K ! i]"
  define K' where "K' = K\<lparr>c_table := t', c_count := c_count K - 1\<rparr>"
  define st' where "st' = st\<lparr>links := h, caches := (caches st)(c := K'),
      e_cache := (e_cache st)(e := NULL), bkts := ring_cut ?b e\<rparr>"
  have idx: "bkt_index K' = bkt_index K" by (auto simp: K'_def bkt_index_def fun_eq_iff)
  have "Suc 0 \<le> length es" using e by (cases es) auto
  then have K': "cache_ok K'" "length (c_table K') = length (c_table K)" "c_mrul K' = c_mrul K"
      "c_csize K' = c_csize K" "sint (c_count K') = int (length (remove1 e es))"
    using ok cnt e by (auto simp: K'_def t'_def cache_ok_def sint_decr length_remove1 of_nat_diff)
  have rings: "ring (ring_cut ?b e) (c_table K' ! j) (bs[i := remove1 e (bs ! i)] ! j) \<and>
       set (bs[i := remove1 e (bs ! i)] ! j) = {x \<in> set (remove1 e es). bkt_index K (e_hash st x) = j}"
    if j: "j < length bs" for j
  proof (cases "j = i")
    case True
    moreover have "distinct (bs ! i)"
      using bkt(1) [OF i] by (cases "bs ! i") (auto simp: dll_def)
    ultimately show ?thesis
      using cut i len bkt(2) [OF i] dist by (auto simp: K'_def t'_def)
  next
    case False
    have "set (bs ! i) \<inter> set (bs ! j) = {}"
      using bkt(2) [OF i] bkt(2) [OF j] False by auto
    then have "ring (ring_cut ?b e) (c_table K ! j) (bs ! j)"
      using ring_same_off cut bkt(1) [OF j] by blast
    with False bkt(2) [OF j] dist show ?thesis by (auto simp: K'_def t'_def i_def)
  qed
  have rep': "mruc_rep st' c (remove1 e es) (bs[i := remove1 e (bs ! i)])"
    using ok K' h(2) own rings len idx dist by (simp add: mruc_rep_def st'_def)
  have "next_of ?b e \<noteq> e \<longrightarrow> prev_of ?b e \<noteq> e"
  proof (cases "bs ! i")
    case (Cons x ys)
    then show ?thesis
      using dll_links_nonnull [of ?b x ys e] dll_next_head [of ?b x ys] bkt(1) [OF i] ei
      by (cases "ys = []") auto
  qed (use ei in simp)
  then have "mruc_remove st e = Inr st'"
    using ok own e dist h(1) i len cut
    by (auto simp: mruc_remove_def Let_def K_def st'_def K'_def t'_def i_def ring_cut_def
        list_update_id)
  moreover have "mruc_frame (set (c_mrul K # es)) c st st'"
    using off K' by (simp add: mruc_frame_def st'_def K_def)
  ultimately show ?thesis using rep' by (auto simp: st'_def K_def)
qed


lemma mruc_bump_rep:
  assumes r: "mruc_rep st c es bs" and e: "e \<in> set es"
  shows "\<exists>h. mruc_bump st e = Inr (st\<lparr>links := h\<rparr>)
             \<and> mruc_rep (st\<lparr>links := h\<rparr>) c (remove1 e es @ [e]) bs"
proof -
  let ?l = "c_mrul (caches st c)"
  have d: "dll (links st) ?l es" "c \<noteq> NULL" "e_cache st e = c" "distinct es" "e \<noteq> NULL"
    using r e dll_not_null unfolding mruc_rep_def by (blast, blast, blast, blast, metis)
  obtain h where "ll.touch (links st) ?l e = Inr h" "dll h ?l (remove1 e es @ [e])"
    using ll.touch_rep [OF d(1) e] by blast
  moreover have "mruc_bump st e = map_sum id (\<lambda>h. st\<lparr>links := h\<rparr>) (ll.touch (links st) ?l e)"
    using d by (simp add: mruc_bump_def ll.touch_def Let_def split: sum.split)
  moreover have "set (remove1 e es @ [e]) = set es" "length (remove1 e es @ [e]) = length es"
    using d(4) e by (auto simp: length_remove1 Suc_diff_le Suc_le_eq) (cases es; auto)
  ultimately show ?thesis using r by (auto simp: mruc_rep_def simp del: set_append length_append)
qed

lemma mruc_create_rep:
  assumes "c \<noteq> NULL" "c_mrul (caches st c) \<noteq> NULL" "n < 31" "tsize = 2 ^ n"
  shows "\<exists>st'. mruc_create st c csize tsize = Inr st'
            \<and> mruc_rep st' c [] (replicate (unat tsize) [])
            \<and> c_csize (caches st' c) = csize
            \<and> c_mrul (caches st' c) = c_mrul (caches st c)"
  using assms llist_create_dll [of "c_mrul (caches st c)" "links st"]
  by (auto simp: mruc_create_def mruc_rep_def cache_ok_def Let_def)

section \<open>Eviction\<close>

text \<open>
  The contract of the callback that evicts an entry: on an entry that is \<open>good\<close> to its
  owner it takes exactly that entry out of the cache and keeps the keys; \<open>eff\<close> is what it
  does to the owner's data, which leaves the other entries good.  From this follows that an
  insertion ends with the oldest entry gone when the cache was full, and that a flush ends
  with nothing in the cache.
\<close>

fun evict_all :: "('x mruc_st_scheme \<Rightarrow> addr \<Rightarrow> 'x mruc_st_scheme exec) \<Rightarrow> addr list \<Rightarrow> 'x mruc_st_scheme \<Rightarrow> 'x mruc_st_scheme exec" where
  "evict_all evictor [] st = Inr st"
| "evict_all evictor (e # es) st =
     (case evictor st e of Inl f \<Rightarrow> Inl f | Inr st' \<Rightarrow> evict_all evictor es st')"

locale mruc_evictor =
  fixes evictor :: "'x mruc_st_scheme \<Rightarrow> addr \<Rightarrow> 'x mruc_st_scheme exec"
    and good :: "'x mruc_st_scheme \<Rightarrow> addr \<Rightarrow> bool"
    and eff :: "addr \<Rightarrow> 'x mruc_st_scheme \<Rightarrow> 'x mruc_st_scheme \<Rightarrow> bool"
  assumes evicts: "mruc_rep st c es bs \<Longrightarrow> e \<in> set es \<Longrightarrow> good st e \<Longrightarrow>
     \<exists>st' bs'. evictor st e = Inr st' \<and> mruc_rep st' c (remove1 e es) bs'
       \<and> e_hash st' = e_hash st \<and> mruc_frame (set (c_mrul (caches st c) # es)) c st st'
       \<and> eff e st st'"
    and good_more: "mruc_st.more st = mruc_st.more st' \<Longrightarrow> good st x \<Longrightarrow> good st' x"
    and eff_good: "eff e st st' \<Longrightarrow> x \<noteq> e \<Longrightarrow> good st x \<Longrightarrow> good st' x"
begin

lemma add_evicting:
  assumes r: "mruc_rep st c es bs"
    and e: "e \<noteq> NULL" "e \<notin> set es" "e \<noteq> c_mrul (caches st c)"
    and room: "length es < 2 ^ 31 - 1" and g: "\<forall>x \<in> set (es @ [e]). good st x"
  shows "\<exists>st1 st' bs'. mruc_add evictor st c e k = Inr st'
            \<and> mruc_rep st' c (if int (length es) + 1 > sint (c_csize (caches st c))
                               then tl (es @ [e]) else es @ [e]) bs'
            \<and> e_hash st' = (e_hash st)(e := k)
            \<and> mruc_frame (set (c_mrul (caches st c) # es @ [e])) c st st'
            \<and> mruc_st.more st1 = mruc_st.more st
            \<and> (if int (length es) + 1 > sint (c_csize (caches st c))
               then eff (hd (es @ [e])) st1 st' else st' = st1)"
proof -
  obtain st1 bs1 where 1: "mruc_rep st1 c (es @ [e]) bs1" "e_hash st1 = (e_hash st)(e := k)"
      "mruc_frame (set (c_mrul (caches st c) # es @ [e])) c st st1"
      "mruc_st.more st1 = mruc_st.more st"
      "mruc_add evictor st c e k =
         (if int (length es) + 1 > sint (c_csize (caches st c))
          then evictor st1 (hd (es @ [e])) else Inr st1)"
    using mruc_add_insert [OF r e room] by metis
  show ?thesis
  proof (cases "int (length es) + 1 > sint (c_csize (caches st c))")
    case False
    with 1 show ?thesis by auto
  next
    case True
    have hd: "hd (es @ [e]) \<in> set (es @ [e])" by (intro hd_in_set) simp
    then have "good st1 (hd (es @ [e]))" using g good_more [OF 1(4) [symmetric]] by blast
    then obtain st2 bs2 where 2: "evictor st1 (hd (es @ [e])) = Inr st2"
        "mruc_rep st2 c (remove1 (hd (es @ [e])) (es @ [e])) bs2" "e_hash st2 = e_hash st1"
        "mruc_frame (set (c_mrul (caches st1 c) # es @ [e])) c st1 st2" "eff (hd (es @ [e])) st1 st2"
      using evicts [OF 1(1) hd] by blast
    have "remove1 (hd (es @ [e])) (es @ [e]) = tl (es @ [e])" by (cases es) auto
    moreover have "mruc_frame (set (c_mrul (caches st c) # es @ [e])) c st st2"
      using 1(3) 2(4) by (auto simp: mruc_frame_def same_off_def)
    moreover have "mruc_add evictor st c e k = Inr st2" using 1(5) 2(1) True by simp
    ultimately show ?thesis using True 1(2,4) 2(2,3,5)
      by (intro exI [of _ st1] exI [of _ st2] exI [of _ bs2]) simp
  qed
qed

lemma flush_evicts_all:
  assumes "mruc_rep st c es bs" "\<forall>x \<in> set es. good st x"
  shows "\<exists>st' bs'. mruc_flush evictor st c = Some (Inr st')
           \<and> evict_all evictor es st = Inr st' \<and> mruc_rep st' c [] bs'"
  using assms
proof (induction es arbitrary: st bs)
  case Nil
  then have "mruc_get_lru st c = Inr NULL"
    using llist_get_first_dll by (fastforce simp: mruc_get_lru_def mruc_rep_def)
  then show ?case using Nil by (subst mruc_flush.simps) auto
next
  case (Cons e es)
  then have d: "dll (links st) (c_mrul (caches st c)) (e # es)" "c \<noteq> NULL"
    by (auto simp: mruc_rep_def)
  then have l: "mruc_get_lru st c = Inr e" "e \<noteq> NULL" "e \<notin> set es"
    using llist_get_first_dll [OF d(1)] dll_not_null [OF d(1)]
    by (auto simp: mruc_get_lru_def dll_def)
  obtain st1 bs1 where 1: "evictor st e = Inr st1" "mruc_rep st1 c (remove1 e (e # es)) bs1"
      "eff e st st1"
    using evicts [OF Cons.prems(1), of e] Cons.prems(2) by auto
  moreover have "\<forall>x \<in> set es. good st1 x"
    using eff_good [OF 1(3)] Cons.prems(2) l(3) by (metis list.set_intros(2))
  ultimately have "\<exists>st' bs'. mruc_flush evictor st1 c = Some (Inr st')
           \<and> evict_all evictor es st1 = Inr st' \<and> mruc_rep st' c [] bs'"
    using Cons.IH by simp
  with l 1 show ?case by (subst mruc_flush.simps) auto
qed

end

interpretation mr: mruc_evictor "mruc_remove :: 'x mruc_st_scheme \<Rightarrow> addr \<Rightarrow> 'x mruc_st_scheme exec"
  "\<lambda>_ _. True" "\<lambda>_ st st'. mruc_st.more st' = mruc_st.more st"
proof
  fix st :: "'x mruc_st_scheme" and c es bs e
  assume "mruc_rep st c es bs" "e \<in> set es"
  from mruc_remove_rep [OF this] show "\<exists>st' bs'. mruc_remove st e = Inr st' \<and>
      mruc_rep st' c (remove1 e es) bs' \<and> e_hash st' = e_hash st \<and>
      mruc_frame (set (c_mrul (caches st c) # es)) c st st' \<and>
      mruc_st.more st' = mruc_st.more st" by blast
qed auto

section \<open>The cache implements a bounded LRU map\<close>

text \<open>
  The abstract cache is the list of its entries with their keys, the least recently used
  first.  \<open>Add\<close>, \<open>Use\<close> and \<open>Drop\<close> are the calls that a client makes.
\<close>

datatype mruc_op = Add addr u64 | Use addr | Drop addr

type_synonym lru = "(addr \<times> u64) list"

fun lru_step :: "int \<Rightarrow> mruc_op \<Rightarrow> lru \<Rightarrow> lru" where
  "lru_step csize (Add e k) xs =
     (if int (length xs) + 1 > csize then tl (xs @ [(e, k)]) else xs @ [(e, k)])"
| "lru_step csize (Use e) xs = filter (\<lambda>x. fst x \<noteq> e) xs @ filter (\<lambda>x. fst x = e) xs"
| "lru_step csize (Drop e) xs = filter (\<lambda>x. fst x \<noteq> e) xs"

text \<open>
  What a client must respect: it adds objects that are not yet in the cache, under a key
  that is not yet in use, and uses or drops only entries of the cache.
\<close>

fun lru_may :: "addr \<Rightarrow> mruc_op \<Rightarrow> lru \<Rightarrow> bool" where
  "lru_may l (Add e k) xs \<longleftrightarrow>
     e \<noteq> NULL \<and> e \<noteq> l \<and> e \<notin> fst ` set xs \<and> k \<notin> snd ` set xs"
| "lru_may l (Use e) xs \<longleftrightarrow> e \<in> fst ` set xs"
| "lru_may l (Drop e) xs \<longleftrightarrow> e \<in> fst ` set xs"

fun lru_run :: "int \<Rightarrow> mruc_op list \<Rightarrow> lru \<Rightarrow> lru" where
  "lru_run csize [] xs = xs"
| "lru_run csize (c # cs) xs = lru_run csize cs (lru_step csize c xs)"

fun lru_may_run :: "addr \<Rightarrow> int \<Rightarrow> mruc_op list \<Rightarrow> lru \<Rightarrow> bool" where
  "lru_may_run l csize [] xs = True"
| "lru_may_run l csize (c # cs) xs = (lru_may l c xs \<and> lru_may_run l csize cs (lru_step csize c xs))"

fun mruc_step :: "addr \<Rightarrow> mruc_op \<Rightarrow> 'x mruc_st_scheme \<Rightarrow> 'x mruc_st_scheme exec" where
  "mruc_step c (Add e k) st = mruc_add mruc_remove st c e k"
| "mruc_step c (Use e) st = mruc_bump st e"
| "mruc_step c (Drop e) st = mruc_remove st e"

fun mruc_run :: "addr \<Rightarrow> mruc_op list \<Rightarrow> 'x mruc_st_scheme \<Rightarrow> 'x mruc_st_scheme exec" where
  "mruc_run c [] st = Inr st"
| "mruc_run c (p # ps) st =
     (case mruc_step c p st of Inl f \<Rightarrow> Inl f | Inr st' \<Rightarrow> mruc_run c ps st')"

definition mruc_abs :: "'x mruc_st_scheme \<Rightarrow> addr \<Rightarrow> lru \<Rightarrow> bool" where
  "mruc_abs st c xs \<longleftrightarrow>
     (\<exists>bs. mruc_rep st c (map fst xs) bs) \<and> (\<forall>(e, k) \<in> set xs. e_hash st e = k) \<and>
     distinct (map snd xs) \<and> int (length xs) \<le> sint (c_csize (caches st c))"

lemma mruc_rep_distinct: "mruc_rep st c es bs \<Longrightarrow> distinct es"
  by (auto simp: mruc_rep_def dll_def)

lemma filter_split_key:
  "e \<in> fst ` set xs \<Longrightarrow> distinct (map fst xs) \<Longrightarrow>
     map fst (filter (\<lambda>x. fst x \<noteq> e) xs) = remove1 e (map fst xs) \<and>
     map fst (filter (\<lambda>x. fst x = e) xs) = [e]"
proof (induction xs)
  case (Cons x xs)
  have *: "e \<notin> fst ` set xs \<Longrightarrow> filter (\<lambda>x. fst x \<noteq> e) xs = xs \<and> filter (\<lambda>x. fst x = e) xs = []"
    by (auto simp: filter_id_conv filter_empty_conv)
  show ?case using Cons * by (cases "fst x = e") auto
qed simp

lemma mruc_step_refines:
  assumes a: "mruc_abs st c xs" and may: "lru_may (c_mrul (caches st c)) p xs"
    and cs: "0 < sint (c_csize (caches st c))"
      "sint (c_csize (caches st c)) < 2 ^ 31 - 1"
  shows "\<exists>st'. mruc_step c p st = Inr st' \<and> mruc_abs st' c (lru_step (sint (c_csize (caches st c))) p xs)
           \<and> c_csize (caches st' c) = c_csize (caches st c)
           \<and> c_mrul (caches st' c) = c_mrul (caches st c)"
proof -
  obtain bs where r: "mruc_rep st c (map fst xs) bs" using a by (auto simp: mruc_abs_def)
  note d = mruc_rep_distinct [OF r]
  show ?thesis
  proof (cases p)
    case (Add e k)
    then have e: "e \<noteq> NULL" "e \<notin> set (map fst xs)" "e \<noteq> c_mrul (caches st c)" "k \<notin> snd ` set xs"
      using may by auto
    have len: "length (map fst xs) < 2 ^ 31 - 1" using a cs by (simp add: mruc_abs_def)
    obtain st' bs' where *: "mruc_add mruc_remove st c e k = Inr st'"
        "mruc_rep st' c (if int (length (map fst xs)) + 1 > sint (c_csize (caches st c))
                          then tl (map fst xs @ [e]) else map fst xs @ [e]) bs'"
        "e_hash st' = (e_hash st)(e := k)"
        and fr: "mruc_frame (set (c_mrul (caches st c) # map fst xs @ [e])) c st st'"
      using mr.add_evicting [OF r e(1-3) len ballI [OF TrueI], of k] by blast
    then have fr: "c_csize (caches st' c) = c_csize (caches st c)"
        "c_mrul (caches st' c) = c_mrul (caches st c)"
      unfolding mruc_frame_def by blast+
    have keys: "\<forall>(x, y) \<in> set (xs @ [(e, k)]). e_hash st' x = y"
      using a e(2) *(3) by (force simp: mruc_abs_def)
    have "mruc_abs st' c (lru_step (sint (c_csize (caches st c))) p xs)"
      using *(2) fr(1) a e(4) cs Add keys by (cases xs) (auto simp: mruc_abs_def split: if_splits)
    with * fr Add show ?thesis by auto
  next
    case (Use e)
    then have e: "e \<in> fst ` set xs" using may by auto
    then obtain h where h: "mruc_bump st e = Inr (st\<lparr>links := h\<rparr>)"
        "mruc_rep (st\<lparr>links := h\<rparr>) c (remove1 e (map fst xs) @ [e]) bs"
      using mruc_bump_rep [OF r] by auto
    have "mset (lru_step 0 p xs) = mset xs" using Use by simp
    then have m: "set (lru_step 0 p xs) = set xs" "length (lru_step 0 p xs) = length xs"
        "distinct (map snd (lru_step 0 p xs)) = distinct (map snd xs)"
      by (metis set_mset_mset, metis size_mset, metis mset_eq_imp_distinct_iff mset_map)
    then show ?thesis using h a Use filter_split_key [OF e d]
      by (auto simp: mruc_abs_def)
  next
    case (Drop e)
    then have e: "e \<in> fst ` set xs" using may by auto
    then obtain st' bs' where h: "mruc_remove st e = Inr st'"
        "mruc_rep st' c (remove1 e (map fst xs)) bs'" "e_hash st' = e_hash st"
        "mruc_frame (set (c_mrul (caches st c) # map fst xs)) c st st'"
      using mruc_remove_rep [OF r, of e] unfolding set_map by blast
    have "int (length (filter (\<lambda>x. fst x \<noteq> e) xs)) \<le> sint (c_csize (caches st c))"
      using a length_filter_le [of "\<lambda>x. fst x \<noteq> e" xs] unfolding mruc_abs_def by linarith
    then show ?thesis using h a Drop filter_split_key [OF e d]
      by (auto simp: mruc_abs_def mruc_frame_def distinct_map_filter)
  qed
qed

lemma mruc_run_refines:
  assumes "mruc_abs st c xs" "lru_may_run (c_mrul (caches st c)) (sint (c_csize (caches st c))) ps xs"
    "0 < sint (c_csize (caches st c))" "sint (c_csize (caches st c)) < 2 ^ 31 - 1"
  shows "\<exists>st'. mruc_run c ps st = Inr st'
           \<and> mruc_abs st' c (lru_run (sint (c_csize (caches st c))) ps xs)
           \<and> c_csize (caches st' c) = c_csize (caches st c)"
  using assms
proof (induction ps arbitrary: st xs)
  case (Cons p ps)
  then obtain st1 where 1: "mruc_step c p st = Inr st1"
      "mruc_abs st1 c (lru_step (sint (c_csize (caches st c))) p xs)"
      "c_csize (caches st1 c) = c_csize (caches st c)" "c_mrul (caches st1 c) = c_mrul (caches st c)"
    using mruc_step_refines by (metis lru_may_run.simps(2))
  then show ?case using Cons.prems Cons.IH [OF 1(2)] by simp
qed auto

lemma mruc_abs_lookup:
  assumes "mruc_abs st c xs"
  shows "mruc_get st c k = Some (Inr (case find (\<lambda>x. snd x = k) xs of None \<Rightarrow> NULL | Some x \<Rightarrow> fst x))"
proof -
  obtain bs where r: "mruc_rep st c (map fst xs) bs" using assms by (auto simp: mruc_abs_def)
  obtain e where e: "mruc_get st c k = Some (Inr e)"
      "if k \<in> e_hash st ` set (map fst xs) then e \<in> set (map fst xs) \<and> e_hash st e = k else e = NULL"
    using mruc_get_iff [OF r] by blast
  have h: "e_hash st a = b" if "(a, b) \<in> set xs" for a b
    using assms that by (auto simp: mruc_abs_def)
  show ?thesis
  proof (cases "find (\<lambda>x. snd x = k) xs")
    case None
    then have "k \<notin> e_hash st ` set (map fst xs)" using h by (auto simp: find_None_iff)
    with None e show ?thesis by simp
  next
    case (Some x)
    then have x: "x \<in> set xs" "snd x = k" by (auto simp: find_Some_iff)
    then have "e_hash st (fst x) = k" using h by (cases x) auto
    then obtain y where y: "y \<in> set xs" "fst y = e" "snd y = k"
      using e x h by (fastforce split: if_splits)
    have "distinct (map snd xs)" using assms by (simp add: mruc_abs_def)
    then have "x = y" using x y by (metis distinct_map inj_onD)
    with Some y e show ?thesis by simp
  qed
qed

section \<open>Properties\<close>

text \<open>
  C5: a fresh cache of \<open>csize\<close> entries and a power-of-two table, put through any sequence
  of insertions, uses and removals that its client may make, never faults, holds at most
  \<open>csize\<close> entries, and answers every lookup as the abstract map does, in which an insertion
  into a full cache drops the least recently used entry.
\<close>

theorem mruc_implements_lru:
  assumes "c \<noteq> NULL" "c_mrul (caches st c) \<noteq> NULL" "n < 31"
    "0 < sint csize" "sint csize < 2 ^ 31 - 1"
    "lru_may_run (c_mrul (caches st c)) (sint csize) ps []"
  shows "\<exists>st0 st'. mruc_create st c csize (2 ^ n) = Inr st0 \<and> mruc_run c ps st0 = Inr st' \<and>
           int (length (lru_run (sint csize) ps [])) \<le> sint csize \<and>
           (\<forall>k. mruc_get st' c k = Some (Inr (case find (\<lambda>x. snd x = k) (lru_run (sint csize) ps []) of
                    None \<Rightarrow> NULL | Some x \<Rightarrow> fst x)))"
proof -
  obtain st0 where st0: "mruc_create st c csize (2 ^ n) = Inr st0"
      "mruc_rep st0 c [] (replicate (unat (2 ^ n :: u32)) [])" "c_csize (caches st0 c) = csize"
      "c_mrul (caches st0 c) = c_mrul (caches st c)"
    using mruc_create_rep [OF assms(1-3) refl] by blast
  then have "mruc_abs st0 c []" using assms(4) by (auto simp: mruc_abs_def)
  then obtain st' where st': "mruc_run c ps st0 = Inr st'"
      "mruc_abs st' c (lru_run (sint csize) ps [])" "c_csize (caches st' c) = csize"
    using mruc_run_refines [of st0 c "[]" ps] st0 assms by auto
  with st0 mruc_abs_lookup [OF st'(2)] show ?thesis by (auto simp: mruc_abs_def)
qed

definition mruc_blank :: mruc_st where
  "mruc_blank = \<lparr>links = \<lparr>next_of = \<lambda>_. NULL, prev_of = \<lambda>_. NULL\<rparr>,
      bkts = \<lparr>next_of = \<lambda>_. NULL, prev_of = \<lambda>_. NULL\<rparr>, e_cache = \<lambda>_. NULL, e_hash = \<lambda>_. 0,
      caches = \<lambda>_. \<lparr>c_table = [], c_tsize = 0, c_count = 0, c_csize = 0, c_mrul = 2\<rparr>\<rparr>"

theorem mruc_implements_lru_witness:
  "\<exists>st0 st'. mruc_create mruc_blank 1 2 (2 ^ 2) = Inr st0 \<and>
     mruc_run 1 [Add 8 100, Add 12 200, Use 8, Add 16 300] st0 = Inr st' \<and>
     mruc_get st' 1 200 = Some (Inr NULL) \<and> mruc_get st' 1 100 = Some (Inr 8)"
  using mruc_implements_lru
    [of 1 mruc_blank 2 2 "[Add 8 100, Add 12 200, Use 8, Add 16 300]"]
  by (auto simp: mruc_blank_def)

end
