(* ===== verification/Icache.thy ===== *)
theory Icache
  imports Mruc
begin

text \<open>
  The inode cache of \<^verbatim>\<open>kernel/vfs/icache.c\<close>.  An inode with references is on the list
  of open inodes; one without is an entry of a most-recently-used cache, from which it
  may be evicted, that is written back and freed.  Both structures run through the same
  link of the inode, its first field.
\<close>

section \<open>State\<close>

text \<open>
  The fields of the inodes that the cache uses extend the state of the cache structures.
  \<open>live\<close> is the set of allocated inodes, \<open>store_log\<close> the sequence of inodes that were
  handed to the file system driver to be written.
\<close>

record icache_st = mruc_st +
  ino_id :: "addr \<Rightarrow> u32"
  device_id :: "addr \<Rightarrow> u32"
  usage_count :: "addr \<Rightarrow> u32"
  open_inodes :: addr
  inode_cache :: addr
  live :: "addr set"
  store_log :: "addr list"

text \<open>
  The driver's \<^verbatim>\<open>store_inode\<close> callback: absent, or a function that reports an error
  number or success.
\<close>

type_synonym store_op = "(addr \<Rightarrow> errno option) option"

definition INODE_HASHR :: "u32 \<Rightarrow> u32 \<Rightarrow> u64" where
  "INODE_HASHR i d = ucast i OR push_bit 32 (ucast d)"

definition INODE_HASH :: "icache_st \<Rightarrow> addr \<Rightarrow> u64" where
  "INODE_HASH st e = INODE_HASHR (ino_id st e) (device_id st e)"

definition CONFIG_INODE_CACHE_SIZE :: u32 where
  "CONFIG_INODE_CACHE_SIZE = 4096"

definition CONFIG_INODE_CACHE_TABLESIZE :: u32 where
  "CONFIG_INODE_CACHE_TABLESIZE = 128"

section \<open>Operations\<close>

definition ifs_store_inode :: "store_op \<Rightarrow> icache_st \<Rightarrow> addr \<Rightarrow> (errno option \<times> icache_st) exec" where
  "ifs_store_inode drv st inode =
     (if inode = NULL then Inl Assert_Failed
      else if inode \<notin> live st then Inl Use_After_Free
      else case drv of
             None \<Rightarrow> Inr (Some ENOTSUP, st)
           | Some f \<Rightarrow> Inr (f inode, st\<lparr>store_log := store_log st @ [inode]\<rparr>))"

definition vfs_icache_evict :: "store_op \<Rightarrow> icache_st \<Rightarrow> addr \<Rightarrow> icache_st exec" where
  "vfs_icache_evict drv st entry =
     (case mruc_remove st entry of
        Inl f \<Rightarrow> Inl f
      | Inr st1 \<Rightarrow>
          (case ifs_store_inode drv st1 entry of
             Inl f \<Rightarrow> Inl f
           | Inr (Some _, st2) \<Rightarrow> Inr st2
           | Inr (None, st2) \<Rightarrow> Inr (st2\<lparr>live := live st2 - {entry}\<rparr>)))"

text \<open>\<open>cache\<close> and \<open>opens\<close> are the results of the two allocations.\<close>

definition vfs_icache_initialize :: "icache_st \<Rightarrow> addr \<Rightarrow> addr \<Rightarrow> icache_st exec" where
  "vfs_icache_initialize st cache opens =
     (let st1 = st\<lparr>inode_cache := cache, open_inodes := opens\<rparr> in
      case mruc_create st1 cache CONFIG_INODE_CACHE_SIZE CONFIG_INODE_CACHE_TABLESIZE of
        Inl f \<Rightarrow> Inl f
      | Inr st2 \<Rightarrow>
          (case llist_create (links st2) opens of
             Inl f \<Rightarrow> Inl f
           | Inr h \<Rightarrow> Inr (st2\<lparr>links := h\<rparr>)))"

definition vfs_inode_release :: "store_op \<Rightarrow> icache_st \<Rightarrow> addr \<Rightarrow> icache_st exec" where
  "vfs_inode_release drv st inode =
     (if inode \<notin> live st then Inl Use_After_Free
      else let st1 = (if usage_count st inode \<noteq> 0
                      then st\<lparr>usage_count := (usage_count st)(inode := usage_count st inode - 1)\<rparr>
                      else st)
           in if usage_count st1 inode \<noteq> 0 then Inr st1
              else case llist_unlink (links st1) inode of
                     Inl f \<Rightarrow> Inl f
                   | Inr h \<Rightarrow>
                       mruc_add (vfs_icache_evict drv) (st1\<lparr>links := h\<rparr>) (inode_cache st1) inode
                         (INODE_HASH st1 inode))"

definition vfs_inode_ref :: "icache_st \<Rightarrow> addr \<Rightarrow> (addr \<times> icache_st) exec" where
  "vfs_inode_ref st inode =
     (if inode = NULL then Inl Assert_Failed
      else if inode \<notin> live st then Inl Use_After_Free
      else case (if usage_count st inode = 0
                 then case mruc_remove st inode of
                        Inl f \<Rightarrow> Inl f
                      | Inr st1 \<Rightarrow>
                          (case llist_add_end (links st1) (open_inodes st1) inode of
                             Inl f \<Rightarrow> Inl f
                           | Inr h \<Rightarrow> Inr (st1\<lparr>links := h\<rparr>))
                 else Inr st) of
             Inl f \<Rightarrow> Inl f
           | Inr st2 \<Rightarrow>
               Inr (inode, st2\<lparr>usage_count := (usage_count st2)(inode := usage_count st2 inode + 1)\<rparr>))"

definition vfs_inode_cache :: "store_op \<Rightarrow> icache_st \<Rightarrow> addr \<Rightarrow> icache_st exec" where
  "vfs_inode_cache drv st inode =
     (if inode = NULL then Inl Assert_Failed
      else if inode \<notin> live st then Inl Use_After_Free
      else mruc_add (vfs_icache_evict drv) st (inode_cache st) inode (INODE_HASH st inode))"

definition vfs_cache_find_iterator :: "icache_st \<Rightarrow> u32 \<Rightarrow> u32 \<Rightarrow> addr \<Rightarrow> bool" where
  "vfs_cache_find_iterator st dev inode_id node \<longleftrightarrow>
     ino_id st node = inode_id \<and> device_id st node = dev"

definition vfs_get_cached_inode :: "icache_st \<Rightarrow> u32 \<Rightarrow> u32 \<Rightarrow> (addr \<times> icache_st) exec option" where
  "vfs_get_cached_inode st dev inode_id =
     (case llist_iterate_select (links st) (open_inodes st) (vfs_cache_find_iterator st dev inode_id) of
        None \<Rightarrow> None
      | Some (Inl f) \<Rightarrow> Some (Inl f)
      | Some (Inr result) \<Rightarrow>
          if result \<noteq> NULL then Some (vfs_inode_ref st result)
          else case mruc_get st (inode_cache st) (INODE_HASHR inode_id dev) of
                 None \<Rightarrow> None
               | Some (Inl f) \<Rightarrow> Some (Inl f)
               | Some (Inr result) \<Rightarrow>
                   if result \<noteq> NULL then Some (vfs_inode_ref st result)
                   else Some (Inr (NULL, st)))"

text \<open>
  The walk of \<^verbatim>\<open>llist_iterate_select\<close> with \<^verbatim>\<open>vfs_cache_flush_iterator\<close>, which writes
  every open inode and always continues.
\<close>

partial_function (option) vfs_flush_open :: "store_op \<Rightarrow> addr \<Rightarrow> icache_st \<Rightarrow> icache_st exec option" where
  "vfs_flush_open drv work st =
     (if work = NULL then Some (Inl Assert_Failed)
      else if open_inodes st = work then Some (Inr st)
      else case ifs_store_inode drv st work of
             Inl f \<Rightarrow> Some (Inl f)
           | Inr (status, st') \<Rightarrow> vfs_flush_open drv (next_of (links st') work) st')"

definition vfs_cache_flush :: "store_op \<Rightarrow> icache_st \<Rightarrow> icache_st exec option" where
  "vfs_cache_flush drv st =
     (if open_inodes st = NULL then Some (Inl Assert_Failed)
      else case vfs_flush_open drv (next_of (links st) (open_inodes st)) st of
             None \<Rightarrow> None
           | Some (Inl f) \<Rightarrow> Some (Inl f)
           | Some (Inr st') \<Rightarrow> mruc_flush (vfs_icache_evict drv) st' (inode_cache st'))"

definition vfs_sync_inode :: "store_op \<Rightarrow> icache_st \<Rightarrow> addr \<Rightarrow> (errno option \<times> icache_st) exec" where
  "vfs_sync_inode drv st inode =
     (if inode = NULL then Inl Assert_Failed else ifs_store_inode drv st inode)"

section \<open>Invariant\<close>

definition ino_key :: "icache_st \<Rightarrow> addr \<Rightarrow> u32 \<times> u32" where
  "ino_key st e = (ino_id st e, device_id st e)"

text \<open>
  \<open>os\<close> are the open inodes, \<open>es\<close> the cached ones, least recently released first.
\<close>

definition icache_inv :: "icache_st \<Rightarrow> addr list \<Rightarrow> addr list \<Rightarrow> bool" where
  "icache_inv st os es \<longleftrightarrow>
     (\<exists>bs. mruc_rep st (inode_cache st) es bs) \<and> dll (links st) (open_inodes st) os \<and>
     set (open_inodes st # os) \<inter> set (c_mrul (caches st (inode_cache st)) # es) = {} \<and>
     c_csize (caches st (inode_cache st)) = CONFIG_INODE_CACHE_SIZE \<and>
     length es \<le> 4096 \<and>
     (\<forall>e \<in> set os. usage_count st e \<noteq> 0) \<and>
     (\<forall>e \<in> set es. usage_count st e = 0 \<and> e_hash st e = INODE_HASH st e) \<and>
     inj_on (ino_key st) (set os \<union> set es) \<and>
     set os \<union> set es \<subseteq> live st"

definition evict_eff :: "store_op \<Rightarrow> addr \<Rightarrow> icache_st \<Rightarrow> icache_st \<Rightarrow> bool" where
  "evict_eff drv e st st' \<longleftrightarrow>
     ino_id st' = ino_id st \<and> device_id st' = device_id st \<and> usage_count st' = usage_count st \<and>
     open_inodes st' = open_inodes st \<and> inode_cache st' = inode_cache st \<and>
     live st - {e} \<subseteq> live st' \<and> live st' \<subseteq> live st \<and>
     store_log st' = store_log st @ (case drv of None \<Rightarrow> [] | Some _ \<Rightarrow> [e])"

section \<open>Lemmas\<close>

lemma INODE_HASHR_inject: "INODE_HASHR i d = INODE_HASHR j e \<longleftrightarrow> i = j \<and> d = e"
proof
  assume eq: "INODE_HASHR i d = INODE_HASHR j e"
  have lo: "bit (INODE_HASHR a b) n = bit a n" if "n < 32" for a b n
    using that by (simp add: INODE_HASHR_def bit_simps)
  have hi: "bit (INODE_HASHR a b) (n + 32) = bit b n" if "n < 32" for a b n
    using that by (auto simp: INODE_HASHR_def bit_simps dest: bit_imp_le_length)
  have "bit i n = bit j n" "bit d n = bit e n" if "n < 32" for n
    using eq lo [OF that] hi [OF that] by metis+
  then show "i = j \<and> d = e" by (auto intro!: bit_word_eqI)
qed simp

lemma same_more:
  assumes "mruc_st.more st' = mruc_st.more st"
  shows "ino_id st' = ino_id st \<and> device_id st' = device_id st \<and> usage_count st' = usage_count st \<and>
     open_inodes st' = open_inodes st \<and> inode_cache st' = inode_cache st \<and> live st' = live st \<and>
     store_log st' = store_log st"
  using assms by (cases st; cases st') simp

lemma vfs_icache_evict_rep:
  assumes "mruc_rep st c es bs" "e \<in> set es" "e \<in> live st"
  shows "\<exists>st' bs'. vfs_icache_evict drv st e = Inr st' \<and> mruc_rep st' c (remove1 e es) bs'
       \<and> e_hash st' = e_hash st \<and> mruc_frame (set (c_mrul (caches st c) # es)) c st st'
       \<and> evict_eff drv e st st'"
proof -
  obtain st1 bs1 where 1: "mruc_remove st e = Inr st1" "mruc_rep st1 c (remove1 e es) bs1"
      "e_hash st1 = e_hash st" "mruc_frame (set (c_mrul (caches st c) # es)) c st st1"
      "mruc_st.more st1 = mruc_st.more st"
    using mruc_remove_rep [OF assms(1,2)] by blast
  have "e \<noteq> NULL" using assms(1,2) dll_not_null by (metis mruc_rep_def)
  moreover have rep: "mruc_rep (st1\<lparr>store_log := x\<rparr>) c es' bs' = mruc_rep st1 c es' bs'"
      "mruc_rep (st1\<lparr>store_log := x, live := y\<rparr>) c es' bs' = mruc_rep st1 c es' bs'"
      "mruc_rep (st1\<lparr>live := y\<rparr>) c es' bs' = mruc_rep st1 c es' bs'" for x y es' bs'
    by (simp_all add: mruc_rep_def)
  ultimately show ?thesis
    using 1 same_more [OF 1(5)] assms(3)
    by (auto simp: vfs_icache_evict_def ifs_store_inode_def evict_eff_def mruc_frame_def
        split: option.splits)
qed

interpretation ic: mruc_evictor "vfs_icache_evict drv" "\<lambda>st e. e \<in> live st" "evict_eff drv" for drv
proof
  show "\<exists>st' bs'. vfs_icache_evict drv st e = Inr st' \<and> mruc_rep st' c (remove1 e es) bs'
       \<and> e_hash st' = e_hash st \<and> mruc_frame (set (c_mrul (caches st c) # es)) c st st'
       \<and> evict_eff drv e st st'"
    if "mruc_rep st c es bs" "e \<in> set es" "e \<in> live st" for st c es bs e
    using vfs_icache_evict_rep that by blast
  show "x \<in> live st'" if "mruc_st.more st = mruc_st.more st'" "x \<in> live st" for st st' :: icache_st and x
    using same_more that by metis
qed (auto simp: evict_eff_def)

text \<open>The cached inodes after \<open>e\<close> was added: a full cache drops its oldest entry.\<close>

definition cache_after :: "addr list \<Rightarrow> addr \<Rightarrow> addr list" where
  "cache_after es e = (if 4096 \<le> length es then tl (es @ [e]) else es @ [e])"

lemma mruc_rep_icache [simp]:
  "mruc_rep (st\<lparr>usage_count := u\<rparr>) c es bs = mruc_rep st c es bs"
  by (simp add: mruc_rep_def)

lemma key_usage [simp]:
  "ino_key (st\<lparr>usage_count := u\<rparr>) = ino_key st" "INODE_HASH (st\<lparr>usage_count := u\<rparr>) = INODE_HASH st"
  by (auto simp: ino_key_def INODE_HASH_def fun_eq_iff)

lemma mruc_rep_relink:
  "mruc_rep st c es bs \<Longrightarrow> dll h (c_mrul (caches st c)) es \<Longrightarrow> mruc_rep (st\<lparr>links := h\<rparr>) c es bs"
  by (simp add: mruc_rep_def)

lemma cache_size_sint: "sint CONFIG_INODE_CACHE_SIZE = 4096"
  by (simp add: CONFIG_INODE_CACHE_SIZE_def)

lemma evict_eff_fields:
  assumes "mruc_st.more st1 = mruc_st.more st" "if b then evict_eff drv e st1 st' else st' = st1"
  shows "ino_id st' = ino_id st \<and> device_id st' = device_id st \<and> usage_count st' = usage_count st \<and>
     open_inodes st' = open_inodes st \<and> inode_cache st' = inode_cache st \<and>
     live st' \<subseteq> live st \<and> (if b then live st - {e} \<subseteq> live st' else live st' = live st \<and> store_log st' = store_log st)"
  using same_more [OF assms(1)] assms(2) by (auto simp: evict_eff_def split: if_splits)

lemma icache_add:
  assumes i: "icache_inv st os es" and e: "e \<notin> set os \<union> set es" "e \<noteq> NULL" "e \<noteq> open_inodes st"
    "e \<noteq> c_mrul (caches st (inode_cache st))" "e \<in> live st" "usage_count st e = 0"
    "inj_on (ino_key st) (insert e (set os \<union> set es))"
  shows "\<exists>st'. mruc_add (vfs_icache_evict drv) st (inode_cache st) e (INODE_HASH st e) = Inr st'
     \<and> icache_inv st' os (cache_after es e)
     \<and> ino_key st' = ino_key st \<and> usage_count st' = usage_count st
     \<and> live st' \<subseteq> live st \<and> (\<forall>x \<in> live st. x \<in> live st' \<or> x \<in> set (es @ [e]) - set (cache_after es e))
     \<and> (length es < 4096 \<longrightarrow> store_log st' = store_log st)"
proof -
  let ?c = "inode_cache st" and ?l = "c_mrul (caches st (inode_cache st))"
  obtain bs where r: "mruc_rep st ?c es bs" using i by (auto simp: icache_inv_def)
  have len: "length es < 2 ^ 31 - 1" and big: "int (length es) + 1 > sint (c_csize (caches st ?c)) \<longleftrightarrow> 4096 \<le> length es"
    using i by (auto simp: icache_inv_def cache_size_sint)
  have g: "\<forall>x \<in> set (es @ [e]). x \<in> live st" using i e by (auto simp: icache_inv_def)
  have nes: "e \<notin> set es" using e by auto
  obtain st1 st' bs' where a: "mruc_add (vfs_icache_evict drv) st ?c e (INODE_HASH st e) = Inr st'"
      "mruc_rep st' ?c (cache_after es e) bs'" "e_hash st' = (e_hash st)(e := INODE_HASH st e)"
      and fr: "mruc_frame (set (?l # es @ [e])) ?c st st'" and more: "mruc_st.more st1 = mruc_st.more st"
      and ef: "if 4096 \<le> length es then evict_eff drv (hd (es @ [e])) st1 st' else st' = st1"
    using ic.add_evicting [OF r e(2) nes e(4) len g, of drv "INODE_HASH st e"]
    unfolding big cache_after_def [symmetric] by blast
  note f = evict_eff_fields [OF more ef]
  have sub: "set (cache_after es e) \<subseteq> set (es @ [e])"
    using set_tl_subset [of "es @ [e]"] by (auto simp: cache_after_def)
  have dist: "distinct (es @ [e])" using mruc_rep_distinct [OF r] nes by simp
  have hd: "hd (es @ [e]) \<notin> set (cache_after es e)" if "4096 \<le> length es"
    using dist that by (cases es) (auto simp: cache_after_def)
  have hdin: "hd (es @ [e]) \<in> set (es @ [e])" by (intro hd_in_set) simp
  have "set (?l # es @ [e]) \<inter> set (open_inodes st # os) = {}"
    using i e unfolding icache_inv_def by auto
  then have d: "dll (links st') (open_inodes st) os"
    using dll_same_off fr i unfolding mruc_frame_def icache_inv_def by blast
  have k: "ino_key st' = ino_key st" "INODE_HASH st' = INODE_HASH st"
    using f by (auto simp: ino_key_def INODE_HASH_def fun_eq_iff)
  have lv: "set os \<union> set (cache_after es e) \<subseteq> live st'"
  proof
    fix x assume x: "x \<in> set os \<union> set (cache_after es e)"
    then have "x \<in> live st" using i e(5) sub unfolding icache_inv_def by auto
    moreover have "4096 \<le> length es \<Longrightarrow> x \<noteq> hd (es @ [e])"
      using x hd hdin e(1) i unfolding icache_inv_def by auto
    ultimately show "x \<in> live st'" using f by (auto split: if_splits)
  qed
  have "icache_inv st' os (cache_after es e)"
    unfolding icache_inv_def
  proof (intro conjI)
    show "\<exists>bs. mruc_rep st' (inode_cache st') (cache_after es e) bs" using a(2) f by auto
    show "dll (links st') (open_inodes st') os" using d f by simp
    show "set (open_inodes st' # os) \<inter> set (c_mrul (caches st' (inode_cache st')) # cache_after es e) = {}"
      using f fr i e sub unfolding icache_inv_def mruc_frame_def by auto
    show "c_csize (caches st' (inode_cache st')) = CONFIG_INODE_CACHE_SIZE"
      using f fr i unfolding icache_inv_def mruc_frame_def by simp
    show "length (cache_after es e) \<le> 4096" using i by (auto simp: cache_after_def icache_inv_def)
    show "\<forall>e\<in>set os. usage_count st' e \<noteq> 0" using i f by (simp add: icache_inv_def)
    show "\<forall>x\<in>set (cache_after es e). usage_count st' x = 0 \<and> e_hash st' x = INODE_HASH st' x"
      using i f sub e(6) a(3) k(2) unfolding icache_inv_def by auto
    show "inj_on (ino_key st') (set os \<union> set (cache_after es e))"
      using e(7) sub k(1) by (auto intro: inj_on_subset)
    show "set os \<union> set (cache_after es e) \<subseteq> live st'" by (rule lv)
  qed
  moreover have "\<forall>x \<in> live st. x \<in> live st' \<or> x \<in> set (es @ [e]) - set (cache_after es e)"
    using f hd hdin by (auto split: if_splits)
  ultimately show ?thesis using a(1) k(1) f by auto
qed

lemma icache_inv_rep:
  assumes "icache_inv st os es"
  shows "distinct os" "distinct es" "set os \<inter> set es = {}" "NULL \<notin> set os" "NULL \<notin> set es"
    "open_inodes st \<notin> set os \<union> set es" "c_mrul (caches st (inode_cache st)) \<notin> set os \<union> set es"
    "open_inodes st \<noteq> NULL"
  using assms unfolding icache_inv_def mruc_rep_def dll_def by auto

lemma vfs_inode_ref_inv:
  assumes i: "icache_inv st os es" and e: "e \<in> set os \<union> set es" and u: "usage_count st e + 1 \<noteq> 0"
  shows "\<exists>st'. vfs_inode_ref st e = Inr (e, st')
     \<and> icache_inv st' (if e \<in> set es then os @ [e] else os) (remove1 e es)
     \<and> ino_key st' = ino_key st
     \<and> usage_count st' = (usage_count st)(e := usage_count st e + 1) \<and> live st' = live st
     \<and> store_log st' = store_log st"
proof -
  note d = icache_inv_rep [OF i]
  have nn: "e \<noteq> NULL" "e \<in> live st" using e d i by (metis UnE, auto simp: icache_inv_def)
  show ?thesis
  proof (cases "e \<in> set es")
    case False
    then have eo: "e \<in> set os" using e by auto
    then have "usage_count st e \<noteq> 0" using i by (simp add: icache_inv_def)
    moreover have "icache_inv (st\<lparr>usage_count := (usage_count st)(e := usage_count st e + 1)\<rparr>) os es"
      using i u False by (auto simp: icache_inv_def)
    ultimately show ?thesis using nn False
      by (auto simp: vfs_inode_ref_def ino_key_def fun_eq_iff remove1_idem)
  next
    case True
    let ?c = "inode_cache st" and ?l = "c_mrul (caches st (inode_cache st))"
    have z: "usage_count st e = 0" using i True by (simp add: icache_inv_def)
    obtain bs where r: "mruc_rep st ?c es bs" using i by (auto simp: icache_inv_def)
    obtain st1 bs1 where 1: "mruc_remove st e = Inr st1" "mruc_rep st1 ?c (remove1 e es) bs1"
        "e_hash st1 = e_hash st" "mruc_frame (set (?l # es)) ?c st st1"
        "mruc_st.more st1 = mruc_st.more st"
      using mruc_remove_rep [OF r True] by blast
    note m = same_more [OF 1(5)]
    have "set (?l # es) \<inter> set (open_inodes st # os) = {}" using i by (auto simp: icache_inv_def)
    then have do: "dll (links st1) (open_inodes st) os"
      using dll_same_off 1(4) i unfolding mruc_frame_def icache_inv_def by blast
    have eno: "e \<notin> set (open_inodes st # os)" using d True by auto
    obtain h where h: "llist_add_end (links st1) (open_inodes st) e = Inr h"
        "dll h (open_inodes st) (os @ [e])" "same_off (set (open_inodes st # os @ [e])) (links st1) h"
      using llist_add_end_dll [OF do eno nn(1)] by blast
    have lm: "c_mrul (caches st1 ?c) = ?l" "c_csize (caches st1 ?c) = c_csize (caches st ?c)"
      using 1(4) by (auto simp: mruc_frame_def)
    have "set (open_inodes st # os @ [e]) \<inter> set (?l # remove1 e es) = {}"
      using d True i by (auto simp: icache_inv_def)
    then have dc: "dll h (c_mrul (caches st1 ?c)) (remove1 e es)"
      using dll_same_off [OF h(3)] 1(2) lm unfolding mruc_rep_def by metis
    define st2 where "st2 = st1\<lparr>links := h, usage_count := (usage_count st)(e := 1)\<rparr>"
    have "icache_inv st2 (os @ [e]) (remove1 e es)"
      unfolding icache_inv_def
    proof (intro conjI)
      show "\<exists>bs. mruc_rep st2 (inode_cache st2) (remove1 e es) bs"
        using mruc_rep_relink [OF 1(2) dc] m by (auto simp: st2_def)
      show "dll (links st2) (open_inodes st2) (os @ [e])" using h(2) m by (simp add: st2_def)
      show "set (open_inodes st2 # os @ [e]) \<inter> set (c_mrul (caches st2 (inode_cache st2)) # remove1 e es) = {}"
        using d True i lm m by (auto simp: icache_inv_def st2_def)
      show "c_csize (caches st2 (inode_cache st2)) = CONFIG_INODE_CACHE_SIZE"
        using i lm m by (simp add: icache_inv_def st2_def)
      show "length (remove1 e es) \<le> 4096" using i by (auto simp: icache_inv_def length_remove1)
      show "\<forall>x\<in>set (os @ [e]). usage_count st2 x \<noteq> 0" using i by (auto simp: icache_inv_def st2_def)
      show "\<forall>x\<in>set (remove1 e es). usage_count st2 x = 0 \<and> e_hash st2 x = INODE_HASH st2 x"
        using i d(2) 1(3) m by (auto simp: icache_inv_def st2_def INODE_HASH_def)
      show "inj_on (ino_key st2) (set (os @ [e]) \<union> set (remove1 e es))"
        using i m True d(2) by (auto simp: icache_inv_def st2_def ino_key_def inj_on_def)
      show "set (os @ [e]) \<union> set (remove1 e es) \<subseteq> live st2"
        using i m True d(2) by (auto simp: icache_inv_def st2_def)
    qed
    moreover have "vfs_inode_ref st e = Inr (e, st2)"
      using nn z 1(1) h(1) m by (simp add: vfs_inode_ref_def st2_def)
    ultimately show ?thesis using True z m by (auto simp: st2_def ino_key_def fun_eq_iff)
  qed
qed

lemma vfs_inode_release_inv:
  assumes i: "icache_inv st os es" and e: "e \<in> set os"
  shows "\<exists>st'. vfs_inode_release drv st e = Inr st'
     \<and> icache_inv st' (if usage_count st e = 1 then remove1 e os else os)
         (if usage_count st e = 1 then cache_after es e else es)
     \<and> ino_key st' = ino_key st
     \<and> usage_count st' = (usage_count st)(e := usage_count st e - 1)"
proof -
  note d = icache_inv_rep [OF i]
  have u: "usage_count st e \<noteq> 0" and lv: "e \<in> live st" and nn: "e \<noteq> NULL"
    using i e d by (auto simp: icache_inv_def)
  let ?u = "(usage_count st)(e := usage_count st e - 1)"
  show ?thesis
  proof (cases "usage_count st e = 1")
    case False
    then have "usage_count st e - 1 \<noteq> 0" by simp
    moreover have "icache_inv (st\<lparr>usage_count := ?u\<rparr>) os es"
      using i e d False by (auto simp: icache_inv_def)
    ultimately show ?thesis using u lv False
      by (auto simp: vfs_inode_release_def ino_key_def fun_eq_iff)
  next
    case True
    let ?l = "c_mrul (caches st (inode_cache st))"
    obtain us vs where os: "os = us @ e # vs" "e \<notin> set us" using e by (meson split_list_first)
    have do: "dll (links st) (open_inodes st) (us @ e # vs)" using i os by (simp add: icache_inv_def)
    obtain h where h: "llist_unlink (links st) e = Inr h" "dll h (open_inodes st) (remove1 e os)"
      using llist_unlink_dll [OF do] os by (auto simp: remove1_append)
    note off = llist_unlink_same_off [OF do h(1)]
    have "set (open_inodes st # us @ e # vs) \<inter> set (?l # es) = {}"
      using i os by (auto simp: icache_inv_def)
    then have dc: "dll h ?l es" using dll_same_off [OF off] i unfolding icache_inv_def mruc_rep_def by blast
    define st1 where "st1 = st\<lparr>usage_count := ?u, links := h\<rparr>"
    have f: "INODE_HASH st1 = INODE_HASH st" "ino_key st1 = ino_key st"
      by (auto simp: st1_def INODE_HASH_def ino_key_def fun_eq_iff)
    have rm: "set (remove1 e os) = set os - {e}" using d by simp
    have i1: "icache_inv st1 (remove1 e os) es"
      unfolding icache_inv_def
    proof (intro conjI)
      have "inode_cache st1 = inode_cache st" by (simp add: st1_def)
      moreover obtain bs where "mruc_rep st (inode_cache st) es bs" using i by (auto simp: icache_inv_def)
      ultimately show "\<exists>bs. mruc_rep st1 (inode_cache st1) es bs"
        using dc by (auto simp: st1_def mruc_rep_def)
      show "dll (links st1) (open_inodes st1) (remove1 e os)" using h by (simp add: st1_def)
      show "set (open_inodes st1 # remove1 e os) \<inter> set (c_mrul (caches st1 (inode_cache st1)) # es) = {}"
        using i rm by (auto simp: icache_inv_def st1_def)
      show "inj_on (ino_key st1) (set (remove1 e os) \<union> set es)"
        using i rm f by (auto simp: icache_inv_def inj_on_def)
    qed (use i rm d f e in \<open>auto simp: icache_inv_def st1_def\<close>)
    have e1: "e \<notin> set (remove1 e os) \<union> set es" "e \<noteq> open_inodes st1"
        "e \<noteq> c_mrul (caches st1 (inode_cache st1))" "e \<in> live st1" "usage_count st1 e = 0"
      using d e lv True rm by (auto simp: st1_def)
    have "insert e (set (remove1 e os) \<union> set es) = set os \<union> set es" using rm e by auto
    then have inj: "inj_on (ino_key st1) (insert e (set (remove1 e os) \<union> set es))"
      using i f by (simp add: icache_inv_def)
    obtain st' where "mruc_add (vfs_icache_evict drv) st1 (inode_cache st1) e (INODE_HASH st1 e) = Inr st'"
        "icache_inv st' (remove1 e os) (cache_after es e)" "ino_key st' = ino_key st1"
        "usage_count st' = usage_count st1"
      using icache_add [OF i1 e1(1) nn e1(2-5) inj, of drv] by blast
    then show ?thesis using True lv h(1) f(2)
      by (auto simp: vfs_inode_release_def Let_def st1_def INODE_HASH_def)
  qed
qed

lemma find_ino:
  "vfs_cache_find_iterator st d i = (\<lambda>e. ino_key st e = (i, d))"
  by (auto simp: fun_eq_iff vfs_cache_find_iterator_def ino_key_def)

lemma vfs_get_cached_inode_inv:
  assumes i: "icache_inv st os es"
  shows "vfs_get_cached_inode st d n =
     (case find (\<lambda>e. ino_key st e = (n, d)) (os @ es) of
        None \<Rightarrow> Some (Inr (NULL, st)) | Some e \<Rightarrow> Some (vfs_inode_ref st e))"
proof -
  note dd = icache_inv_rep [OF i]
  obtain bs where r: "mruc_rep st (inode_cache st) es bs" using i by (auto simp: icache_inv_def)
  have sel: "llist_iterate_select (links st) (open_inodes st) (vfs_cache_find_iterator st d n) =
      Some (Inr (case find (\<lambda>e. ino_key st e = (n, d)) os of None \<Rightarrow> NULL | Some x \<Rightarrow> x))"
    using llist_iterate_select_dll i by (simp add: icache_inv_def find_ino)
  show ?thesis
  proof (cases "find (\<lambda>e. ino_key st e = (n, d)) os")
    case (Some e)
    then have "e \<noteq> NULL" using dd by (metis find_Some_iff nth_mem)
    with Some sel show ?thesis by (simp add: vfs_get_cached_inode_def find_append)
  next
    case None
    have hash: "e_hash st e = INODE_HASHR n d \<longleftrightarrow> ino_key st e = (n, d)" if "e \<in> set es" for e
      using i that by (auto simp: icache_inv_def INODE_HASH_def INODE_HASHR_inject ino_key_def)
    obtain e where e: "mruc_get st (inode_cache st) (INODE_HASHR n d) = Some (Inr e)"
        "if INODE_HASHR n d \<in> e_hash st ` set es then e \<in> set es \<and> e_hash st e = INODE_HASHR n d
         else e = NULL"
      using mruc_get_iff [OF r] by blast
    show ?thesis
    proof (cases "find (\<lambda>e. ino_key st e = (n, d)) es")
      case N: None
      then have "e = NULL" using e(2) hash by (auto simp: find_None_iff split: if_splits)
      with N None sel e(1) show ?thesis by (simp add: vfs_get_cached_inode_def find_append)
    next
      case (Some x)
      then have x: "x \<in> set es" "ino_key st x = (n, d)" by (auto simp: find_Some_iff)
      then have "INODE_HASHR n d \<in> e_hash st ` set es" using hash by force
      then have ee: "e \<in> set es" "ino_key st e = (n, d)" using e(2) hash by auto
      then have "e = x" using x i by (auto simp: icache_inv_def inj_on_def)
      moreover have "e \<noteq> NULL" using dd ee by metis
      ultimately show ?thesis using Some None sel e(1)
        by (simp add: vfs_get_cached_inode_def find_append)
    qed
  qed
qed

lemma vfs_icache_initialize_inv:
  assumes "cache \<noteq> NULL" "opens \<noteq> NULL" "c_mrul (caches st cache) \<noteq> NULL"
    "c_mrul (caches st cache) \<noteq> opens"
  shows "\<exists>st'. vfs_icache_initialize st cache opens = Inr st' \<and> icache_inv st' [] []
           \<and> open_inodes st' = opens \<and> inode_cache st' = cache \<and> live st' = live st
           \<and> c_mrul (caches st' cache) = c_mrul (caches st cache) \<and> store_log st' = store_log st"
proof -
  let ?st1 = "st\<lparr>inode_cache := cache, open_inodes := opens\<rparr>"
  have "CONFIG_INODE_CACHE_TABLESIZE = 2 ^ 7" by (simp add: CONFIG_INODE_CACHE_TABLESIZE_def)
  then obtain st2 where 2: "mruc_create ?st1 cache CONFIG_INODE_CACHE_SIZE CONFIG_INODE_CACHE_TABLESIZE = Inr st2"
      "mruc_rep st2 cache [] (replicate (unat CONFIG_INODE_CACHE_TABLESIZE) [])"
      "c_csize (caches st2 cache) = CONFIG_INODE_CACHE_SIZE"
      "c_mrul (caches st2 cache) = c_mrul (caches ?st1 cache)"
    using mruc_create_rep [of cache ?st1 7] assms by auto
  then have m: "inode_cache st2 = cache" "open_inodes st2 = opens" "live st2 = live st"
      "store_log st2 = store_log st"
    by (auto simp: mruc_create_def Let_def split: if_splits sum.splits)
  obtain h where h: "llist_create (links st2) opens = Inr h" "dll h opens []" "same_off {opens} (links st2) h"
    using llist_create_dll assms(2) by blast
  have "dll h (c_mrul (caches st2 cache)) []"
    using dll_same_off [OF h(3), of "c_mrul (caches st2 cache)" "[]"] 2 assms by (auto simp: mruc_rep_def)
  then have "mruc_rep (st2\<lparr>links := h\<rparr>) cache [] (replicate (unat CONFIG_INODE_CACHE_TABLESIZE) [])"
    using mruc_rep_relink 2(2) by blast
  then show ?thesis using 2 h m assms
    by (auto simp: vfs_icache_initialize_def icache_inv_def Let_def)
qed

lemma evict_all_log:
  assumes "mruc_rep st c es bs" "set es \<subseteq> live st"
  shows "\<exists>st' bs'. evict_all (vfs_icache_evict drv) es st = Inr st' \<and> mruc_rep st' c [] bs'
     \<and> store_log st' = store_log st @ (case drv of None \<Rightarrow> [] | Some _ \<Rightarrow> es)
     \<and> open_inodes st' = open_inodes st \<and> same_off (set (c_mrul (caches st c) # es)) (links st) (links st')"
  using assms
proof (induction es arbitrary: st bs)
  case Nil
  then show ?case by (auto simp: same_off_def split: option.splits)
next
  case (Cons e es)
  obtain st1 bs1 where 1: "vfs_icache_evict drv st e = Inr st1" "mruc_rep st1 c es bs1"
      "mruc_frame (set (c_mrul (caches st c) # e # es)) c st st1" "evict_eff drv e st st1"
    using vfs_icache_evict_rep [OF Cons.prems(1), of e drv] Cons.prems(2) by auto
  have "e \<notin> set es" using mruc_rep_distinct [OF Cons.prems(1)] by simp
  then have "set es \<subseteq> live st1" using 1(4) Cons.prems(2) by (auto simp: evict_eff_def)
  from Cons.IH [OF 1(2) this] 1 show ?case
    by (auto simp: evict_eff_def mruc_frame_def same_off_def split: option.splits)
qed

lemma flush_open_walk:
  assumes "linked (links st) (ws @ [open_inodes st])" "open_inodes st \<notin> set ws" "NULL \<notin> set ws"
    "set ws \<subseteq> live st" "open_inodes st \<noteq> NULL"
  shows "vfs_flush_open drv (hd (ws @ [open_inodes st])) st =
     Some (Inr (st\<lparr>store_log := store_log st @ (case drv of None \<Rightarrow> [] | Some _ \<Rightarrow> ws)\<rparr>))"
  using assms
proof (induction ws arbitrary: st)
  case Nil
  then show ?case by (subst vfs_flush_open.simps) (simp split: option.splits)
next
  case (Cons w ws)
  let ?st = "st\<lparr>store_log := store_log st @ (case drv of None \<Rightarrow> [] | Some _ \<Rightarrow> [w])\<rparr>"
  have n: "next_of (links st) w = hd (ws @ [open_inodes st])" using Cons.prems by (cases ws) auto
  have l: "linked (links ?st) (ws @ [open_inodes ?st])" using Cons.prems by (cases ws) auto
  have "vfs_flush_open drv (hd (ws @ [open_inodes ?st])) ?st =
     Some (Inr (?st\<lparr>store_log := store_log ?st @ (case drv of None \<Rightarrow> [] | Some _ \<Rightarrow> ws)\<rparr>))"
    using Cons.IH [OF l] Cons.prems by simp
  then show ?case using Cons.prems n
    by (subst vfs_flush_open.simps) (auto simp: ifs_store_inode_def split: option.splits)
qed

section \<open>Clients of the cache\<close>

text \<open>
  What the rest of the kernel does with the cache, with the number of references it
  holds to each inode: look an inode up, take a further reference to one it holds,
  release one it holds, and enter a freshly loaded inode that a lookup did not find.
\<close>

definition load_inode :: "icache_st \<Rightarrow> addr \<Rightarrow> u32 \<Rightarrow> u32 \<Rightarrow> icache_st" where
  "load_inode st e n d =
     st\<lparr>live := insert e (live st), ino_id := (ino_id st)(e := n),
        device_id := (device_id st)(e := d), usage_count := (usage_count st)(e := 0)\<rparr>"

inductive client_step :: "store_op \<Rightarrow> icache_st \<times> (addr \<Rightarrow> nat) \<Rightarrow> icache_st \<times> (addr \<Rightarrow> nat) \<Rightarrow> bool"
  for drv where
  lookup: "vfs_get_cached_inode st d n = Some (Inr (e, st')) \<Longrightarrow> e \<noteq> NULL \<Longrightarrow> refs e < 2 ^ 32 - 1 \<Longrightarrow>
     client_step drv (st, refs) (st', refs(e := refs e + 1))"
| ref: "refs e > 0 \<Longrightarrow> refs e < 2 ^ 32 - 1 \<Longrightarrow> vfs_inode_ref st e = Inr (e', st') \<Longrightarrow>
     client_step drv (st, refs) (st', refs(e := refs e + 1))"
| release: "refs e > 0 \<Longrightarrow> vfs_inode_release drv st e = Inr st' \<Longrightarrow>
     client_step drv (st, refs) (st', refs(e := refs e - 1))"
| load: "vfs_get_cached_inode st d n = Some (Inr (NULL, st)) \<Longrightarrow>
     e \<notin> live st \<Longrightarrow> e \<noteq> NULL \<Longrightarrow> e \<noteq> open_inodes st \<Longrightarrow> e \<noteq> c_mrul (caches st (inode_cache st)) \<Longrightarrow>
     vfs_inode_cache drv (load_inode st e n d) e = Inr st' \<Longrightarrow>
     client_step drv (st, refs) (st', refs)"

definition client_inv :: "icache_st \<times> (addr \<Rightarrow> nat) \<Rightarrow> bool" where
  "client_inv s \<longleftrightarrow> (case s of (st, refs) \<Rightarrow>
     \<exists>os es. icache_inv st os es \<and> (\<forall>e. refs e = (if e \<in> set os then unat (usage_count st e) else 0)))"

lemma client_invI:
  "icache_inv st os es \<Longrightarrow> (\<And>e. refs e = (if e \<in> set os then unat (usage_count st e) else 0)) \<Longrightarrow>
   client_inv (st, refs)"
  unfolding client_inv_def by blast

lemma ref_client_inv:
  assumes i: "icache_inv st os es" and r: "\<And>e. refs e = (if e \<in> set os then unat (usage_count st e) else 0)"
    and e: "e \<in> set os \<union> set es" "refs e < 2 ^ 32 - 1" and ref: "vfs_inode_ref st e = Inr (e', st')"
  shows "client_inv (st', refs(e := refs e + 1))"
proof -
  note d = icache_inv_rep [OF i]
  have n: "refs e = unat (usage_count st e)"
    using r [of e] e(1) i by (auto simp: icache_inv_def)
  then have u: "unat (usage_count st e + 1) = refs e + 1" "usage_count st e + 1 \<noteq> 0"
    using unat_incr [of "usage_count st e"] e(2) by auto
  have "icache_inv st' (if e \<in> set es then os @ [e] else os) (remove1 e es)"
      and us: "usage_count st' = (usage_count st)(e := usage_count st e + 1)"
    using vfs_inode_ref_inv [OF i e(1) u(2)] ref by auto
  then show ?thesis
    by (elim client_invI) (use e(1) u r in \<open>auto simp: us\<close>)
qed

lemma vfs_inode_ref_same: "vfs_inode_ref st x = Inr (e, st') \<Longrightarrow> e = x \<and> x \<noteq> NULL"
  by (simp add: vfs_inode_ref_def split: if_splits sum.splits)

lemma load_inv:
  assumes i: "icache_inv st os es" and e: "e \<notin> live st"
    "find (\<lambda>e. ino_key st e = (n, d)) (os @ es) = None"
  shows "icache_inv (load_inode st e n d) os es
     \<and> inj_on (ino_key (load_inode st e n d)) (insert e (set os \<union> set es))"
proof -
  have ne: "e \<notin> set os" "e \<notin> set es" using i e by (auto simp: icache_inv_def)
  have k: "\<forall>x \<in> set os \<union> set es. ino_key (load_inode st e n d) x = ino_key st x \<and> ino_key st x \<noteq> (n, d)"
      "ino_key (load_inode st e n d) e = (n, d)"
    using ne e(2) by (auto simp: ino_key_def load_inode_def find_None_iff)
  have "inj_on (ino_key (load_inode st e n d)) (insert e (set os \<union> set es))"
    using i k unfolding icache_inv_def inj_on_def by (metis insert_iff)
  then show ?thesis using i ne
    by (auto simp: icache_inv_def load_inode_def INODE_HASH_def mruc_rep_def)
qed

lemma client_step_inv:
  assumes "client_step drv s s'" "client_inv s"
  shows "client_inv s'"
  using assms
proof (induction rule: client_step.induct)
  case (lookup st d n e st' refs)
  then obtain os es where i: "icache_inv st os es"
      and r: "\<And>e. refs e = (if e \<in> set os then unat (usage_count st e) else 0)"
    by (auto simp: client_inv_def)
  then obtain x where x: "find (\<lambda>e. ino_key st e = (n, d)) (os @ es) = Some x"
      "vfs_inode_ref st x = Inr (e, st')"
    using lookup.hyps(1,2) vfs_get_cached_inode_inv [OF i, of d n] by (auto split: option.splits)
  have "x \<in> set os \<union> set es" using find_SomeD [OF x(1)] by simp
  moreover have "x = e" using vfs_inode_ref_same x(2) by blast
  ultimately show ?case using ref_client_inv [OF i r] lookup.hyps(3) x(2) by blast
next
  case (ref refs e st e' st')
  then obtain os es where i: "icache_inv st os es"
      and r: "\<And>e. refs e = (if e \<in> set os then unat (usage_count st e) else 0)"
    by (auto simp: client_inv_def)
  then have "e \<in> set os \<union> set es" using ref.hyps(1) by (auto split: if_splits)
  then show ?case using ref_client_inv [OF i r] ref.hyps by blast
next
  case (release refs e st st')
  then obtain os es where i: "icache_inv st os es"
      and r: "\<And>e. refs e = (if e \<in> set os then unat (usage_count st e) else 0)"
    by (auto simp: client_inv_def)
  then have e: "e \<in> set os" using release.hyps(1) by (auto split: if_splits)
  then have u: "usage_count st e \<noteq> 0" using i by (simp add: icache_inv_def)
  have ii: "icache_inv st' (if usage_count st e = 1 then remove1 e os else os)
         (if usage_count st e = 1 then cache_after es e else es)"
      "usage_count st' = (usage_count st)(e := usage_count st e - 1)"
    using vfs_inode_release_inv [OF i e, of drv] release.hyps(2) by auto
  show ?case
    by (rule client_invI [OF ii(1)])
      (use r e ii(2) icache_inv_rep(1) [OF i] unat_decr [OF u] in \<open>auto split: if_splits\<close>)
next
  case (load st d n e st' refs)
  then obtain os es where i: "icache_inv st os es"
      and r: "\<And>e. refs e = (if e \<in> set os then unat (usage_count st e) else 0)"
    by (auto simp: client_inv_def)
  let ?st = "load_inode st e n d"
  have "find (\<lambda>e. ino_key st e = (n, d)) (os @ es) = None"
  proof (rule ccontr)
    assume "\<not> ?thesis"
    then obtain x where "vfs_inode_ref st x = Inr (NULL, st)"
      using load.hyps(1) vfs_get_cached_inode_inv [OF i, of d n] by auto
    then show False using vfs_inode_ref_same by blast
  qed
  note li = load_inv [OF i load.hyps(2) this]
  have e: "e \<notin> set os \<union> set es" using load.hyps(2) i by (auto simp: icache_inv_def)
  have f: "open_inodes ?st = open_inodes st" "c_mrul (caches ?st (inode_cache ?st)) = c_mrul (caches st (inode_cache st))"
      "e \<in> live ?st" "usage_count ?st = (usage_count st)(e := 0)"
    by (auto simp: load_inode_def)
  obtain st'' where "mruc_add (vfs_icache_evict drv) ?st (inode_cache ?st) e (INODE_HASH ?st e) = Inr st''"
      "icache_inv st'' os (cache_after es e)" "usage_count st'' = usage_count ?st"
    using icache_add [of ?st os es e drv] li e load.hyps f by auto
  moreover have "st'' = st'" using load.hyps(3,6) f(3) calculation(1) by (simp add: vfs_inode_cache_def)
  ultimately show ?case using r f(4) e by (intro client_invI) auto
qed

lemma client_reach_inv:
  "(client_step drv)\<^sup>*\<^sup>* s s' \<Longrightarrow> client_inv s \<Longrightarrow> client_inv s'"
  by (induction rule: rtranclp_induct) (auto intro: client_step_inv)

section \<open>Properties\<close>


definition ic_blank :: icache_st where
  "ic_blank = \<lparr>links = \<lparr>next_of = \<lambda>_. NULL, prev_of = \<lambda>_. NULL\<rparr>,
      bkts = \<lparr>next_of = \<lambda>_. NULL, prev_of = \<lambda>_. NULL\<rparr>, e_cache = \<lambda>_. NULL, e_hash = \<lambda>_. 0,
      caches = \<lambda>_. \<lparr>c_table = [], c_tsize = 0, c_count = 0, c_csize = 0, c_mrul = 2\<rparr>,
      ino_id = \<lambda>_. 0, device_id = \<lambda>_. 0, usage_count = \<lambda>_. 0,
      open_inodes = NULL, inode_cache = NULL, live = {}, store_log = []\<rparr>"

text \<open>A run for the examples: the inode 8 is loaded as number 11 of device 1 and looked up.\<close>

lemma ic_example:
  "\<exists>st st1 st2. vfs_icache_initialize ic_blank 1 3 = Inr st
     \<and> vfs_inode_cache None (load_inode st 8 11 1) 8 = Inr st1 \<and> icache_inv st1 [] [8]
     \<and> vfs_get_cached_inode st1 1 11 = Some (Inr (8, st2)) \<and> icache_inv st2 [8] []
     \<and> usage_count st2 8 = 1 \<and> ino_key st2 8 = (11, 1) \<and> store_log st2 = []
     \<and> (client_step None)\<^sup>*\<^sup>* (st, \<lambda>_. 0) (st2, (\<lambda>_. 0)(8 := 1))"
proof -
  obtain st where st: "vfs_icache_initialize ic_blank 1 3 = Inr st" "icache_inv st [] []"
      "open_inodes st = 3" "inode_cache st = 1" "live st = {}" "c_mrul (caches st 1) = 2"
      "store_log st = []"
    using vfs_icache_initialize_inv [of 1 3 ic_blank] by (auto simp: ic_blank_def)
  let ?st = "load_inode st 8 11 1"
  have li: "icache_inv ?st [] []" using load_inv [OF st(2), of 8] st by simp
  obtain st1 where 1: "vfs_inode_cache None ?st 8 = Inr st1" "icache_inv st1 [] [8]"
      "ino_key st1 = ino_key ?st" "usage_count st1 = usage_count ?st" "store_log st1 = store_log ?st"
    using icache_add [OF li, of 8 None] st
    by (auto simp: vfs_inode_cache_def load_inode_def cache_after_def)
  have k: "ino_key st1 8 = (11, 1)" "usage_count st1 8 = 0"
    using 1 by (auto simp: ino_key_def load_inode_def)
  obtain st2 where 2: "vfs_get_cached_inode st1 1 11 = Some (Inr (8, st2))" "icache_inv st2 [8] []"
      "ino_key st2 = ino_key st1" "usage_count st2 8 = 1" "store_log st2 = store_log st1"
    using vfs_inode_ref_inv [OF 1(2), of 8] k vfs_get_cached_inode_inv [OF 1(2), of 1 11] by auto
  have "client_step None (st, \<lambda>_. 0) (st1, \<lambda>_. 0)"
    using client_step.load [of st 1 11 8 None st1 "\<lambda>_. 0"] 1(1) st
      vfs_get_cached_inode_inv [OF st(2), of 1 11] by simp
  moreover have "client_step None (st1, \<lambda>_. 0) (st2, (\<lambda>_. 0)(8 := 1))"
    using client_step.lookup [OF 2(1), of "\<lambda>_. 0"] by simp
  ultimately have "(client_step None)\<^sup>*\<^sup>* (st, \<lambda>_. 0) (st2, (\<lambda>_. 0)(8 := 1))" by simp
  then show ?thesis using st 1 2 k by (auto simp: load_inode_def)
qed


text \<open>
  C10: releasing the last reference to an inode keeps it in memory: the next lookup of its
  number returns the same inode, now with one reference, and the open inodes are
  the same as before up to their order.
\<close>

theorem release_lookup:
  assumes i: "icache_inv st os es" and e: "e \<in> set os" "usage_count st e = 1"
  shows "\<exists>st1 st2. vfs_inode_release drv st e = Inr st1 \<and> icache_inv st1 (remove1 e os) (cache_after es e)
    \<and> vfs_get_cached_inode st1 (device_id st e) (ino_id st e) = Some (Inr (e, st2))
    \<and> icache_inv st2 (remove1 e os @ [e]) (remove1 e (cache_after es e)) \<and> usage_count st2 e = 1"
proof -
  obtain st1 where 1: "vfs_inode_release drv st e = Inr st1"
      "icache_inv st1 (remove1 e os) (cache_after es e)" "ino_key st1 = ino_key st"
      "usage_count st1 = (usage_count st)(e := 0)"
    using vfs_inode_release_inv [OF i e(1), of drv] e(2) by auto
  have ec: "e \<in> set (cache_after es e)"
    by (cases es) (auto simp: cache_after_def)
  let ?P = "\<lambda>x. ino_key st1 x = (ino_id st e, device_id st e)"
  have k: "ino_key st1 e = (ino_id st e, device_id st e)" using 1(3) by (simp add: ino_key_def)
  have "find ?P (remove1 e os @ cache_after es e) \<noteq> None" using ec k by (auto simp: find_None_iff)
  then obtain x where x: "find ?P (remove1 e os @ cache_after es e) = Some x" by auto
  have "x = e" using find_SomeD [OF x] ec k 1(2) by (auto simp: icache_inv_def inj_on_def)
  then show ?thesis
    using 1 ec x vfs_get_cached_inode_inv [OF 1(2), of "device_id st e" "ino_id st e"]
      vfs_inode_ref_inv [OF 1(2), of e] by auto
qed

theorem release_lookup_witness:
  "\<exists>st st1 st2. icache_inv st [8] [] \<and> vfs_inode_release None st 8 = Inr st1
    \<and> vfs_get_cached_inode st1 (device_id st 8) (ino_id st 8) = Some (Inr (8, st2)) \<and> usage_count st2 8 = 1"
proof -
  obtain st where "icache_inv st [8] []" "usage_count st 8 = 1" using ic_example by blast
  then show ?thesis using release_lookup [of st "[8]" "[]" 8 None] by auto
qed

text \<open>
  C11: \<^verbatim>\<open>vfs_cache_flush\<close> terminates without a fault; if the driver can write inodes at
  all, it has then been given every open inode and after them every cached one, in order,
  and the cache is empty while the open inodes stay.
\<close>

theorem vfs_cache_flush_stores_all:
  assumes i: "icache_inv st os es"
  shows "\<exists>st'. vfs_cache_flush (Some f) st = Some (Inr st') \<and> store_log st' = store_log st @ os @ es
    \<and> (\<exists>bs. mruc_rep st' (inode_cache st) [] bs) \<and> dll (links st') (open_inodes st') os"
proof -
  note d = icache_inv_rep [OF i]
  let ?c = "inode_cache st" and ?l = "c_mrul (caches st (inode_cache st))"
  obtain bs where r: "mruc_rep st ?c es bs" and do: "dll (links st) (open_inodes st) os"
      and lv: "set os \<subseteq> live st" "set es \<subseteq> live st"
    using i by (auto simp: icache_inv_def)
  let ?st = "st\<lparr>store_log := store_log st @ os\<rparr>"
  have w: "vfs_flush_open (Some f) (next_of (links st) (open_inodes st)) st = Some (Inr ?st)"
    using flush_open_walk [of st os "Some f"] do lv d dll_next_head [OF do]
      linked_tail [of "links st" "open_inodes st" "os @ [open_inodes st]"]
    by (auto simp: dll_def)
  have r': "mruc_rep ?st ?c es bs" using r by (simp add: mruc_rep_def)
  obtain st' bs' where 1: "mruc_flush (vfs_icache_evict (Some f)) ?st ?c = Some (Inr st')"
      "evict_all (vfs_icache_evict (Some f)) es ?st = Inr st'" "mruc_rep st' ?c [] bs'"
    using ic.flush_evicts_all [OF r', of "Some f"] lv by auto
  obtain st'' where "evict_all (vfs_icache_evict (Some f)) es ?st = Inr st''"
      "store_log st'' = store_log ?st @ es" "open_inodes st'' = open_inodes ?st"
      "same_off (set (?l # es)) (links ?st) (links st'')"
    using evict_all_log [OF r', of "Some f"] lv by auto
  then have 2: "store_log st' = store_log ?st @ es" "open_inodes st' = open_inodes ?st"
      "same_off (set (?l # es)) (links ?st) (links st')" using 1(2) by auto
  have "set (?l # es) \<inter> set (open_inodes st # os) = {}" using i by (auto simp: icache_inv_def)
  then have "dll (links st') (open_inodes st') os"
    using dll_same_off [OF 2(3)] do 2(2) by simp
  then show ?thesis using w 1 2 d by (auto simp: vfs_cache_flush_def)
qed

theorem vfs_cache_flush_stores_all_witness:
  "\<exists>st st'. icache_inv st [8] [] \<and> vfs_cache_flush (Some (\<lambda>_. None)) st = Some (Inr st') \<and> store_log st' = [8]"
proof -
  obtain st where "icache_inv st [8] []" "store_log st = []" using ic_example by blast
  then show ?thesis using vfs_cache_flush_stores_all [of st "[8]" "[]" "\<lambda>_. None"] by auto
qed

end
