(* ===== verification/Synch.thy ===== *)
theory Synch
  imports Kernel_Prelude
begin

text \<open>
  The counting semaphores of \<^verbatim>\<open>kernel/task/synch.c\<close>.  A semaphore is a
  \<^verbatim>\<open>uint32_t\<close>; each operation runs with interrupts disabled and is atomic.  Code that has
  to wait ends in \<open>Sleep\<close>; when the scheduler resumes it because the semaphore became
  available it has already taken one count (\<^verbatim>\<open>scheduler_handle_resume\<close>).
\<close>

type_synonym semaphore = u32

datatype wait_result = SCHED_WAIT_OK | SCHED_WAIT_INTR | SCHED_WAIT_TIMEOUT

definition semaphore_init :: semaphore where
  "semaphore_init = 0"

definition semaphore_up :: "semaphore \<Rightarrow> semaphore" where
  "semaphore_up s = s + 1"

definition semaphore_add :: "semaphore \<Rightarrow> u32 \<Rightarrow> semaphore" where
  "semaphore_add s n = s + n"

definition semaphore_try_down :: "semaphore \<Rightarrow> bool \<times> semaphore" where
  "semaphore_try_down s = (if s = 0 then (False, s) else (True, s - 1))"

text \<open>
  \<^verbatim>\<open>semaphore_ndown\<close> up to the call of \<^verbatim>\<open>scheduler_wait\<close>: either the semaphore was
  taken at once, or the caller has to wait.
\<close>

definition semaphore_ndown :: "semaphore \<Rightarrow> (wait_result, unit, semaphore) outcome" where
  "semaphore_ndown s =
     (case semaphore_try_down s of
        (True, s') \<Rightarrow> Return SCHED_WAIT_OK s'
      | (False, s') \<Rightarrow> Sleep () s')"

lemma semaphore_ndown_eq:
  "semaphore_ndown s = (if s = 0 then Sleep () 0 else Return SCHED_WAIT_OK (s - 1))"
  by (simp add: semaphore_ndown_def semaphore_try_down_def)

end
