(* ===== verification/Pipe.thy ===== *)
theory Pipe
  imports Synch
begin

text \<open>
  The pipes of \<^verbatim>\<open>kernel/pipe.c\<close>: a buffer of 4096 bytes with a read and a write position
  and two semaphores on which readers and writers wait.  The contract is a bounded queue of
  bytes; writes of up to the buffer's size are atomic.
\<close>

section \<open>State and operations\<close>

type_synonym aoff = u32

record pipe_info =
  read_usage_count :: u32
  write_usage_count :: u32
  buffer :: "u8 list option"
  write_ptr :: aoff
  read_ptr :: aoff
  write_lock :: semaphore
  read_lock :: semaphore

definition CONFIG_PIPE_BUFFER_SIZE :: u32 where
  "CONFIG_PIPE_BUFFER_SIZE = 4096"

text \<open>
  \<open>got_pipe\<close> and \<open>got_buffer\<close> are the results of the two allocations; the contents of a
  fresh buffer are \<open>junk\<close>.  The second result is not checked by the code.
\<close>

definition pipe_create :: "bool \<Rightarrow> u8 list option \<Rightarrow> pipe_info option" where
  "pipe_create got_pipe junk =
     (if \<not> got_pipe then None
      else Some \<lparr>read_usage_count = 0, write_usage_count = 0, buffer = junk, write_ptr = 0,
             read_ptr = 0, write_lock = semaphore_init, read_lock = semaphore_init\<rparr>)"

text \<open>\<^term>\<open>Inr ()\<close>: the pipe and its buffer were freed.\<close>

definition pipe_free :: "pipe_info \<Rightarrow> errno + unit" where
  "pipe_free pipe =
     (if read_usage_count pipe + write_usage_count pipe \<noteq> 0 then Inl EBUSY else Inr ())"

definition pipe_open_read :: "pipe_info \<Rightarrow> pipe_info" where
  "pipe_open_read pipe = pipe\<lparr>read_usage_count := read_usage_count pipe + 1\<rparr>"

definition pipe_open_write :: "pipe_info \<Rightarrow> pipe_info" where
  "pipe_open_write pipe = pipe\<lparr>write_usage_count := write_usage_count pipe + 1\<rparr>"

definition pipe_close_read :: "pipe_info \<Rightarrow> pipe_info" where
  "pipe_close_read pipe =
     (let p = pipe\<lparr>read_usage_count := read_usage_count pipe - 1\<rparr>
      in if read_usage_count p = 0 then p\<lparr>write_lock := semaphore_up (write_lock p)\<rparr> else p)"

definition pipe_close_write :: "pipe_info \<Rightarrow> pipe_info" where
  "pipe_close_write pipe =
     (let p = pipe\<lparr>write_usage_count := write_usage_count pipe - 1\<rparr>
      in if write_usage_count p = 0 then p\<lparr>read_lock := semaphore_up (read_lock p)\<rparr> else p)"

definition POLLIN :: u16 where
  "POLLIN = 6"

definition POLLOUT :: u16 where
  "POLLOUT = 32"

definition POLLHUP :: u16 where
  "POLLHUP = 256"

definition pipe_poll :: "pipe_info \<Rightarrow> u16 \<Rightarrow> u16" where
  "pipe_poll pipe events =
     (let r0 = 0;
          r1 = (if flag events POLLIN
                then (let a = (if write_usage_count pipe = 0 then r0 OR POLLHUP else r0);
                          ts = write_ptr pipe - read_ptr pipe
                      in if ts > 0 then a OR POLLIN else a)
                else r0);
          r2 = (if flag events POLLOUT
                then (let a = (if read_usage_count pipe = 0 then r1 OR POLLHUP else r1)
                      in if write_ptr pipe < CONFIG_PIPE_BUFFER_SIZE then a OR POLLIN else a)
                else r1)
      in r2)"

definition pipe_remaining_space :: "pipe_info \<Rightarrow> u32" where
  "pipe_remaining_space pipe = CONFIG_PIPE_BUFFER_SIZE - write_ptr pipe"

definition pipe_is_full :: "pipe_info \<Rightarrow> bool" where
  "pipe_is_full pipe \<longleftrightarrow> write_ptr pipe \<ge> CONFIG_PIPE_BUFFER_SIZE"

definition pipe_is_empty :: "pipe_info \<Rightarrow> bool" where
  "pipe_is_empty pipe \<longleftrightarrow> write_ptr pipe \<le> read_ptr pipe"

text \<open>
  The result of a write is the returned error, if any, with the value stored in
  \<^verbatim>\<open>*write_count\<close>.  A sleeping writer keeps its \<^verbatim>\<open>current_pos\<close>.  \<open>src\<close> is the caller's
  buffer; reading beyond it is a fault.
\<close>

type_synonym pipe_wres = "(errno option \<times> aoff, aoff, pipe_info) outcome"

partial_function (option) pipe_write_loop ::
    "u8 list \<Rightarrow> aoff \<Rightarrow> bool \<Rightarrow> aoff \<Rightarrow> pipe_info \<Rightarrow> pipe_wres option" where
  "pipe_write_loop src count non_block current_pos pipe =
     (let space = CONFIG_PIPE_BUFFER_SIZE - write_ptr pipe;
          turn_size = (if space > count then count else space)
      in if turn_size = 0 \<or> turn_size < count \<and> count \<le> CONFIG_PIPE_BUFFER_SIZE
         then if non_block
              then Some (Return (Some (if read_usage_count pipe \<noteq> 0 then EAGAIN else EPIPE), current_pos) pipe)
              else case semaphore_ndown (write_lock pipe) of
                     Sleep _ s \<Rightarrow> Some (Sleep current_pos (pipe\<lparr>write_lock := s\<rparr>))
                   | Crash f \<Rightarrow> Some (Crash f)
                   | Return _ s \<Rightarrow>
                       let p = pipe\<lparr>write_lock := s\<rparr>
                       in if read_usage_count p \<noteq> 0 then pipe_write_loop src count non_block current_pos p
                          else Some (Return (Some EPIPE, current_pos) p)
         else if unat current_pos + unat turn_size > length src then Some (Crash Out_Of_Bounds)
         else case buffer pipe of
                None \<Rightarrow> Some (Crash Null_Deref)
              | Some b \<Rightarrow>
                  if unat (write_ptr pipe) + unat turn_size > length b then Some (Crash Out_Of_Bounds)
                  else let p = pipe\<lparr>buffer := Some (mem_write b (unat (write_ptr pipe))
                                        (mem_read src (unat current_pos) (unat turn_size))),
                                  write_ptr := write_ptr pipe + turn_size,
                                  read_lock := semaphore_up (read_lock pipe)\<rparr>;
                           pos = current_pos + turn_size
                       in if pos = count then Some (Return (None, count) p)
                          else pipe_write_loop src count non_block pos p)"

definition pipe_write :: "u8 list \<Rightarrow> aoff \<Rightarrow> bool \<Rightarrow> pipe_info \<Rightarrow> pipe_wres option" where
  "pipe_write src count non_block pipe = pipe_write_loop src count non_block 0 pipe"

text \<open>What the sleeping writer does when \<^verbatim>\<open>scheduler_wait\<close> returns \<open>s\<close>.\<close>

definition pipe_write_resume ::
    "u8 list \<Rightarrow> aoff \<Rightarrow> bool \<Rightarrow> aoff \<Rightarrow> wait_result \<Rightarrow> pipe_info \<Rightarrow> pipe_wres option" where
  "pipe_write_resume src count non_block current_pos s pipe =
     (if s \<noteq> SCHED_WAIT_OK then Some (Return (Some EINTR, current_pos) pipe)
      else if read_usage_count pipe \<noteq> 0 then pipe_write_loop src count non_block current_pos pipe
      else Some (Return (Some EPIPE, current_pos) pipe))"

text \<open>
  The result of a read is the error, the value of \<^verbatim>\<open>*read_count\<close> and the bytes that were
  copied to the caller's buffer.  \<open>ov\<close> tells whether the buffer for the overlapping
  copy can be allocated.
\<close>

type_synonym pipe_rres = "(errno option \<times> aoff \<times> u8 list, unit, pipe_info) outcome"

definition pipe_compact :: "bool \<Rightarrow> u8 list \<Rightarrow> aoff \<Rightarrow> pipe_info \<Rightarrow> pipe_info" where
  "pipe_compact ov b turn_size pipe =
     (if turn_size = 0
      then pipe\<lparr>write_ptr := 0, read_ptr := 0, write_lock := semaphore_up (write_lock pipe)\<rparr>
      else if \<not> ov then pipe
      else pipe\<lparr>buffer := Some (mem_write b 0 (mem_read b (unat (read_ptr pipe)) (unat turn_size))),
                write_ptr := turn_size, read_ptr := 0,
                write_lock := semaphore_up (write_lock pipe)\<rparr>)"

partial_function (option) pipe_read_loop ::
    "bool \<Rightarrow> aoff \<Rightarrow> bool \<Rightarrow> aoff \<Rightarrow> u8 list \<Rightarrow> pipe_info \<Rightarrow> pipe_rres option" where
  "pipe_read_loop ov count non_block current_pos out pipe =
     (let avail = write_ptr pipe - read_ptr pipe;
          turn_size = (if avail > count then count else avail)
      in if turn_size = 0
         then let p = pipe\<lparr>write_ptr := 0, read_ptr := 0, write_lock := semaphore_up (write_lock pipe)\<rparr>
              in if current_pos \<noteq> 0 then Some (Return (None, current_pos, out) p)
                 else if non_block
                 then Some (Return (if write_usage_count p \<noteq> 0 then Some EAGAIN else None, current_pos, out) p)
                 else case semaphore_ndown (read_lock p) of
                        Sleep _ s \<Rightarrow> Some (Sleep () (p\<lparr>read_lock := s\<rparr>))
                      | Crash f \<Rightarrow> Some (Crash f)
                      | Return _ s \<Rightarrow>
                          let p' = p\<lparr>read_lock := s\<rparr>
                          in if write_ptr p' - read_ptr p' \<noteq> 0 \<or> write_usage_count p' \<noteq> 0
                             then pipe_read_loop ov count non_block current_pos out p'
                             else Some (Return (None, current_pos, out) p')
         else case buffer pipe of
                None \<Rightarrow> Some (Crash Null_Deref)
              | Some b \<Rightarrow>
                  if unat (read_ptr pipe) + unat turn_size > length b \<or>
                     unat current_pos + unat turn_size > unat count then Some (Crash Out_Of_Bounds)
                  else let out' = out @ mem_read b (unat (read_ptr pipe)) (unat turn_size);
                           p = pipe\<lparr>read_ptr := read_ptr pipe + turn_size\<rparr>;
                           pos = current_pos + turn_size
                       in if pos = count
                          then Some (Return (None, count, out')
                                 (pipe_compact ov b (write_ptr p - read_ptr p) p))
                          else pipe_read_loop ov count non_block pos out' p)"

definition pipe_read :: "bool \<Rightarrow> aoff \<Rightarrow> bool \<Rightarrow> pipe_info \<Rightarrow> pipe_rres option" where
  "pipe_read ov count non_block pipe = pipe_read_loop ov count non_block 0 [] pipe"

text \<open>A reader only sleeps before it has copied anything.\<close>

definition pipe_read_resume ::
    "bool \<Rightarrow> aoff \<Rightarrow> bool \<Rightarrow> wait_result \<Rightarrow> pipe_info \<Rightarrow> pipe_rres option" where
  "pipe_read_resume ov count non_block s pipe =
     (if s \<noteq> SCHED_WAIT_OK then Some (Return (Some EINTR, 0, []) pipe)
      else if write_ptr pipe - read_ptr pipe \<noteq> 0 \<or> write_usage_count pipe \<noteq> 0
      then pipe_read_loop ov count non_block 0 [] pipe
      else Some (Return (None, 0, []) pipe))"

section \<open>The queue in a pipe\<close>

definition pipe_ok :: "pipe_info \<Rightarrow> bool" where
  "pipe_ok p \<longleftrightarrow>
     read_ptr p \<le> write_ptr p \<and> write_ptr p \<le> CONFIG_PIPE_BUFFER_SIZE \<and>
     (case buffer p of None \<Rightarrow> False | Some b \<Rightarrow> length b = unat CONFIG_PIPE_BUFFER_SIZE)"

definition pipe_q :: "pipe_info \<Rightarrow> u8 list" where
  "pipe_q p = (case buffer p of None \<Rightarrow> [] | Some b \<Rightarrow>
     mem_read b (unat (read_ptr p)) (unat (write_ptr p) - unat (read_ptr p)))"

section \<open>Lemmas\<close>

lemma pipe_size_nat [simp]: "unat CONFIG_PIPE_BUFFER_SIZE = 4096"
  by (simp add: CONFIG_PIPE_BUFFER_SIZE_def)

lemma pipe_okD:
  assumes "pipe_ok p"
  obtains b where "buffer p = Some b" "length b = 4096" "unat (read_ptr p) \<le> unat (write_ptr p)"
    "unat (write_ptr p) \<le> 4096"
    "unat (CONFIG_PIPE_BUFFER_SIZE - write_ptr p) = 4096 - unat (write_ptr p)"
    "unat (write_ptr p - read_ptr p) = unat (write_ptr p) - unat (read_ptr p)"
proof -
  have le: "write_ptr p \<le> CONFIG_PIPE_BUFFER_SIZE" "read_ptr p \<le> write_ptr p"
    using assms by (auto simp: pipe_ok_def)
  show thesis
    using that assms unat_sub [OF le(1)] unat_sub [OF le(2)] le
    by (auto simp: pipe_ok_def word_le_nat_alt split: option.splits)
qed

lemma pipe_q_length: "pipe_ok p \<Longrightarrow> length (pipe_q p) = unat (write_ptr p) - unat (read_ptr p)"
  by (erule pipe_okD) (simp add: pipe_q_def mem_read_length)

lemma pipe_ok_lock [simp]:
  "pipe_ok (p\<lparr>write_lock := a\<rparr>) = pipe_ok p" "pipe_q (p\<lparr>write_lock := a\<rparr>) = pipe_q p"
  "pipe_ok (p\<lparr>read_lock := a\<rparr>) = pipe_ok p" "pipe_q (p\<lparr>read_lock := a\<rparr>) = pipe_q p"
  "pipe_ok (p\<lparr>read_usage_count := a\<rparr>) = pipe_ok p" "pipe_q (p\<lparr>read_usage_count := a\<rparr>) = pipe_q p"
  "pipe_ok (p\<lparr>write_usage_count := a\<rparr>) = pipe_ok p" "pipe_q (p\<lparr>write_usage_count := a\<rparr>) = pipe_q p"
  by (simp_all add: pipe_ok_def pipe_q_def split: option.splits)

text \<open>The room behind the write position.\<close>

definition pipe_room :: "pipe_info \<Rightarrow> nat" where
  "pipe_room p = 4096 - unat (write_ptr p)"

lemma pipe_write_fits:
  assumes ok: "pipe_ok p" and c: "0 < count" "unat count \<le> pipe_room p" "length src = unat count"
  shows "\<exists>p'. pipe_write src count nb p = Some (Return (None, count) p') \<and> pipe_ok p'
           \<and> pipe_q p' = pipe_q p @ src \<and> read_lock p' = read_lock p + 1 \<and> write_lock p' = write_lock p
           \<and> read_usage_count p' = read_usage_count p \<and> write_usage_count p' = write_usage_count p"
proof -
  obtain b where b: "buffer p = Some b" "length b = 4096" "unat (read_ptr p) \<le> unat (write_ptr p)"
      "unat (write_ptr p) \<le> 4096"
      "unat (CONFIG_PIPE_BUFFER_SIZE - write_ptr p) = 4096 - unat (write_ptr p)"
    using pipe_okD [OF ok] by metis
  let ?p = "p\<lparr>buffer := Some (mem_write b (unat (write_ptr p)) src),
      write_ptr := write_ptr p + count, read_lock := read_lock p + 1\<rparr>"
  have ts: "(if CONFIG_PIPE_BUFFER_SIZE - write_ptr p > count then count
             else CONFIG_PIPE_BUFFER_SIZE - write_ptr p) = count"
    using c b by (auto simp: word_less_nat_alt pipe_room_def intro!: word_unat_eq_iff [THEN iffD2])
  have fit: "unat (write_ptr p) + unat count \<le> 4096" using c b by (auto simp: pipe_room_def)
  then have wp: "unat (write_ptr p + count) = unat (write_ptr p) + unat count"
    by (subst unat_word_ariths) simp
  have src: "mem_read src 0 (unat count) = src" using c by (simp add: mem_read_def)
  have "pipe_write src count nb p = Some (Return (None, count) ?p)"
    unfolding pipe_write_def
    by (subst pipe_write_loop.simps)
      (use ts c b fit src in \<open>simp add: Let_def semaphore_up_def word_gt_0\<close>)
  moreover have "pipe_ok ?p"
    using b fit wp ok c by (auto simp: pipe_ok_def word_le_nat_alt mem_write_length)
  moreover have "pipe_q ?p = pipe_q p @ src"
    using b wp fit mem_read_write [of "unat (read_ptr p)" "unat (write_ptr p)" src b] c
    by (simp add: pipe_q_def add.commute)
  ultimately show ?thesis by auto
qed

text \<open>
  A write that does not fit changes nothing but the count of its semaphore: it
  fails at once if it must not block, else takes the counts there are and then sleeps.
\<close>

lemma pipe_write_full:
  assumes ok: "pipe_ok p" and c: "unat count \<le> 4096" "pipe_room p < unat count"
  shows "pipe_write src count nb p =
     Some (if nb then Return (Some (if read_usage_count p \<noteq> 0 then EAGAIN else EPIPE), 0) p
           else if write_lock p = 0 then Sleep 0 p
           else if read_usage_count p = 0 then Return (Some EPIPE, 0) (p\<lparr>write_lock := write_lock p - 1\<rparr>)
           else Sleep 0 (p\<lparr>write_lock := 0\<rparr>))"
  using assms
proof (induction "unat (write_lock p)" arbitrary: p rule: less_induct)
  case less
  obtain b where b: "unat (CONFIG_PIPE_BUFFER_SIZE - write_ptr p) = 4096 - unat (write_ptr p)"
    using pipe_okD [OF less.prems(1)] by metis
  let ?ts = "if CONFIG_PIPE_BUFFER_SIZE - write_ptr p > count then count
             else CONFIG_PIPE_BUFFER_SIZE - write_ptr p"
  have ts: "?ts < count \<and> count \<le> CONFIG_PIPE_BUFFER_SIZE"
    using less.prems b by (auto simp: word_less_nat_alt word_le_nat_alt pipe_room_def)
  show ?case
  proof (cases "nb \<or> write_lock p = 0 \<or> read_usage_count p = 0")
    case True
    then show ?thesis unfolding pipe_write_def
      by (subst pipe_write_loop.simps) (use ts in \<open>auto simp: Let_def semaphore_ndown_eq\<close>)
  next
    case False
    let ?p = "p\<lparr>write_lock := write_lock p - 1\<rparr>"
    have "unat (write_lock ?p) < unat (write_lock p)"
      using False by (simp add: unat_decr unat_gt_0)
    moreover have "pipe_ok ?p" "pipe_room ?p < unat count"
      using less.prems by (auto simp: pipe_room_def)
    ultimately have ih: "pipe_write src count nb ?p = Some (Sleep 0 (p\<lparr>write_lock := 0\<rparr>))"
      using less.hyps [of ?p] less.prems(2) False by auto
    show ?thesis unfolding pipe_write_def
      by (subst pipe_write_loop.simps)
        (use ts False ih in \<open>simp add: Let_def semaphore_ndown_eq pipe_write_def\<close>)
  qed
qed

lemma pipe_q_reset [simp]: "pipe_q (p\<lparr>write_ptr := 0, read_ptr := 0\<rparr>) = []"
  by (simp add: pipe_q_def split: option.splits)

lemma pipe_ok_reset: "pipe_ok p \<Longrightarrow> pipe_ok (p\<lparr>write_ptr := 0, read_ptr := 0\<rparr>)"
  by (simp add: pipe_ok_def)

text \<open>What remains after a read is moved to the front of the buffer, if memory permits.\<close>

lemma pipe_compact_q:
  assumes ok: "pipe_ok p" and b: "buffer p = Some b"
  shows "pipe_ok (pipe_compact ov b (write_ptr p - read_ptr p) p)
     \<and> pipe_q (pipe_compact ov b (write_ptr p - read_ptr p) p) = pipe_q p
     \<and> (ov \<or> pipe_q p = [] \<longrightarrow>
          write_lock (pipe_compact ov b (write_ptr p - read_ptr p) p) = write_lock p + 1 \<and>
          read_ptr (pipe_compact ov b (write_ptr p - read_ptr p) p) = 0)
     \<and> read_usage_count (pipe_compact ov b (write_ptr p - read_ptr p) p) = read_usage_count p"
proof -
  obtain l: "length b = 4096" "unat (read_ptr p) \<le> unat (write_ptr p)" "unat (write_ptr p) \<le> 4096"
      "unat (write_ptr p - read_ptr p) = unat (write_ptr p) - unat (read_ptr p)"
    using pipe_okD [OF ok] b by (metis option.inject)
  let ?n = "unat (write_ptr p) - unat (read_ptr p)"
  have z: "write_ptr p - read_ptr p = 0 \<longleftrightarrow> pipe_q p = []"
    using pipe_q_length [OF ok] l by (metis length_0_conv unat_0_iff)
  have mv: "mem_read (mem_write b 0 (mem_read b (unat (read_ptr p)) ?n)) 0 ?n = mem_read b (unat (read_ptr p)) ?n"
    using l by (simp add: mem_read_def mem_write_def)
  show ?thesis
  proof (cases "pipe_q p = []")
    case True
    then show ?thesis using z ok by (simp add: pipe_compact_def semaphore_up_def pipe_ok_reset)
  next
    case False
    then show ?thesis using z ok b l mv
      by (auto simp: pipe_compact_def semaphore_up_def pipe_ok_def pipe_q_def word_le_nat_alt
          mem_write_length mem_read_length)
  qed
qed

lemma pipe_read_step:
  assumes ok: "pipe_ok p" and n: "n \<le> length (pipe_q p)" "unat t = n"
  shows "pipe_ok (p\<lparr>read_ptr := read_ptr p + t\<rparr>)
     \<and> pipe_q (p\<lparr>read_ptr := read_ptr p + t\<rparr>) = drop n (pipe_q p)
     \<and> (\<forall>b. buffer p = Some b \<longrightarrow> mem_read b (unat (read_ptr p)) n = take n (pipe_q p)
            \<and> unat (read_ptr p) + n \<le> length b)"
proof -
  obtain b where b: "buffer p = Some b" "length b = 4096" "unat (read_ptr p) \<le> unat (write_ptr p)"
      "unat (write_ptr p) \<le> 4096"
    using pipe_okD [OF ok] by metis
  let ?m = "unat (write_ptr p) - unat (read_ptr p)"
  have m: "n \<le> ?m" using n pipe_q_length [OF ok] by simp
  have rp: "unat (read_ptr p + t) = unat (read_ptr p) + n"
    using b m n by (subst unat_word_ariths) simp
  have "mem_read b (unat (read_ptr p)) ?m = mem_read b (unat (read_ptr p)) n @ mem_read b (unat (read_ptr p) + n) (?m - n)"
    using mem_read_split [OF m] .
  moreover have "length (mem_read b (unat (read_ptr p)) n) = n" using b m by (simp add: mem_read_length)
  ultimately show ?thesis using b rp m ok
    by (auto simp: pipe_q_def pipe_ok_def word_le_nat_alt diff_diff_left)
qed

lemma pipe_read_data:
  assumes ok: "pipe_ok p" and q: "pipe_q p \<noteq> []" and c: "0 < count"
  defines "n \<equiv> min (unat count) (length (pipe_q p))"
  shows "\<exists>p'. pipe_read ov count nb p = Some (Return (None, of_nat n, take n (pipe_q p)) p')
     \<and> pipe_ok p' \<and> pipe_q p' = drop n (pipe_q p)
     \<and> (ov \<or> pipe_q p' = [] \<longrightarrow> write_lock p' = write_lock p + 1 \<and> read_ptr p' = 0)
     \<and> read_usage_count p' = read_usage_count p"
proof -
  obtain b where b: "buffer p = Some b"
      "unat (write_ptr p - read_ptr p) = unat (write_ptr p) - unat (read_ptr p)"
    using pipe_okD [OF ok] by metis
  let ?av = "write_ptr p - read_ptr p" and ?p = "p\<lparr>read_ptr := read_ptr p + of_nat n\<rparr>"
  let ?ts = "if ?av > count then count else ?av"
  have av: "unat ?av = length (pipe_q p)" using pipe_q_length [OF ok] b by simp
  have n1: "unat ?ts = n" "n \<le> length (pipe_q p)" "0 < n" "n \<le> unat count"
    using av c q by (auto simp: n_def word_less_nat_alt)
  have ts: "?ts = of_nat n" by (simp only: n1(1) [symmetric] of_nat_unat ucast_id)
  have un: "unat (of_nat n :: u32) = n" using n1(1) ts by metis
  then have nz: "(of_nat n :: u32) \<noteq> 0" using n1(3) by (metis less_irrefl unat_0)
  note st = pipe_read_step [OF ok n1(2) un]
  show ?thesis
  proof (cases "unat count = n")
    case True
    then have eq: "of_nat n = count" using un by (metis word_unat_eq_iff)
    let ?p' = "pipe_compact ov b (write_ptr ?p - read_ptr ?p) ?p"
    have "pipe_read ov count nb p = Some (Return (None, count, take n (pipe_q p)) ?p')"
      unfolding pipe_read_def
      by (subst pipe_read_loop.simps) (use ts nz b st un eq in \<open>simp add: Let_def\<close>)
    with pipe_compact_q [of ?p b ov] st b eq show ?thesis by simp
  next
    case False
    then have nn: "n < unat count" "n = length (pipe_q p)" using n1(4) by (auto simp: n_def min_def split: if_splits)
    then have neq: "of_nat n \<noteq> count" using un by auto
    let ?p' = "?p\<lparr>write_ptr := 0, read_ptr := 0, write_lock := write_lock p + 1\<rparr>"
    have "pipe_q ?p = []" using st nn by simp
    then have e: "write_ptr ?p - read_ptr ?p = 0"
      using st pipe_okD [of ?p] pipe_q_length [of ?p] by (metis list.size(3) unat_0_iff)
    have two: "pipe_read_loop ov count nb (of_nat n) (take n (pipe_q p)) ?p =
        Some (Return (None, of_nat n, take n (pipe_q p)) ?p')"
      by (subst pipe_read_loop.simps) (use e nz in \<open>simp add: Let_def semaphore_up_def\<close>)
    have "pipe_read ov count nb p = Some (Return (None, of_nat n, take n (pipe_q p)) ?p')"
      unfolding pipe_read_def
      by (subst pipe_read_loop.simps)
        (use ts nz b st un neq two n1(4) in \<open>simp add: Let_def del: take_all\<close>)
    moreover have "pipe_ok ?p'" "pipe_q ?p' = []" using ok by (auto simp: pipe_ok_def pipe_q_def split: option.splits)
    ultimately show ?thesis using nn by auto
  qed
qed

lemma pipe_read_empty:
  assumes "pipe_ok p" "pipe_q p = []"
  shows "pipe_read ov count nb p =
    (let p0 = p\<lparr>write_ptr := 0, read_ptr := 0, write_lock := write_lock p + 1\<rparr> in
     Some (if nb then Return (if write_usage_count p \<noteq> 0 then Some EAGAIN else None, 0, []) p0
           else if read_lock p = 0 then Sleep () p0
           else if write_usage_count p = 0 then Return (None, 0, []) (p0\<lparr>read_lock := read_lock p - 1\<rparr>)
           else Sleep () (p0\<lparr>write_lock := write_lock p + read_lock p + 1, read_lock := 0\<rparr>)))"
  using assms
proof (induction "unat (read_lock p)" arbitrary: p rule: less_induct)
  case less
  have e: "write_ptr p - read_ptr p = 0"
    using less.prems pipe_okD pipe_q_length by (metis list.size(3) unat_0_iff)
  let ?p0 = "p\<lparr>write_ptr := 0, read_ptr := 0, write_lock := write_lock p + 1\<rparr>"
  show ?case
  proof (cases "nb \<or> read_lock p = 0 \<or> write_usage_count p = 0")
    case True
    then show ?thesis unfolding pipe_read_def
      by (subst pipe_read_loop.simps)
        (use e in \<open>auto simp: Let_def semaphore_ndown_eq semaphore_up_def\<close>)
  next
    case False
    let ?p = "?p0\<lparr>read_lock := read_lock p - 1\<rparr>"
    have "unat (read_lock ?p) < unat (read_lock p)"
      using False by (simp add: unat_decr unat_gt_0)
    moreover have "pipe_ok ?p" "pipe_q ?p = []"
      using less.prems by (auto simp: pipe_ok_def pipe_q_def split: option.splits)
    ultimately have ih: "pipe_read ov count nb ?p =
        Some (Sleep () (p\<lparr>write_ptr := 0, read_ptr := 0, write_lock := write_lock p + read_lock p + 1, read_lock := 0\<rparr>))"
      using less.hyps [of ?p] False by (auto simp: Let_def algebra_simps)
    show ?thesis unfolding pipe_read_def
      by (subst pipe_read_loop.simps)
        (use e False ih in \<open>simp add: Let_def semaphore_ndown_eq semaphore_up_def pipe_read_def\<close>)
  qed
qed

section \<open>The channel contract\<close>

text \<open>
  What the users of a channel of bytes rely on: every call that they may make ends in a
  proper state, and the bytes it accepts and delivers are accounted for by the queue.
\<close>

locale byte_channel =
  fixes ok :: "'p \<Rightarrow> bool" and queue :: "'p \<Rightarrow> 'b list"
    and may :: "'c \<Rightarrow> bool" and exec :: "'c \<Rightarrow> 'p \<Rightarrow> ('b list \<times> 'b list \<times> 'p) option"
  assumes exec_fifo: "ok p \<Longrightarrow> may c \<Longrightarrow>
     \<exists>acc del p'. exec c p = Some (acc, del, p') \<and> ok p' \<and> queue p @ acc = del @ queue p'"
begin

primrec run :: "'c list \<Rightarrow> 'p \<Rightarrow> ('b list \<times> 'b list \<times> 'p) option" where
  "run [] p = Some ([], [], p)"
| "run (c # cs) p =
     (case exec c p of None \<Rightarrow> None
      | Some (acc, del, p') \<Rightarrow>
          (case run cs p' of None \<Rightarrow> None
           | Some (acc', del', p'') \<Rightarrow> Some (acc @ acc', del @ del', p'')))"

lemma run_fifo:
  "ok p \<Longrightarrow> list_all may cs \<Longrightarrow>
     \<exists>acc del p'. run cs p = Some (acc, del, p') \<and> ok p' \<and> queue p @ acc = del @ queue p'"
proof (induction cs arbitrary: p)
  case (Cons c cs)
  then obtain a d p1 where 1: "exec c p = Some (a, d, p1)" "ok p1" "queue p @ a = d @ queue p1"
    using exec_fifo [of p c] by auto
  obtain a' d' p2 where 2: "run cs p1 = Some (a', d', p2)" "ok p2" "queue p1 @ a' = d' @ queue p2"
    using Cons.IH [OF 1(2)] Cons.prems by auto
  have "queue p @ a @ a' = (d @ d') @ queue p2" using 1(3) 2(3) by (metis append.assoc)
  with 1 2 show ?case by auto
qed simp

end

text \<open>
  The calls on a pipe.  \<open>Wake_write\<close> and \<open>Wake_read\<close> resume a sleeping thread; a resumption
  with \<open>SCHED_WAIT_OK\<close> happens only when the scheduler could take the semaphore.
\<close>

datatype pipe_call =
    Write "u8 list" bool
  | Wake_write "u8 list" wait_result
  | Read bool aoff bool
  | Wake_read bool aoff wait_result
  | Open_read | Open_write | Close_read | Close_write

definition write_done :: "u8 list \<Rightarrow> pipe_wres option \<Rightarrow> (u8 list \<times> u8 list \<times> pipe_info) option" where
  "write_done src r =
     (case r of
        Some (Return (e, n) p) \<Rightarrow> Some (take (unat n) src, [], p)
      | Some (Sleep n p) \<Rightarrow> Some (take (unat n) src, [], p)
      | _ \<Rightarrow> None)"

definition read_done :: "pipe_rres option \<Rightarrow> (u8 list \<times> u8 list \<times> pipe_info) option" where
  "read_done r =
     (case r of
        Some (Return (e, n, out) p) \<Rightarrow> Some ([], take (unat n) out, p)
      | Some (Sleep _ p) \<Rightarrow> Some ([], [], p)
      | _ \<Rightarrow> None)"

fun pipe_exec :: "pipe_call \<Rightarrow> pipe_info \<Rightarrow> (u8 list \<times> u8 list \<times> pipe_info) option" where
  "pipe_exec (Write src nb) p = write_done src (pipe_write src (of_nat (length src)) nb p)"
| "pipe_exec (Wake_write src s) p =
     (if s = SCHED_WAIT_OK
      then if write_lock p = 0 then Some ([], [], p)
           else write_done src (pipe_write_resume src (of_nat (length src)) False 0 s
                  (p\<lparr>write_lock := snd (semaphore_try_down (write_lock p))\<rparr>))
      else write_done src (pipe_write_resume src (of_nat (length src)) False 0 s p))"
| "pipe_exec (Read ov n nb) p = read_done (pipe_read ov n nb p)"
| "pipe_exec (Wake_read ov n s) p =
     (if s = SCHED_WAIT_OK
      then if read_lock p = 0 then Some ([], [], p)
           else read_done (pipe_read_resume ov n False s
                  (p\<lparr>read_lock := snd (semaphore_try_down (read_lock p))\<rparr>))
      else read_done (pipe_read_resume ov n False s p))"
| "pipe_exec Open_read p = Some ([], [], pipe_open_read p)"
| "pipe_exec Open_write p = Some ([], [], pipe_open_write p)"
| "pipe_exec Close_read p = Some ([], [], pipe_close_read p)"
| "pipe_exec Close_write p = Some ([], [], pipe_close_write p)"

text \<open>Writes of one byte up to the size of the buffer, reads of at least one byte.\<close>

fun pipe_may :: "pipe_call \<Rightarrow> bool" where
  "pipe_may (Write src nb) \<longleftrightarrow> src \<noteq> [] \<and> length src \<le> 4096"
| "pipe_may (Wake_write src s) \<longleftrightarrow> src \<noteq> [] \<and> length src \<le> 4096"
| "pipe_may (Read ov n nb) \<longleftrightarrow> 0 < n"
| "pipe_may (Wake_read ov n s) \<longleftrightarrow> 0 < n"
| "pipe_may _ \<longleftrightarrow> True"

definition conserves :: "pipe_info \<Rightarrow> (u8 list \<times> u8 list \<times> pipe_info) option \<Rightarrow> bool" where
  "conserves p r \<longleftrightarrow> (\<exists>acc del p'. r = Some (acc, del, p') \<and> pipe_ok p' \<and> pipe_q p @ acc = del @ pipe_q p')"

lemma len_word: "src \<noteq> [] \<Longrightarrow> length src \<le> 4096 \<Longrightarrow>
   unat (of_nat (length src) :: u32) = length src \<and> (0 :: u32) < of_nat (length src)"
  by (simp add: unat_of_nat word_less_nat_alt)

lemma write_conserves:
  assumes "pipe_ok p" "src \<noteq> []" "length src \<le> 4096"
  shows "conserves p (write_done src (pipe_write src (of_nat (length src)) nb p))"
proof (cases "length src \<le> pipe_room p")
  case True
  then show ?thesis
    using pipe_write_fits [OF assms(1), of "of_nat (length src)" src nb] len_word [OF assms(2,3)]
    by (auto simp: conserves_def write_done_def)
next
  case False
  then show ?thesis
    using pipe_write_full [OF assms(1), of "of_nat (length src)" src nb] len_word [OF assms(2,3)] assms
    by (auto simp: conserves_def write_done_def)
qed

lemma read_conserves:
  assumes "pipe_ok p" "0 < n"
  shows "conserves p (read_done (pipe_read ov n nb p))"
proof (cases "pipe_q p = []")
  case True
  then show ?thesis using pipe_read_empty [OF assms(1) True] assms(1)
    by (auto simp: conserves_def read_done_def Let_def pipe_ok_reset)
next
  case False
  have "unat (of_nat (min (unat n) (length (pipe_q p))) :: u32) = min (unat n) (length (pipe_q p))"
    by (intro unat_of_nat_le [of _ n]) simp
  then show ?thesis using pipe_read_data [OF assms(1) False assms(2), of ov nb]
    by (auto simp: conserves_def read_done_def)
qed

lemma pipe_exec_conserves:
  assumes ok: "pipe_ok p" and may: "pipe_may c"
  shows "conserves p (pipe_exec c p)"
proof (cases c)
  case (Write src nb)
  with assms write_conserves show ?thesis by simp
next
  case (Wake_write src s)
  then show ?thesis
    using assms write_conserves [of "p\<lparr>write_lock := write_lock p - 1\<rparr>" src False]
    by (auto simp: pipe_write_resume_def pipe_write_def [symmetric] semaphore_try_down_def)
      (auto simp: conserves_def write_done_def)
next
  case (Read ov n nb)
  with assms read_conserves show ?thesis by simp
next
  case (Wake_read ov n s)
  then show ?thesis
    using assms read_conserves [of "p\<lparr>read_lock := read_lock p - 1\<rparr>" n ov False]
    by (auto simp: pipe_read_resume_def pipe_read_def [symmetric] semaphore_try_down_def)
      (auto simp: conserves_def read_done_def)
qed (use ok in \<open>auto simp: conserves_def pipe_open_read_def pipe_open_write_def pipe_close_read_def
       pipe_close_write_def Let_def\<close>)

interpretation ch: byte_channel pipe_ok pipe_q pipe_may pipe_exec
  using pipe_exec_conserves by unfold_locales (auto simp: conserves_def)

fun pipe_run :: "pipe_call list \<Rightarrow> pipe_info \<Rightarrow> (u8 list \<times> u8 list \<times> pipe_info) option" where
  "pipe_run [] p = Some ([], [], p)"
| "pipe_run (c # cs) p =
     (case pipe_exec c p of None \<Rightarrow> None
      | Some (acc, del, p') \<Rightarrow>
          (case pipe_run cs p' of None \<Rightarrow> None
           | Some (acc', del', p'') \<Rightarrow> Some (acc @ acc', del @ del', p'')))"

lemma pipe_run_eq: "pipe_run cs p = ch.run cs p"
  by (induction cs arbitrary: p) (auto split: option.splits)

lemma pipe_create_ok:
  "length junk = 4096 \<Longrightarrow> \<exists>p. pipe_create True (Some junk) = Some p \<and> pipe_ok p \<and> pipe_q p = []
     \<and> read_lock p = 0 \<and> write_lock p = 0 \<and> read_usage_count p = 0 \<and> write_usage_count p = 0"
  by (simp add: pipe_create_def pipe_ok_def pipe_q_def semaphore_init_def)

section \<open>Properties\<close>



text \<open>
  C13: a write of at most 4096 bytes is all or nothing.  If the bytes fit behind the write
  position they are appended and a reader is signalled; otherwise the queue is unchanged and
  the writer gets \<^verbatim>\<open>EAGAIN\<close> (\<^verbatim>\<open>EPIPE\<close> without readers) if it must not block, and else sleeps
  or, when it was woken by the last reader's close, gets \<^verbatim>\<open>EPIPE\<close>.
\<close>

theorem pipe_write_atomic:
  assumes "pipe_ok p" "src \<noteq> []" "length src \<le> 4096" "n = of_nat (length src)"
  shows "if unat (write_ptr p) + length src \<le> 4096
     then (\<exists>p'. pipe_write src n nb p = Some (Return (None, n) p') \<and> pipe_ok p'
             \<and> pipe_q p' = pipe_q p @ src \<and> read_lock p' = read_lock p + 1)
     else (\<exists>p'. pipe_q p' = pipe_q p \<and> pipe_ok p' \<and> pipe_write src n nb p =
             Some (if nb then Return (Some (if read_usage_count p = 0 then EPIPE else EAGAIN), 0) p'
                   else if write_lock p \<noteq> 0 \<and> read_usage_count p = 0 then Return (Some EPIPE, 0) p'
                   else Sleep 0 p'))"
proof -
  have n: "unat n = length src" "0 < n" using len_word [OF assms(2,3)] assms(4) by simp_all
  have wp: "unat (write_ptr p) \<le> 4096" using pipe_okD [OF assms(1)] by metis
  show ?thesis
  proof (cases "unat (write_ptr p) + length src \<le> 4096")
    case True
    then have "unat n \<le> pipe_room p" using n by (simp add: pipe_room_def)
    from pipe_write_fits [OF assms(1) n(2) this n(1) [symmetric], of nb] True show ?thesis
      by (simp only: if_True) blast
  next
    case False
    then have "pipe_room p < unat n" "unat n \<le> 4096" using n wp assms(3) by (simp_all add: pipe_room_def)
    from pipe_write_full [OF assms(1) this(2,1), of src nb] False assms(1) show ?thesis
      by (cases nb; cases "write_lock p = 0"; cases "read_usage_count p = 0") auto
  qed
qed

definition pipe_nearly_full :: pipe_info where
  "pipe_nearly_full = \<lparr>read_usage_count = 1, write_usage_count = 1, buffer = Some (replicate 4096 7),
     write_ptr = 4095, read_ptr = 4000, write_lock = 0, read_lock = 1\<rparr>"

lemma pipe_nearly_full_ok: "pipe_ok pipe_nearly_full"
  by (simp add: pipe_nearly_full_def pipe_ok_def CONFIG_PIPE_BUFFER_SIZE_def)

theorem pipe_write_atomic_witness:
  "(\<exists>p'. pipe_write [1] 1 False pipe_nearly_full = Some (Return (None, 1) p')
      \<and> pipe_q p' = pipe_q pipe_nearly_full @ [1])
   \<and> (\<exists>p'. pipe_write [1, 2] 2 False pipe_nearly_full = Some (Sleep 0 p'))"
  using pipe_write_atomic [OF pipe_nearly_full_ok, of "[1]" 1 False]
    pipe_write_atomic [OF pipe_nearly_full_ok, of "[1, 2]" 2 False]
  by (auto simp: pipe_nearly_full_def)

text \<open>
  C14: no lost wake-up for a reader.  A reader that sleeps does so on an empty pipe with no
  count in its semaphore; the next write leaves a count with which the scheduler wakes
  it, and it then returns the first bytes of what was written; and when the last
  writer closes instead, it is woken likewise and sees end of file.
\<close>

theorem pipe_reader_served:
  assumes "pipe_ok p" "0 < n" "pipe_read ov n False p = Some (Sleep () p1)"
    "src \<noteq> []" "length src \<le> 4096"
  shows "pipe_q p1 = [] \<and> read_lock p1 = 0
    \<and> (\<exists>p2 p3. pipe_write src (of_nat (length src)) nb p1 = Some (Return (None, of_nat (length src)) p2)
         \<and> semaphore_try_down (read_lock p2) = (True, 0)
         \<and> pipe_read_resume ov n False SCHED_WAIT_OK (p2\<lparr>read_lock := 0\<rparr>) =
             Some (Return (None, of_nat (min (unat n) (length src)), take (unat n) src) p3))
    \<and> (write_usage_count p1 = 1 \<longrightarrow>
         semaphore_try_down (read_lock (pipe_close_write p1)) = (True, 0)
         \<and> pipe_read_resume ov n False SCHED_WAIT_OK ((pipe_close_write p1)\<lparr>read_lock := 0\<rparr>) =
             Some (Return (None, 0, []) ((pipe_close_write p1)\<lparr>read_lock := 0\<rparr>)))"
proof -
  have e: "pipe_q p = []"
  proof (rule ccontr)
    assume "pipe_q p \<noteq> []"
    then show False using pipe_read_data [OF assms(1) _ assms(2), of ov False] assms(3) by auto
  qed
  then have p1: "pipe_ok p1" "pipe_q p1 = []" "read_lock p1 = 0" "write_ptr p1 = 0" "read_ptr p1 = 0"
    using pipe_read_empty [OF assms(1) e, of ov n False] assms(1,3)
    by (auto simp: Let_def pipe_ok_reset split: if_splits)
  note lw = len_word [OF assms(4,5)]
  obtain p2 where p2: "pipe_write src (of_nat (length src)) nb p1 = Some (Return (None, of_nat (length src)) p2)"
      "pipe_ok p2" "pipe_q p2 = src" "read_lock p2 = 1"
    using pipe_write_fits [OF p1(1), of "of_nat (length src)" src nb] p1 lw assms(5) by (auto simp: pipe_room_def)
  have ne: "write_ptr p2 - read_ptr p2 \<noteq> 0"
    using pipe_q_length [OF p2(2)] p2(3) assms(4) by auto
  let ?p2 = "p2\<lparr>read_lock := 0\<rparr>"
  have "\<exists>p3. pipe_read ov n False ?p2 =
     Some (Return (None, of_nat (min (unat n) (length src)), take (min (unat n) (length src)) src) p3)"
    using pipe_read_data [of ?p2 n ov False] p2 assms(2,4) by auto
  then have "\<exists>p3. pipe_read_resume ov n False SCHED_WAIT_OK ?p2 =
     Some (Return (None, of_nat (min (unat n) (length src)), take (unat n) src) p3)"
    using ne by (auto simp: pipe_read_resume_def pipe_read_def [symmetric] min_def split: if_splits)
  then show ?thesis using p1 p2
    by (auto simp: semaphore_try_down_def semaphore_up_def pipe_close_write_def Let_def pipe_read_resume_def)
qed

definition pipe_idle :: pipe_info where
  "pipe_idle = \<lparr>read_usage_count = 1, write_usage_count = 1, buffer = Some (replicate 4096 0),
     write_ptr = 0, read_ptr = 0, write_lock = 0, read_lock = 0\<rparr>"

lemma pipe_idle_ok: "pipe_ok pipe_idle" "pipe_q pipe_idle = []"
  by (simp_all add: pipe_idle_def pipe_ok_def pipe_q_def CONFIG_PIPE_BUFFER_SIZE_def)

theorem pipe_reader_served_witness:
  "\<exists>p1 p2. pipe_read True 2 False pipe_idle = Some (Sleep () p1)
     \<and> pipe_write [5, 6, 7] 3 False p1 = Some (Return (None, 3) p2)
     \<and> (\<exists>p3. pipe_read_resume True 2 False SCHED_WAIT_OK (p2\<lparr>read_lock := 0\<rparr>) =
               Some (Return (None, 2, [5, 6]) p3))"
proof -
  obtain p1 where "pipe_read True 2 False pipe_idle = Some (Sleep () p1)"
    using pipe_read_empty [OF pipe_idle_ok, of True 2 False] by (auto simp: Let_def pipe_idle_def)
  then show ?thesis
    using pipe_reader_served [OF pipe_idle_ok(1), of 2 True p1 "[5, 6, 7]" False] by auto
qed



section \<open>Where the code departs from its intent\<close>

text \<open>A read of zero bytes empties the pipe.\<close>

lemma pipe_read_zero_discards:
  "pipe_q (p\<lparr>write_ptr := 0, read_ptr := 0\<rparr>) = [] \<and>
   pipe_read ov 0 True p = Some (Return (if write_usage_count p \<noteq> 0 then Some EAGAIN else None, 0, [])
     (p\<lparr>write_ptr := 0, read_ptr := 0, write_lock := write_lock p + 1\<rparr>))"
  unfolding pipe_read_def by (subst pipe_read_loop.simps) (simp add: Let_def semaphore_up_def word_gt_0)

text \<open>
  At end of file a blocking read that finds no count in the semaphore sleeps, with nobody
  left to wake it; the count of the last close is used up by the first such read.
\<close>

lemma pipe_second_eof_blocks:
  assumes "pipe_ok p" "pipe_q p = []" "write_usage_count p = 0" "read_lock p = 1" "write_lock p = 0"
  shows "\<exists>p1 p2. pipe_read ov n False p = Some (Return (None, 0, []) p1)
     \<and> pipe_read ov n False p1 = Some (Sleep () p2) \<and> write_usage_count p2 = 0"
proof -
  let ?p1 = "p\<lparr>write_ptr := 0, read_ptr := 0, write_lock := 1, read_lock := 0\<rparr>"
  have "pipe_read ov n False p = Some (Return (None, 0, []) ?p1)"
    using pipe_read_empty [OF assms(1,2), of ov n False] assms by (simp add: Let_def)
  moreover have "pipe_ok ?p1" "pipe_q ?p1 = []" using assms(1) by (auto simp: pipe_ok_reset)
  ultimately show ?thesis
    using pipe_read_empty [of ?p1 ov n False] assms by (auto simp: Let_def)
qed

text \<open>
  The size of a later turn is limited by the whole count, not by what is left of it: the
  second turn of a write of 4097 bytes copies 4096 bytes from a place where one is left.
\<close>

lemma pipe_write_overread:
  assumes "length src = 4097" "write_ptr p = 0" "read_usage_count p \<noteq> 0"
  shows "pipe_write_resume src 4097 False 4096 SCHED_WAIT_OK p = Some (Crash Out_Of_Bounds)"
  using assms unfolding pipe_write_resume_def
  by (subst pipe_write_loop.simps) (simp add: Let_def CONFIG_PIPE_BUFFER_SIZE_def)

text \<open>A pipe with room is reported as readable to a caller who asks whether it can write.\<close>

lemma pipe_poll_out_reports_in: "pipe_poll pipe_idle POLLOUT = POLLIN"
  by (simp add: pipe_poll_def pipe_idle_def POLLIN_def POLLOUT_def POLLHUP_def flag_def
      CONFIG_PIPE_BUFFER_SIZE_def Let_def)

end
