(* ===== verification/Scheduler.thy ===== *)
theory Scheduler
  imports Llist Synch
begin

text \<open>
  The scheduler of \<^verbatim>\<open>kernel/task/scheduler.c\<close>: the ring of tasks, the state flags of a
  task, the search for the next task to run, and waiting on a semaphore with a timeout.
  Context switching itself is architecture code; \<open>schedule\<close> ends in the context of the task
  that it has selected.
\<close>

section \<open>State\<close>

definition TASK_STATE_RUNNING :: u32 where "TASK_STATE_RUNNING = push_bit 0 1"
definition TASK_STATE_READY :: u32 where "TASK_STATE_READY = push_bit 1 1"
definition TASK_STATE_STOPPED :: u32 where "TASK_STATE_STOPPED = push_bit 2 1"
definition TASK_STATE_TIMEDWAIT_US :: u32 where "TASK_STATE_TIMEDWAIT_US = push_bit 3 1"
definition TASK_STATE_BLOCKED :: u32 where "TASK_STATE_BLOCKED = push_bit 5 1"
definition TASK_STATE_INTERRUPT :: u32 where "TASK_STATE_INTERRUPT = push_bit 6 1"
definition TASK_STATE_INTERRUPTED :: u32 where "TASK_STATE_INTERRUPTED = push_bit 8 1"
definition TASK_STATE_TIMED_OUT :: u32 where "TASK_STATE_TIMED_OUT = push_bit 9 1"
definition TASK_STATE_DEBUG_STOP :: u32 where "TASK_STATE_DEBUG_STOP = push_bit 10 1"

definition SCHED_WAITF_INTR :: u32 where "SCHED_WAITF_INTR = push_bit 1 1"
definition SCHED_WAITF_TIMEOUT :: u32 where "SCHED_WAITF_TIMEOUT = push_bit 2 1"

lemmas state_flags =
  TASK_STATE_RUNNING_def TASK_STATE_READY_def TASK_STATE_STOPPED_def TASK_STATE_TIMEDWAIT_US_def
  TASK_STATE_BLOCKED_def TASK_STATE_INTERRUPT_def TASK_STATE_INTERRUPTED_def
  TASK_STATE_TIMED_OUT_def TASK_STATE_DEBUG_STOP_def SCHED_WAITF_INTR_def SCHED_WAITF_TIMEOUT_def

record task =
  t_tid :: u32
  t_state :: u32
  t_signal_mask :: u32
  t_signal_pending :: u32
  t_altstack_disabled :: bool
  t_cpu_ticks :: u64
  t_cpu_end :: u64
  t_process :: addr
  t_waiting_on :: addr
  t_wait_timeout :: u64

text \<open>
  \<open>tring\<close> holds the \<^verbatim>\<open>next\<close> and \<^verbatim>\<open>prev\<close> pointers of the scheduling queue, \<open>pnode\<close> the
  list nodes that link the tasks of a process, \<open>proc_tasks\<close> the address of the list head
  in a process structure and \<open>sems\<close> the semaphores in memory.
\<close>

record sched =
  task_of :: "addr \<Rightarrow> task"
  tring :: llheap
  pnode :: llheap
  proc_tasks :: "addr \<Rightarrow> addr"
  proc_ticks :: "addr \<Rightarrow> u64"
  sems :: "addr \<Rightarrow> semaphore"
  current_task :: addr
  idle_task :: addr
  task_list :: addr
  tid_counter :: u32
  scheduling_lock :: u32
  now_micros :: u64

definition set_task :: "sched \<Rightarrow> addr \<Rightarrow> task \<Rightarrow> sched" where
  "set_task st a t = st\<lparr>task_of := (task_of st)(a := t)\<rparr>"

definition set_state :: "sched \<Rightarrow> addr \<Rightarrow> u32 \<Rightarrow> sched" where
  "set_state st a s = set_task st a ((task_of st a)\<lparr>t_state := s\<rparr>)"

abbreviation state_of :: "sched \<Rightarrow> addr \<Rightarrow> u32" where
  "state_of st a \<equiv> t_state (task_of st a)"

section \<open>Operations\<close>

text \<open>
  A spin lock that is held by nobody who could release it is never entered: the value
  \<^term>\<open>None\<close>.
\<close>

definition spinlock_enter :: "u32 \<Rightarrow> u32 option" where
  "spinlock_enter lock = (if lock \<noteq> 0 then None else Some 1)"

definition spinlock_exit :: "u32 \<Rightarrow> u32" where
  "spinlock_exit lock = 0"

partial_function (option) get_task_loop :: "sched \<Rightarrow> u32 \<Rightarrow> addr \<Rightarrow> addr option" where
  "get_task_loop st tid t =
     (if t_tid (task_of st t) = tid then Some t
      else let n = next_of (tring st) t in
           if n = task_list st then Some NULL else get_task_loop st tid n)"

definition scheduler_get_task :: "sched \<Rightarrow> u32 \<Rightarrow> addr option" where
  "scheduler_get_task st tid = get_task_loop st tid (task_list st)"

definition signal_init_task :: "task \<Rightarrow> task" where
  "signal_init_task t = t\<lparr>t_signal_pending := 0, t_signal_mask := 0, t_altstack_disabled := True\<rparr>"

definition zero_task :: task where
  "zero_task = \<lparr>t_tid = 0, t_state = 0, t_signal_mask = 0, t_signal_pending = 0,
     t_altstack_disabled = False, t_cpu_ticks = 0, t_cpu_end = 0, t_process = NULL,
     t_waiting_on = NULL, t_wait_timeout = 0\<rparr>"

text \<open>\<open>t0\<close> is the address of the first task, allocated by the code.\<close>

definition scheduler_init :: "sched \<Rightarrow> addr \<Rightarrow> sched" where
  "scheduler_init st t0 =
     (let t = signal_init_task (zero_task\<lparr>t_tid := tid_counter st, t_state := TASK_STATE_READY\<rparr>)
      in (set_task st t0 t)\<lparr>current_task := t0, tid_counter := tid_counter st + 1, task_list := t0,
           tring := set_prev (set_next (tring st) t0 t0) t0 t0\<rparr>)"

definition scheduler_reown_task :: "sched \<Rightarrow> addr \<Rightarrow> addr \<Rightarrow> sched exec" where
  "scheduler_reown_task st task proc =
     (case (if t_process (task_of st task) \<noteq> NULL then llist_unlink (pnode st) task else Inr (pnode st)) of
        Inl f \<Rightarrow> Inl f
      | Inr h \<Rightarrow>
          let st1 = set_task (st\<lparr>pnode := h\<rparr>) task ((task_of st task)\<lparr>t_process := proc\<rparr>)
          in if proc = NULL then Inl Null_Deref
             else case llist_add_end (pnode st1) (proc_tasks st1 proc) task of
                    Inl f \<Rightarrow> Inl f
                  | Inr h' \<Rightarrow> Inr (st1\<lparr>pnode := h'\<rparr>))"

text \<open>The pointer updates that put a task at the end of the ring and take one out of it.\<close>

definition ring_insert :: "llheap \<Rightarrow> addr \<Rightarrow> addr \<Rightarrow> llheap exec" where
  "ring_insert h list new =
     (let h1 = set_prev h new (prev_of h list);
          h2 = set_next h1 new list;
          h3 = set_prev h2 (next_of h2 new) new;
          h4 = set_next h3 (prev_of h3 new) new
      in if list = NULL \<or> prev_of h3 new = NULL then Inl Null_Deref else Inr h4)"

definition ring_delete :: "llheap \<Rightarrow> addr \<Rightarrow> llheap exec" where
  "ring_delete h task =
     (let h1 = set_prev h (next_of h task) (prev_of h task);
          h2 = set_next h1 (prev_of h1 task) (next_of h1 task)
      in if next_of h task = NULL \<or> prev_of h1 task = NULL then Inl Null_Deref else Inr h2)"

text \<open>
  \<open>new\<close> is the result of the allocation, \<open>init_st\<close> and \<open>spawn_st\<close> the results of the
  architecture functions that set up the new task.
\<close>

definition scheduler_spawn :: "sched \<Rightarrow> addr option \<Rightarrow> errno option \<Rightarrow> errno option \<Rightarrow> ((errno + addr) \<times> sched) exec option" where
  "scheduler_spawn st new init_st spawn_st =
     (case new of
        None \<Rightarrow> Some (Inr (Inl ENOMEM, st))
      | Some n \<Rightarrow>
          let cur = task_of st (current_task st);
              t = zero_task\<lparr>t_tid := tid_counter st, t_signal_mask := t_signal_mask cur,
                    t_altstack_disabled := t_altstack_disabled cur, t_state := TASK_STATE_READY\<rparr>;
              st1 = (set_task st n t)\<lparr>tid_counter := tid_counter st + 1\<rparr>
          in case init_st of
               Some e \<Rightarrow> Some (Inr (Inl e, st1))
             | None \<Rightarrow>
                 let st2 = set_task st1 (current_task st1) (signal_init_task (task_of st1 (current_task st1)))
                 in case spawn_st of
                      Some e \<Rightarrow> Some (Inr (Inl e, st2))
                    | None \<Rightarrow>
                        (case spinlock_enter (scheduling_lock st2) of
                           None \<Rightarrow> None
                         | Some l \<Rightarrow>
                             Some (case ring_insert (tring st2) (task_list st2) n of
                                     Inl f \<Rightarrow> Inl f
                                   | Inr h \<Rightarrow> Inr (Inr n, st2\<lparr>tring := h, scheduling_lock := spinlock_exit l\<rparr>))))"

definition scheduler_set_task_state :: "sched \<Rightarrow> addr \<Rightarrow> u32 \<Rightarrow> sched option" where
  "scheduler_set_task_state st task s =
     (case spinlock_enter (scheduling_lock st) of
        None \<Rightarrow> None
      | Some l \<Rightarrow> Some ((set_state st task s)\<lparr>scheduling_lock := spinlock_exit l\<rparr>))"

definition scheduler_reap :: "sched \<Rightarrow> addr \<Rightarrow> sched exec option" where
  "scheduler_reap st task =
     (if task = task_list st then Some (Inl Assert_Failed)
      else case spinlock_enter (scheduling_lock st) of
             None \<Rightarrow> None
           | Some l \<Rightarrow>
               if task = current_task st then Some (Inl Assert_Failed)
               else
                 Some (case ring_delete (tring st) task of
                         Inl f \<Rightarrow> Inl f
                       | Inr h2 \<Rightarrow>
                           let st1 = st\<lparr>tring := h2, scheduling_lock := spinlock_exit l\<rparr>
                           in if t_process (task_of st task) \<noteq> NULL
                              then case llist_unlink (pnode st1) task of
                                     Inl f \<Rightarrow> Inl f
                                   | Inr h \<Rightarrow> Inr (st1\<lparr>pnode := h\<rparr>)
                              else Inr st1))"

definition scheduler_handle_resume :: "sched \<Rightarrow> addr \<Rightarrow> sched" where
  "scheduler_handle_resume st task =
     (if flag (state_of st task) TASK_STATE_READY then st
      else
        let st1 = (if flag (state_of st task) TASK_STATE_BLOCKED
                   then case semaphore_try_down (sems st (t_waiting_on (task_of st task))) of
                          (r, s) \<Rightarrow>
                            let st' = st\<lparr>sems := (sems st)(t_waiting_on (task_of st task) := s)\<rparr>
                            in if r then set_state st' task
                                           ((state_of st' task OR TASK_STATE_READY) AND NOT TASK_STATE_BLOCKED)
                               else st'
                   else st);
            st2 = (if flag (state_of st1 task) TASK_STATE_INTERRUPT
                   then set_state st1 task
                          ((state_of st1 task OR (TASK_STATE_READY OR TASK_STATE_INTERRUPTED))
                             AND NOT TASK_STATE_INTERRUPT)
                   else st1);
            st3 = (if flag (state_of st2 task) TASK_STATE_TIMEDWAIT_US
                   then if t_wait_timeout (task_of st2 task) \<le> now_micros st2
                        then set_state st2 task
                               ((state_of st2 task OR (TASK_STATE_READY OR TASK_STATE_TIMED_OUT))
                                  AND NOT TASK_STATE_TIMEDWAIT_US)
                        else st2
                   else st2)
        in st3)"

definition STATE_MAY_RUN :: "u32 \<Rightarrow> bool" where
  "STATE_MAY_RUN s \<longleftrightarrow>
     flag s TASK_STATE_READY \<and> flag (NOT s) TASK_STATE_STOPPED \<and> flag (NOT s) TASK_STATE_DEBUG_STOP"

definition scheduler_may_run :: "sched \<Rightarrow> addr \<Rightarrow> bool \<times> sched" where
  "scheduler_may_run st task =
     (if flag (state_of st task) (TASK_STATE_RUNNING OR TASK_STATE_STOPPED OR TASK_STATE_DEBUG_STOP)
      then (False, st)
      else let st' = scheduler_handle_resume st task
           in (flag (state_of st' task) TASK_STATE_READY, st'))"

partial_function (option) find_next :: "sched \<Rightarrow> addr \<Rightarrow> (addr \<times> sched) option" where
  "find_next st next_task =
     (case scheduler_may_run st next_task of
        (r, st') \<Rightarrow>
          if r then Some (next_task, st')
          else let n = next_of (tring st') next_task in
               if n \<noteq> current_task st' then find_next st' n else Some (n, st'))"

text \<open>
  From the selection to the context switch; the resumed task leaves through
  \<^verbatim>\<open>spinlock_exit\<close>, in its own call of \<^verbatim>\<open>schedule\<close> or in \<^verbatim>\<open>scheduler_spawnentry\<close>.
\<close>

definition switch_to :: "sched \<Rightarrow> addr \<Rightarrow> sched exec" where
  "switch_to st next_task =
     (let cur = current_task st;
          st1 = set_state st cur (state_of st cur AND NOT TASK_STATE_RUNNING);
          (r, st2) = scheduler_may_run st1 next_task;
          next = (if r then next_task else idle_task st2)
      in if next = NULL then Inl Assert_Failed
         else let st3 = set_state st2 next (state_of st2 next OR TASK_STATE_RUNNING);
                  st4 = set_task st3 next ((task_of st3 next)\<lparr>t_cpu_end := now_micros st3 + 10000\<rparr>)
              in Inr (st4\<lparr>current_task := next, scheduling_lock := spinlock_exit (scheduling_lock st4)\<rparr>))"

definition schedule :: "sched \<Rightarrow> sched exec option" where
  "schedule st =
     (let cur = current_task st in
      if STATE_MAY_RUN (state_of st cur) \<and> t_cpu_end (task_of st cur) > now_micros st then Some (Inr st)
      else
        let t = task_of st cur;
            st1 = set_task st cur (t\<lparr>t_cpu_ticks := t_cpu_ticks t + 1\<rparr>);
            st2 = (if t_process t \<noteq> NULL
                   then st1\<lparr>proc_ticks := (proc_ticks st1)(t_process t := proc_ticks st1 (t_process t) + 1)\<rparr>
                   else st1)
        in case spinlock_enter (scheduling_lock st2) of
             None \<Rightarrow> None
           | Some l \<Rightarrow>
               (case find_next (st2\<lparr>scheduling_lock := l\<rparr>) (next_of (tring st2) cur) of
                  None \<Rightarrow> None
                | Some (n, st3) \<Rightarrow> Some (switch_to st3 n)))"

definition scheduler_spawnentry :: "sched \<Rightarrow> sched" where
  "scheduler_spawnentry st = st\<lparr>scheduling_lock := spinlock_exit (scheduling_lock st)\<rparr>"

definition scheduler_fork_main :: "sched \<Rightarrow> addr \<Rightarrow> sched exec" where
  "scheduler_fork_main st proc = scheduler_reown_task st (current_task st) proc"

definition scheduler_set_as_idle :: "sched \<Rightarrow> sched" where
  "scheduler_set_as_idle st =
     set_state (st\<lparr>idle_task := current_task st\<rparr>) (current_task st) TASK_STATE_STOPPED"

definition scheduler_debug_start_task :: "sched \<Rightarrow> addr \<Rightarrow> sched" where
  "scheduler_debug_start_task st t = set_state st t (state_of st t AND NOT TASK_STATE_DEBUG_STOP)"

definition scheduler_debug_stop_task :: "sched \<Rightarrow> addr \<Rightarrow> sched" where
  "scheduler_debug_stop_task st t = set_state st t (state_of st t OR TASK_STATE_DEBUG_STOP)"

definition scheduler_stop_task :: "sched \<Rightarrow> addr \<Rightarrow> sched" where
  "scheduler_stop_task st t = set_state st t (state_of st t OR TASK_STATE_STOPPED)"

definition scheduler_continue_task :: "sched \<Rightarrow> addr \<Rightarrow> sched" where
  "scheduler_continue_task st t = set_state st t (state_of st t AND NOT TASK_STATE_STOPPED)"

definition scheduler_interrupt_task :: "sched \<Rightarrow> addr \<Rightarrow> sched" where
  "scheduler_interrupt_task st t = set_state st t (state_of st t OR TASK_STATE_INTERRUPT)"

text \<open>
  Waiting, in two halves: up to the call of \<^verbatim>\<open>schedule\<close>, and what follows when the task
  runs again.
\<close>

definition block_on_enter :: "sched \<Rightarrow> u32 \<Rightarrow> sched exec option" where
  "block_on_enter st s =
     (let c = current_task st;
          st1 = set_state st c (state_of st c AND NOT TASK_STATE_READY);
          st2 = set_state st1 c (state_of st1 c OR s)
      in schedule st2)"

definition block_on_leave :: "sched \<Rightarrow> u32 \<Rightarrow> (wait_result \<times> sched) exec" where
  "block_on_leave st s =
     (let c = current_task st;
          result_state = state_of st c;
          s' = s OR (TASK_STATE_INTERRUPTED OR TASK_STATE_TIMED_OUT);
          st1 = set_state st c (state_of st c AND NOT s')
      in if flag (s' AND NOT result_state) TASK_STATE_BLOCKED then Inr (SCHED_WAIT_OK, st1)
         else if flag result_state TASK_STATE_INTERRUPTED then Inr (SCHED_WAIT_INTR, st1)
         else if flag result_state TASK_STATE_TIMED_OUT then Inr (SCHED_WAIT_TIMEOUT, st1)
         else Inl Assert_Failed)"

text \<open>
  One turn of the loop of \<^verbatim>\<open>scheduler_block_on\<close> after the task was resumed: \<^term>\<open>None\<close> means
  that the task blocks again; \<open>intr\<close> remembers an interrupt that was deferred.
\<close>

definition scheduler_block_on_turn ::
    "sched \<Rightarrow> u32 \<Rightarrow> u32 \<Rightarrow> bool \<Rightarrow> (wait_result option \<times> bool \<times> sched) exec" where
  "scheduler_block_on_turn st s flags intr =
     (case block_on_leave st s of
        Inl f \<Rightarrow> Inl f
      | Inr (r, st1) \<Rightarrow>
          if flag flags SCHED_WAITF_INTR
          then Inr (Some r, intr, if intr then scheduler_interrupt_task st1 (current_task st1) else st1)
          else let intr' = (intr \<or> r = SCHED_WAIT_INTR)
               in if r = SCHED_WAIT_INTR then Inr (None, intr', st1)
                  else Inr (Some r, intr', if intr' then scheduler_interrupt_task st1 (current_task st1) else st1))"

definition scheduler_wait_prepare :: "sched \<Rightarrow> addr \<Rightarrow> u64 \<Rightarrow> u32 \<Rightarrow> u32 \<times> sched" where
  "scheduler_wait_prepare st semaphore timeout flags =
     (let c = current_task st;
          (s1, st1) = (if semaphore \<noteq> NULL
                       then (0 OR TASK_STATE_BLOCKED, set_task st c ((task_of st c)\<lparr>t_waiting_on := semaphore\<rparr>))
                       else (0, st));
          tm = (if flag flags SCHED_WAITF_TIMEOUT then timeout + now_micros st1 else timeout)
      in if tm \<noteq> 0
         then (s1 OR TASK_STATE_TIMEDWAIT_US, set_task st1 c ((task_of st1 c)\<lparr>t_wait_timeout := tm\<rparr>))
         else (s1, st1))"

definition scheduler_wait :: "sched \<Rightarrow> addr \<Rightarrow> u64 \<Rightarrow> u32 \<Rightarrow> sched exec option" where
  "scheduler_wait st semaphore timeout flags =
     (case scheduler_wait_prepare st semaphore timeout flags of (s, st') \<Rightarrow> block_on_enter st' s)"

section \<open>Lemmas\<close>

lemma set_state_simps [simp]:
  "state_of (set_state st a s) b = (if a = b then s else state_of st b)"
  "tring (set_state st a s) = tring st" "sems (set_state st a s) = sems st"
  "current_task (set_state st a s) = current_task st" "idle_task (set_state st a s) = idle_task st"
  "task_list (set_state st a s) = task_list st" "now_micros (set_state st a s) = now_micros st"
  "scheduling_lock (set_state st a s) = scheduling_lock st"
  "t_waiting_on (task_of (set_state st a s) b) = t_waiting_on (task_of st b)"
  "t_wait_timeout (task_of (set_state st a s) b) = t_wait_timeout (task_of st b)"
  "t_process (task_of (set_state st a s) b) = t_process (task_of st b)"
  "t_cpu_end (task_of (set_state st a s) b) = t_cpu_end (task_of st b)"
  by (auto simp: set_state_def set_task_def)

lemma set_task_simps [simp]:
  "task_of (set_task st a t) = (task_of st)(a := t)"
  "tring (set_task st a t) = tring st" "sems (set_task st a t) = sems st"
  "current_task (set_task st a t) = current_task st" "idle_task (set_task st a t) = idle_task st"
  "task_list (set_task st a t) = task_list st" "now_micros (set_task st a t) = now_micros st"
  "scheduling_lock (set_task st a t) = scheduling_lock st" "tid_counter (set_task st a t) = tid_counter st"
  by (auto simp: set_task_def)

lemma flag_state [simp]:
  "flag s TASK_STATE_RUNNING \<longleftrightarrow> bit s 0" "flag s TASK_STATE_READY \<longleftrightarrow> bit s (Suc 0)"
  "flag s TASK_STATE_STOPPED \<longleftrightarrow> bit s 2" "flag s TASK_STATE_TIMEDWAIT_US \<longleftrightarrow> bit s 3"
  "flag s TASK_STATE_BLOCKED \<longleftrightarrow> bit s 5" "flag s TASK_STATE_INTERRUPT \<longleftrightarrow> bit s 6"
  "flag s TASK_STATE_INTERRUPTED \<longleftrightarrow> bit s 8" "flag s TASK_STATE_TIMED_OUT \<longleftrightarrow> bit s 9"
  "flag s TASK_STATE_DEBUG_STOP \<longleftrightarrow> bit s 10"
  by (simp_all only: state_flags flag_bit One_nat_def)

lemma bit_state [simp]:
  "bit TASK_STATE_RUNNING n \<longleftrightarrow> n = 0" "bit TASK_STATE_READY n \<longleftrightarrow> n = Suc 0"
  "bit TASK_STATE_STOPPED n \<longleftrightarrow> n = 2" "bit TASK_STATE_TIMEDWAIT_US n \<longleftrightarrow> n = 3"
  "bit TASK_STATE_BLOCKED n \<longleftrightarrow> n = 5" "bit TASK_STATE_INTERRUPT n \<longleftrightarrow> n = 6"
  "bit TASK_STATE_INTERRUPTED n \<longleftrightarrow> n = 8" "bit TASK_STATE_TIMED_OUT n \<longleftrightarrow> n = 9"
  "bit TASK_STATE_DEBUG_STOP n \<longleftrightarrow> n = 10"
  by (simp_all only: state_flags bit_push1) auto

text \<open>Whether a task could run if it is not running already.\<close>

definition able :: "sched \<Rightarrow> addr \<Rightarrow> bool" where
  "able st t \<longleftrightarrow>
     \<not> bit (state_of st t) 2 \<and> \<not> bit (state_of st t) 10 \<and>
     (bit (state_of st t) (Suc 0) \<or>
      bit (state_of st t) 5 \<and> sems st (t_waiting_on (task_of st t)) \<noteq> 0 \<or>
      bit (state_of st t) 6 \<or>
      bit (state_of st t) 3 \<and> t_wait_timeout (task_of st t) \<le> now_micros st)"

definition runnable :: "sched \<Rightarrow> addr \<Rightarrow> bool" where
  "runnable st t \<longleftrightarrow> \<not> bit (state_of st t) 0 \<and> able st t"

lemma handle_resume_frame [simp]:
  "tring (scheduler_handle_resume st t) = tring st"
  "current_task (scheduler_handle_resume st t) = current_task st"
  "idle_task (scheduler_handle_resume st t) = idle_task st"
  "task_list (scheduler_handle_resume st t) = task_list st"
  "now_micros (scheduler_handle_resume st t) = now_micros st"
  "scheduling_lock (scheduler_handle_resume st t) = scheduling_lock st"
  by (auto simp: scheduler_handle_resume_def Let_def split: prod.splits)

lemma handle_resume_other:
  "x \<noteq> t \<Longrightarrow> task_of (scheduler_handle_resume st t) x = task_of st x"
  by (auto simp: scheduler_handle_resume_def Let_def set_state_def set_task_def split: prod.splits)

lemma handle_resume_bits:
  "n \<in> {0, 2, 10} \<Longrightarrow> bit (state_of (scheduler_handle_resume st t) t) n = bit (state_of st t) n"
  by (auto simp: scheduler_handle_resume_def Let_def semaphore_try_down_def bit_simps)

lemma handle_resume_sems:
  "sems (scheduler_handle_resume st t) =
     (if \<not> bit (state_of st t) (Suc 0) \<and> bit (state_of st t) 5 \<and> sems st (t_waiting_on (task_of st t)) \<noteq> 0
      then (sems st)(t_waiting_on (task_of st t) := sems st (t_waiting_on (task_of st t)) - 1)
      else sems st)"
  by (auto simp: scheduler_handle_resume_def Let_def semaphore_try_down_def)

lemma handle_resume_ready:
  "bit (state_of (scheduler_handle_resume st t) t) (Suc 0) \<longleftrightarrow>
     bit (state_of st t) (Suc 0) \<or>
      bit (state_of st t) 5 \<and> sems st (t_waiting_on (task_of st t)) \<noteq> 0 \<or>
      bit (state_of st t) 6 \<or>
      bit (state_of st t) 3 \<and> t_wait_timeout (task_of st t) \<le> now_micros st"
  by (auto simp: scheduler_handle_resume_def Let_def semaphore_try_down_def bit_simps)

lemma handle_resume_idle:
  assumes "\<not> bit (state_of (scheduler_handle_resume st t) t) (Suc 0)"
  shows "scheduler_handle_resume st t = st"
proof -
  have *: "\<not> bit (state_of st t) (Suc 0)" "\<not> bit (state_of st t) 6"
      "bit (state_of st t) 5 \<Longrightarrow> sems st (t_waiting_on (task_of st t)) = 0"
      "bit (state_of st t) 3 \<Longrightarrow> \<not> t_wait_timeout (task_of st t) \<le> now_micros st"
    using assms unfolding handle_resume_ready by auto
  have "st\<lparr>sems := (sems st)(a := 0)\<rparr> = st" if "sems st a = 0" for a
    using that by (metis fun_upd_triv sched.surjective sched.update_convs(6))
  then show ?thesis using *
    by (auto simp: scheduler_handle_resume_def Let_def semaphore_try_down_def)
qed

lemma scheduler_may_run_eq:
  "scheduler_may_run st t = (if runnable st t then (True, scheduler_handle_resume st t) else (False, st))"
proof (cases "runnable st t")
  case True
  then show ?thesis
    by (simp add: scheduler_may_run_def flag_or runnable_def able_def handle_resume_ready Let_def)
next
  case False
  then show ?thesis
    using handle_resume_idle [of st t]
    by (auto simp: scheduler_may_run_def flag_or runnable_def able_def handle_resume_ready Let_def)
qed

lemma find_next_ring:
  assumes "linked (tring st) ((t # zs) @ [c])" "c = current_task st" "c \<notin> set (t # zs)"
  shows "find_next st t =
     Some (case find (runnable st) (t # zs) of None \<Rightarrow> (c, st) | Some x \<Rightarrow> (x, scheduler_handle_resume st x))"
  using assms
proof (induction zs arbitrary: t)
  case Nil
  then show ?case by (subst find_next.simps) (auto simp: scheduler_may_run_eq Let_def)
next
  case (Cons z zs)
  then show ?case by (subst find_next.simps) (auto simp: scheduler_may_run_eq Let_def)
qed

text \<open>
  \<open>ts\<close> are the tasks of the ring in order, beginning after the current one.  Exactly the
  current task has the running flag, and the idle task is marked stopped.
\<close>

definition sched_ok :: "sched \<Rightarrow> addr list \<Rightarrow> bool" where
  "sched_ok st ts \<longleftrightarrow>
     dll (tring st) (current_task st) ts \<and> scheduling_lock st = 0 \<and>
     idle_task st \<in> set (current_task st # ts) \<and> bit (state_of st (idle_task st)) 2 \<and>
     (\<forall>t \<in> set (current_task st # ts). bit (state_of st t) 0 \<longleftrightarrow> t = current_task st)"

text \<open>
  The specification of the choice: the first task after the current one that can run, else
  the current one if it can go on, else the idle task.
\<close>

definition pick :: "sched \<Rightarrow> addr list \<Rightarrow> addr" where
  "pick st ts =
     (case find (runnable st) ts of
        Some t \<Rightarrow> t
      | None \<Rightarrow> if able st (current_task st) then current_task st else idle_task st)"

text \<open>The ring seen from \<open>t\<close>.\<close>

definition ring_from :: "addr \<Rightarrow> addr \<Rightarrow> addr list \<Rightarrow> addr list" where
  "ring_from c t ts =
     (if t = c then ts
      else tl (dropWhile (\<lambda>x. x \<noteq> t) ts) @ c # takeWhile (\<lambda>x. x \<noteq> t) ts)"

lemma ring_from_split: "t \<noteq> c \<Longrightarrow> t \<notin> set ys \<Longrightarrow> ring_from c t (ys @ t # zs) = zs @ c # ys"
  by (auto simp: ring_from_def dropWhile_append takeWhile_append split: if_splits)

lemma ring_from_dll:
  assumes "dll h c ts" "t \<in> set (c # ts)"
  shows "dll h t (ring_from c t ts) \<and> set (t # ring_from c t ts) = set (c # ts)"
proof (cases "t = c")
  case False
  then obtain ys zs where ts: "ts = ys @ t # zs" "t \<notin> set ys"
    using assms(2) by (auto dest: split_list_first)
  with dll_rotate_to [of h c ys t zs] assms(1) False show ?thesis
    by (auto simp: ring_from_split)
qed (use assms in \<open>simp add: ring_from_def\<close>)

lemma pick_in:
  assumes "idle_task st \<in> set (current_task st # ts)"
  shows "pick st ts \<in> set (current_task st # ts)"
  using assms by (auto simp: pick_def split: option.splits dest: find_SomeD)

text \<open>The state in which \<open>schedule\<close> looks for a task: the accounting does not matter for it.\<close>

definition account :: "sched \<Rightarrow> sched" where
  "account st =
     (let cur = current_task st; t = task_of st cur;
          st1 = set_task st cur (t\<lparr>t_cpu_ticks := t_cpu_ticks t + 1\<rparr>)
      in (if t_process t \<noteq> NULL
          then st1\<lparr>proc_ticks := (proc_ticks st1)(t_process t := proc_ticks st1 (t_process t) + 1)\<rparr>
          else st1)\<lparr>scheduling_lock := 1\<rparr>)"

lemma account_simps [simp]:
  "tring (account st) = tring st" "sems (account st) = sems st"
  "current_task (account st) = current_task st" "idle_task (account st) = idle_task st"
  "now_micros (account st) = now_micros st" "state_of (account st) t = state_of st t"
  "t_waiting_on (task_of (account st) t) = t_waiting_on (task_of st t)"
  "t_wait_timeout (task_of (account st) t) = t_wait_timeout (task_of st t)"
  by (simp_all add: account_def Let_def)

lemma account_runnable [simp]:
  "able (account st) = able st" "runnable (account st) = runnable st"
  by (simp_all add: able_def runnable_def fun_eq_iff)

text \<open>The current task has blocked or used up its time slice.\<close>

definition due :: "sched \<Rightarrow> bool" where
  "due st \<longleftrightarrow> \<not> (STATE_MAY_RUN (state_of st (current_task st)) \<and>
                 t_cpu_end (task_of st (current_task st)) > now_micros st)"

lemma schedule_eq:
  assumes "scheduling_lock st = 0" "due st"
  shows "schedule st =
     (case find_next (account st) (next_of (tring st) (current_task st)) of
        None \<Rightarrow> None | Some (n, st') \<Rightarrow> Some (switch_to st' n))"
  using assms by (auto simp: schedule_def due_def account_def spinlock_enter_def Let_def split: option.splits)

text \<open>What the chosen task looks like and what it has taken.\<close>

definition taken :: "sched \<Rightarrow> addr \<Rightarrow> bool" where
  "taken st t \<longleftrightarrow> able st t \<and> \<not> bit (state_of st t) (Suc 0) \<and> bit (state_of st t) 5 \<and>
     sems st (t_waiting_on (task_of st t)) \<noteq> 0"

definition sched_post :: "sched \<Rightarrow> addr \<Rightarrow> sched \<Rightarrow> bool" where
  "sched_post st t st' \<longleftrightarrow>
     current_task st' = t \<and> tring st' = tring st \<and> idle_task st' = idle_task st \<and>
     task_list st' = task_list st \<and> scheduling_lock st' = 0 \<and> now_micros st' = now_micros st \<and>
     sems st' = (if taken st t
                 then (sems st)(t_waiting_on (task_of st t) := sems st (t_waiting_on (task_of st t)) - 1)
                 else sems st) \<and>
     (\<forall>x. x \<noteq> t \<longrightarrow> x \<noteq> current_task st \<longrightarrow> state_of st' x = state_of st x) \<and>
     bit (state_of st' t) 0 \<and>
     (current_task st \<noteq> t \<longrightarrow> \<not> bit (state_of st' (current_task st)) 0) \<and>
     (\<forall>x. bit (state_of st' x) 2 = bit (state_of st x) 2 \<and> bit (state_of st' x) 10 = bit (state_of st x) 10) \<and>
     (able st t \<longrightarrow> bit (state_of st' t) (Suc 0)) \<and>
     t_cpu_end (task_of st' t) = now_micros st + 10000"

lemmas resume_keeps = handle_resume_bits [of 0, simplified] handle_resume_bits [of 2, simplified]
  handle_resume_bits [of 10, simplified]

lemma switch_to_found:
  assumes r: "runnable st t" and ne: "t \<noteq> current_task st" "t \<noteq> NULL"
  shows "\<exists>st'. switch_to (scheduler_handle_resume st t) t = Inr st' \<and> sched_post st t st'"
proof -
  let ?r = "scheduler_handle_resume st t"
  let ?s = "set_state ?r (current_task st) (state_of ?r (current_task st) AND NOT TASK_STATE_RUNNING)"
  have ready: "bit (state_of ?r t) (Suc 0)" "\<not> bit (state_of ?r t) 0" "\<not> bit (state_of ?r t) 2"
      "\<not> bit (state_of ?r t) 10"
    using r by (auto simp: handle_resume_ready runnable_def able_def resume_keeps)
  then have "runnable ?s t" using ne by (auto simp: runnable_def able_def)
  moreover have "scheduler_handle_resume ?s t = ?s"
    using ready ne by (simp add: scheduler_handle_resume_def)
  ultimately have "scheduler_may_run ?s t = (True, ?s)" by (simp add: scheduler_may_run_eq)
  moreover have "sems ?r = (if taken st t
      then (sems st)(t_waiting_on (task_of st t) := sems st (t_waiting_on (task_of st t)) - 1) else sems st)"
    using r by (simp add: handle_resume_sems taken_def runnable_def)
  ultimately show ?thesis using ne ready r
    by (auto simp: switch_to_def Let_def spinlock_exit_def handle_resume_other sched_post_def
        bit_simps runnable_def able_def)
qed

lemma switch_to_stay:
  assumes c: "c = current_task st" "c \<noteq> NULL" "bit (state_of st c) 0" and a: "able st c"
  shows "\<exists>st'. switch_to st c = Inr st' \<and> sched_post st c st'"
proof -
  let ?s = "set_state st c (state_of st c AND NOT TASK_STATE_RUNNING)"
  let ?r = "scheduler_handle_resume ?s c"
  have "runnable ?s c" using a by (auto simp: runnable_def able_def bit_simps)
  then have may: "scheduler_may_run ?s c = (True, ?r)" by (simp add: scheduler_may_run_eq)
  have "bit (state_of ?r c) (Suc 0)"
    using a by (auto simp: handle_resume_ready able_def bit_simps)
  moreover have "sems ?r = (if taken st c
      then (sems st)(t_waiting_on (task_of st c) := sems st (t_waiting_on (task_of st c)) - 1) else sems st)"
    using a by (auto simp: handle_resume_sems taken_def bit_simps)
  ultimately show ?thesis using c may
    by (auto simp: switch_to_def Let_def spinlock_exit_def handle_resume_other sched_post_def
        bit_simps resume_keeps)
qed

lemma switch_to_idle:
  assumes c: "c = current_task st" "idle_task st \<noteq> NULL" "bit (state_of st c) 0"
    and a: "\<not> able st c" "\<not> able st (idle_task st)"
  shows "\<exists>st'. switch_to st c = Inr st' \<and> sched_post st (idle_task st) st'"
proof -
  let ?s = "set_state st c (state_of st c AND NOT TASK_STATE_RUNNING)"
  have "\<not> runnable ?s c" using a by (auto simp: runnable_def able_def bit_simps)
  then have "scheduler_may_run ?s c = (False, ?s)" by (simp add: scheduler_may_run_eq)
  then show ?thesis using c a
    by (auto simp: switch_to_def Let_def spinlock_exit_def sched_post_def bit_simps taken_def)
qed

lemma sched_post_account: "sched_post (account st) t st' = sched_post st t st'"
proof -
  have "task_list (account st) = task_list st" by (simp add: account_def Let_def)
  then show ?thesis by (simp add: sched_post_def taken_def)
qed

lemma schedule_picks:
  assumes ok: "sched_ok st ts" and slice: "due st"
  shows "\<exists>st'. schedule st = Some (Inr st') \<and> sched_post st (pick st ts) st'"
proof -
  let ?c = "current_task st" and ?a = "account st"
  have d: "dll (tring st) ?c ts" and ids: "\<not> able st (idle_task st)" and run: "bit (state_of st ?c) 0"
    using ok by (auto simp: sched_ok_def able_def)
  have "NULL \<notin> set (?c # ts)" using d by (simp add: dll_def)
  moreover have "idle_task st \<in> set (?c # ts)" using ok by (simp add: sched_ok_def)
  ultimately have nn: "?c \<noteq> NULL" "idle_task st \<noteq> NULL" by (metis list.set_intros(1), metis)
  have sch: "schedule st = (case find_next ?a (next_of (tring st) ?c) of
        None \<Rightarrow> None | Some (n, st') \<Rightarrow> Some (switch_to st' n))"
    using schedule_eq slice ok by (simp add: sched_ok_def)
  have fn: "find_next ?a (next_of (tring st) ?c) =
     Some (case find (runnable st) ts of None \<Rightarrow> (?c, ?a) | Some x \<Rightarrow> (x, scheduler_handle_resume ?a x))"
  proof (cases ts)
    case Nil
    have "\<not> runnable st ?c" using run by (simp add: runnable_def)
    with Nil dll_next_head [OF d] show ?thesis
      by (subst find_next.simps) (simp add: scheduler_may_run_eq Let_def)
  next
    case (Cons t zs)
    have l: "linked (tring ?a) ((t # zs) @ [?c])" "?c \<notin> set (t # zs)"
      using d Cons linked_tail [of "tring st" ?c "ts @ [?c]"] by (simp_all add: dll_def)
    have "find_next ?a t = Some (case find (runnable ?a) (t # zs) of
        None \<Rightarrow> (?c, ?a) | Some x \<Rightarrow> (x, scheduler_handle_resume ?a x))"
      by (rule find_next_ring [OF l(1) _ l(2)]) simp
    moreover have "next_of (tring st) ?c = t" using dll_next_head [OF d] Cons by simp
    ultimately show ?thesis unfolding Cons account_runnable by simp
  qed
  show ?thesis
  proof (cases "find (runnable st) ts")
    case None
    then have sw: "schedule st = Some (switch_to ?a ?c)" unfolding sch fn by simp
    show ?thesis
    proof (cases "able st ?c")
      case True
      then show ?thesis using sw None switch_to_stay [of ?c ?a] nn(1) run
        by (simp add: pick_def sched_post_account)
    next
      case False
      then show ?thesis using sw None switch_to_idle [of ?c ?a] nn(2) run ids
        by (simp add: pick_def sched_post_account)
    qed
  next
    case (Some t)
    then have t: "t \<in> set ts" "runnable st t" using find_SomeD by metis+
    have "t \<noteq> ?c" "t \<noteq> NULL" using t(1) dll_not_null [OF d] by (metis, metis)
    then obtain st' where "switch_to (scheduler_handle_resume ?a t) t = Inr st'" "sched_post st t st'"
      using switch_to_found [of ?a t] t(2) by (auto simp: sched_post_account)
    then show ?thesis unfolding sch fn Some pick_def by simp
  qed
qed

lemma schedule_ok:
  assumes ok: "sched_ok st ts" and post: "sched_post st (pick st ts) st'"
  shows "sched_ok st' (ring_from (current_task st) (pick st ts) ts)"
proof -
  let ?c = "current_task st" and ?t = "pick st ts"
  have d: "dll (tring st) ?c ts" and i: "idle_task st \<in> set (?c # ts)"
    using ok by (auto simp: sched_ok_def)
  note r = ring_from_dll [OF d pick_in [OF i]]
  have "bit (state_of st' x) 0 \<longleftrightarrow> x = ?t" if "x \<in> set (?c # ts)" for x
    using post ok that by (cases "x = ?t"; cases "x = ?c") (auto simp: sched_post_def sched_ok_def)
  then show ?thesis using r post ok i by (auto simp: sched_ok_def sched_post_def)
qed

text \<open>A task is able to run whatever happens to the others and to the clock before.\<close>

lemma find_position:
  assumes "find P xs = Some x" shows "\<exists>ys zs. xs = ys @ x # zs \<and> P x \<and> (\<forall>y \<in> set ys. \<not> P y)"
  using assms
proof (induction xs)
  case (Cons a xs)
  show ?case
  proof (cases "P a")
    case True
    then have "a # xs = [] @ x # xs" "P x" using Cons.prems by simp_all
    then show ?thesis by fastforce
  next
    case False
    with Cons obtain ys zs where "xs = ys @ x # zs" "P x" "\<forall>y \<in> set ys. \<not> P y" by auto
    then have "a # xs = (a # ys) @ x # zs" "P x" "\<forall>y \<in> set (a # ys). \<not> P y" using False by auto
    then show ?thesis by blast
  qed
qed simp

text \<open>
  The number of tasks that stand between the current one and \<open>t\<close> in the ring.
\<close>

definition distance :: "addr \<Rightarrow> addr list \<Rightarrow> nat" where
  "distance t ts = length (takeWhile (\<lambda>x. x \<noteq> t) ts)"

lemma distance_decreases:
  assumes d: "distinct (c # ts)" and t: "t \<in> set ts" "runnable st t" and c: "c = current_task st"
    and p: "pick st ts \<noteq> t"
  shows "t \<in> set (ring_from c (pick st ts) ts)
     \<and> distance t (ring_from c (pick st ts) ts) < distance t ts"
proof -
  have "find (runnable st) ts \<noteq> None" using t by (auto simp: find_None_iff)
  then obtain x where x: "find (runnable st) ts = Some x" by auto
  then obtain ys zs where ts: "ts = ys @ x # zs" "runnable st x" "\<forall>y \<in> set ys. \<not> runnable st y"
    using find_position by metis
  have px: "pick st ts = x" using x by (simp add: pick_def)
  have tz: "t \<in> set zs" "t \<notin> set (ys @ [x])" using t ts px p d by auto
  have "ring_from c x ts = zs @ c # ys" using ring_from_split [of x c ys zs] ts(1) d by auto
  moreover obtain us vs where "zs = us @ t # vs" "t \<notin> set us" using tz(1) by (meson split_list_first)
  ultimately show ?thesis using px ts(1) tz
    by (auto simp: distance_def takeWhile_append)
qed

text \<open>
  A scheduling history: after each call of \<^verbatim>\<open>schedule\<close> the kernel may do anything but
  switch tasks, change the ring or stop the task \<open>t\<close>, and calls \<^verbatim>\<open>schedule\<close> again when the
  current task has blocked or used up its time slice.
\<close>

inductive sched_history :: "addr \<Rightarrow> nat \<Rightarrow> sched \<Rightarrow> sched \<Rightarrow> bool" for t where
  start: "sched_history t 0 st st"
| turn: "sched_history t n st0 st \<Longrightarrow> due st \<Longrightarrow> schedule st = Some (Inr st1) \<Longrightarrow> current_task st1 \<noteq> t \<Longrightarrow>
     sched_ok st2 ts \<Longrightarrow> tring st2 = tring st1 \<Longrightarrow> current_task st2 = current_task st1 \<Longrightarrow>
     runnable st2 t \<Longrightarrow> sched_history t (Suc n) st0 st2"

lemma dll_unique:
  assumes "dll h l xs" "dll h l ys" shows "xs = ys"
proof -
  have *: "linked h (a # xs @ [l]) \<Longrightarrow> linked h (a # ys @ [l]) \<Longrightarrow> l \<notin> set xs \<Longrightarrow> l \<notin> set ys \<Longrightarrow> xs = ys" for a
  proof (induction xs arbitrary: a ys)
    case Nil
    then show ?case by (cases ys) auto
  next
    case (Cons x xs)
    then show ?case by (cases ys) auto
  qed
  show ?thesis using * [of l] assms by (auto simp: dll_def)
qed

lemma sched_history_bound:
  assumes "sched_history t n st0 st" "sched_ok st0 ts0" "t \<in> set ts0" "runnable st0 t"
  shows "\<exists>ts. sched_ok st ts \<and> t \<in> set ts \<and> runnable st t \<and> n + distance t ts \<le> distance t ts0"
  using assms
proof (induction rule: sched_history.induct)
  case (start st)
  then show ?case by auto
next
  case (turn n st0 st st1 st2 ts2)
  then obtain ts where ts: "sched_ok st ts" "t \<in> set ts" "runnable st t" "n + distance t ts \<le> distance t ts0"
    by blast
  let ?c = "current_task st" and ?p = "pick st ts"
  have post: "sched_post st ?p st1"
    using schedule_picks [OF ts(1) turn.hyps(2)] turn.hyps(3) by auto
  have cp: "current_task st1 = ?p" using post by (simp add: sched_post_def)
  have "distinct (?c # ts)" using ts(1) by (auto simp: sched_ok_def dll_def)
  then have dist: "t \<in> set (ring_from ?c ?p ts)" "distance t (ring_from ?c ?p ts) < distance t ts"
    using distance_decreases [OF _ ts(2,3) refl] turn.hyps(4) cp by auto
  have "dll (tring st1) ?p (ring_from ?c ?p ts)"
    using schedule_ok [OF ts(1) post] cp by (simp add: sched_ok_def)
  then have "ts2 = ring_from ?c ?p ts"
    using turn.hyps(5-7) cp dll_unique by (metis sched_ok_def)
  with dist ts turn.hyps(5,8) show ?case by (intro exI [of _ ts2]) auto
qed

lemma switch_to_found_state:
  assumes r: "runnable st t" and ne: "t \<noteq> current_task st" "t \<noteq> NULL"
    and sw: "switch_to (scheduler_handle_resume st t) t = Inr st'"
  shows "state_of st' t = state_of (scheduler_handle_resume st t) t OR TASK_STATE_RUNNING
     \<and> current_task st' = t \<and> sems st' = sems (scheduler_handle_resume st t)"
proof -
  let ?r = "scheduler_handle_resume st t"
  let ?s = "set_state ?r (current_task st) (state_of ?r (current_task st) AND NOT TASK_STATE_RUNNING)"
  have ready: "bit (state_of ?r t) (Suc 0)" "\<not> bit (state_of ?r t) 0" "\<not> bit (state_of ?r t) 2"
      "\<not> bit (state_of ?r t) 10"
    using r by (auto simp: handle_resume_ready runnable_def able_def resume_keeps)
  then have "runnable ?s t" using ne by (auto simp: runnable_def able_def)
  moreover have "scheduler_handle_resume ?s t = ?s"
    using ready ne by (simp add: scheduler_handle_resume_def)
  ultimately have "scheduler_may_run ?s t = (True, ?s)" by (simp add: scheduler_may_run_eq)
  then show ?thesis using ne sw by (auto simp: switch_to_def Let_def)
qed

lemma resumed_bits:
  assumes "\<not> bit (state_of st t) (Suc 0)" "bit (state_of st t) 5" "\<not> bit (state_of st t) 8" "\<not> bit (state_of st t) 9"
  shows "(bit (state_of (scheduler_handle_resume st t) t) 5 \<longleftrightarrow> sems st (t_waiting_on (task_of st t)) = 0)
    \<and> (bit (state_of (scheduler_handle_resume st t) t) 8 \<longleftrightarrow> bit (state_of st t) 6)
    \<and> (bit (state_of (scheduler_handle_resume st t) t) 9 \<longleftrightarrow>
         bit (state_of st t) 3 \<and> t_wait_timeout (task_of st t) \<le> now_micros st)"
  using assms by (auto simp: scheduler_handle_resume_def Let_def semaphore_try_down_def bit_simps)

section \<open>The ring of tasks\<close>

lemma ring_insert_dll:
  assumes "dll h l xs" "e \<notin> set (l # xs)" "e \<noteq> NULL"
  shows "\<exists>h'. ring_insert h l e = Inr h' \<and> dll h' l (xs @ [e])"
proof -
  obtain h' where h': "llist_add_end h l e = Inr h'" "dll h' l (xs @ [e])"
    using llist_add_end_dll [OF assms] by blast
  have l: "l \<noteq> NULL" "e \<noteq> l" using dll_not_null [OF assms(1)] assms(2) by (blast, simp)
  have p: "prev_of h l \<noteq> NULL" using h'(1) l(2) by (auto simp: llist_add_end_def Let_def split: if_splits)
  have "prev_of h l \<noteq> e"
    using dll_prev_head [OF assms(1)] assms(2) by (cases xs rule: rev_cases) auto
  then have "ring_insert h l e = Inr h'"
    using h'(1) l p assms(3)
    by (auto simp: ring_insert_def llist_add_end_def Let_def set_next_def set_prev_def split: if_splits)
  with h' show ?thesis by blast
qed

lemma ring_delete_dll:
  assumes "dll h l xs" "e \<in> set xs"
  shows "\<exists>h'. ring_delete h e = Inr h' \<and> dll h' l (remove1 e xs)"
proof -
  obtain ys zs where xs: "xs = ys @ e # zs" "e \<notin> set ys" using assms(2) by (meson split_list_first)
  have d: "dll h l (ys @ e # zs)" using assms(1) xs by simp
  have de: "dll h e (zs @ l # ys)" using dll_rotate_to [OF d] .
  have n: "next_of h e = hd (zs @ l # ys)" "prev_of h e = last (zs @ l # ys)"
    using dll_next_head [OF de] dll_prev_head [OF de] by (cases zs; simp)+
  have "hd (zs @ l # ys) \<in> set (zs @ l # ys)" "last (zs @ l # ys) \<in> set (zs @ l # ys)"
    by (intro hd_in_set, simp, intro last_in_set, simp)
  then have nn: "next_of h e \<noteq> NULL" "prev_of h e \<noteq> NULL" "next_of h e \<noteq> e" "prev_of h e \<noteq> e"
    using dll_not_null [OF de] n by metis+
  obtain h' where h': "llist_unlink h e = Inr h'" "dll h' l (ys @ zs)"
    using llist_unlink_dll [OF d] by blast
  obtain h2 where h2: "ring_delete h e = Inr h2" "h' = set_prev (set_next h2 e NULL) e NULL"
    using h'(1) nn
    by (auto simp: llist_unlink_def ring_delete_def Let_def set_next_def set_prev_def split: if_splits)
  then have "same_off {e} h' h2" by (auto simp: same_off_def)
  then have "dll h2 l (ys @ zs)"
    using dll_same_off [of "{e}" h' h2 l "ys @ zs"] h'(2) d by (auto simp: dll_def)
  then show ?thesis using xs h2(1) by (auto simp: remove1_append)
qed

lemma get_task_ring:
  assumes "linked (tring st) ((t # zs) @ [task_list st])" "task_list st \<notin> set zs"
  shows "get_task_loop st tid t =
     Some (case find (\<lambda>x. t_tid (task_of st x) = tid) (t # zs) of None \<Rightarrow> NULL | Some x \<Rightarrow> x)"
  using assms
proof (induction zs arbitrary: t)
  case Nil
  then show ?case by (subst get_task_loop.simps) (auto simp: Let_def)
next
  case (Cons z zs)
  then show ?case by (subst get_task_loop.simps) (auto simp: Let_def)
qed

section \<open>Properties\<close>


text \<open>
  An example with four tasks: 1 is current and has used up its slice, 2 is stopped, 3 waits on
  the semaphore at 100, which has one count, and 4 is the idle task.
\<close>

definition four_tasks :: sched where
  "four_tasks =
     \<lparr>task_of = (\<lambda>_. zero_task)(1 := zero_task\<lparr>t_state := 3\<rparr>, 2 := zero_task\<lparr>t_state := 6\<rparr>,
         3 := zero_task\<lparr>t_state := 32, t_waiting_on := 100\<rparr>, 4 := zero_task\<lparr>t_state := 4\<rparr>),
      tring = \<lparr>next_of = (\<lambda>_. NULL)(1 := 2, 2 := 3, 3 := 4, 4 := 1),
               prev_of = (\<lambda>_. NULL)(1 := 4, 2 := 1, 3 := 2, 4 := 3)\<rparr>,
      pnode = \<lparr>next_of = \<lambda>_. NULL, prev_of = \<lambda>_. NULL\<rparr>, proc_tasks = \<lambda>_. NULL, proc_ticks = \<lambda>_. 0,
      sems = (\<lambda>_. 0)(100 := 1), current_task = 1, idle_task = 4, task_list = 1, tid_counter = 4,
      scheduling_lock = 0, now_micros = 20000\<rparr>"

lemma four_tasks_ok: "sched_ok four_tasks [2, 3, 4]" "due four_tasks"
  by (simp_all add: sched_ok_def due_def four_tasks_def dll_def zero_task_def STATE_MAY_RUN_def)

lemma four_tasks_pick: "pick four_tasks [2, 3, 4] = 3"
  by (simp add: pick_def runnable_def able_def four_tasks_def zero_task_def)


text \<open>
  C3: a task that is stopped, stopped by the debugger, or still blocked is never given the
  processor, except the idle task when nothing else can run.
\<close>

theorem schedule_runs_only_ready:
  assumes "sched_ok st ts" "due st" "schedule st = Some (Inr st')" "current_task st' \<noteq> idle_task st"
  shows "STATE_MAY_RUN (state_of st' (current_task st'))
    \<and> \<not> flag (state_of st (current_task st')) TASK_STATE_STOPPED
    \<and> \<not> flag (state_of st (current_task st')) TASK_STATE_DEBUG_STOP"
proof -
  have post: "sched_post st (pick st ts) st'" using schedule_picks [OF assms(1,2)] assms(3) by auto
  then have c: "current_task st' = pick st ts" by (simp add: sched_post_def)
  then have a: "able st (pick st ts)"
    using assms(4) by (auto simp: pick_def runnable_def split: option.splits if_splits dest: find_SomeD)
  then have "\<not> bit (state_of st (pick st ts)) 2" "\<not> bit (state_of st (pick st ts)) 10"
    by (auto simp: able_def)
  then show ?thesis using post a c by (auto simp: sched_post_def STATE_MAY_RUN_def bit_simps)
qed

theorem schedule_runs_only_ready_witness:
  "\<exists>st'. schedule four_tasks = Some (Inr st') \<and> STATE_MAY_RUN (state_of st' (current_task st'))"
proof -
  obtain st' where "schedule four_tasks = Some (Inr st')" "sched_post four_tasks 3 st'"
    using schedule_picks [OF four_tasks_ok] by (auto simp: four_tasks_pick)
  then show ?thesis
    using schedule_runs_only_ready [OF four_tasks_ok, of st'] by (auto simp: sched_post_def four_tasks_def)
qed

text \<open>
  C2: scheduling is round robin.  While a task can run, at most as many other tasks are
  scheduled before it as stand between the current task and it in the ring; when these
  have had their turn, the next call of \<^verbatim>\<open>schedule\<close> runs it.
\<close>

theorem schedule_round_robin:
  assumes "sched_ok st0 ts0" "t \<in> set ts0" "runnable st0 t" "sched_history t n st0 st" "due st"
  shows "n \<le> distance t ts0 \<and> distance t ts0 < length ts0
    \<and> (n = distance t ts0 \<longrightarrow> (\<exists>st'. schedule st = Some (Inr st') \<and> current_task st' = t))"
proof -
  obtain ts where ts: "sched_ok st ts" "t \<in> set ts" "runnable st t" "n + distance t ts \<le> distance t ts0"
    using sched_history_bound [OF assms(4,1-3)] by blast
  have "distance t ts0 < length ts0"
    using split_list_first [OF assms(2)] by (auto simp: distance_def takeWhile_append)
  moreover have "pick st ts = t" if "n = distance t ts0"
  proof -
    have "takeWhile (\<lambda>x. x \<noteq> t) ts = []" using that ts(4) by (simp add: distance_def)
    then obtain zs where "ts = t # zs" using ts(2) by (cases ts) (auto split: if_splits)
    then show ?thesis using ts(3) by (simp add: pick_def)
  qed
  ultimately show ?thesis
    using ts(4) schedule_picks [OF ts(1) assms(5)] by (auto simp: sched_post_def)
qed

theorem schedule_round_robin_witness:
  "distance 3 [2, 3, 4] < 3 \<and> runnable four_tasks 3 \<and> sched_history 3 0 four_tasks four_tasks"
  using schedule_round_robin [OF four_tasks_ok(1) _ _ sched_history.start four_tasks_ok(2), of 3]
  by (auto simp: runnable_def able_def four_tasks_def zero_task_def intro: sched_history.start)

text \<open>
  C4: when a task that waits on a semaphore is resumed, \<^verbatim>\<open>scheduler_wait\<close> reports the reason:
  success exactly if the scheduler took a count from this semaphore for it, else
  an interruption if there was one, else a timeout, both without having taken a count;
  the assertion on an unknown reason holds and no trace of the wait is left in the state.
\<close>

theorem scheduler_wait_result:
  assumes "runnable st t" "t \<noteq> current_task st" "t \<noteq> NULL"
    "\<not> bit (state_of st t) 1" "bit (state_of st t) 5" "\<not> bit (state_of st t) 8" "\<not> bit (state_of st t) 9"
    "s = (if bit (state_of st t) 3 then TASK_STATE_BLOCKED OR TASK_STATE_TIMEDWAIT_US else TASK_STATE_BLOCKED)"
    "switch_to (scheduler_handle_resume st t) t = Inr st1"
  shows "\<exists>r st2. block_on_leave st1 s = Inr (r, st2)
    \<and> (let a = t_waiting_on (task_of st t) in
       r = (if sems st a \<noteq> 0 then SCHED_WAIT_OK
            else if flag (state_of st t) TASK_STATE_INTERRUPT then SCHED_WAIT_INTR else SCHED_WAIT_TIMEOUT)
       \<and> sems st2 = (if r = SCHED_WAIT_OK then (sems st)(a := sems st a - 1) else sems st))
    \<and> (\<forall>n \<in> {3, 5, 8, 9}. \<not> bit (state_of st2 t) n)"
proof -
  note sw = switch_to_found_state [OF assms(1-3,9)]
  note rb = resumed_bits [of st t]
  have h: "\<not> bit (state_of st t) (Suc 0)" using assms(4) by simp
  have able: "sems st (t_waiting_on (task_of st t)) \<noteq> 0 \<or> bit (state_of st t) 6 \<or>
      bit (state_of st t) 3 \<and> t_wait_timeout (task_of st t) \<le> now_micros st"
    using assms(1) h by (auto simp: runnable_def able_def)
  have se: "sems st1 = (if sems st (t_waiting_on (task_of st t)) \<noteq> 0
      then (sems st)(t_waiting_on (task_of st t) := sems st (t_waiting_on (task_of st t)) - 1) else sems st)"
    using sw h assms(5) by (simp add: handle_resume_sems)
  have b3: "\<not> bit (state_of st t) 3 \<Longrightarrow> \<not> bit (state_of (scheduler_handle_resume st t) t) 3"
    by (simp add: scheduler_handle_resume_def Let_def semaphore_try_down_def bit_simps)
  define u where "u = state_of (scheduler_handle_resume st t) t"
  have u: "bit u 5 \<longleftrightarrow> sems st (t_waiting_on (task_of st t)) = 0" "bit u 8 \<longleftrightarrow> bit (state_of st t) 6"
      "bit u 9 \<longleftrightarrow> bit (state_of st t) 3 \<and> t_wait_timeout (task_of st t) \<le> now_micros st"
      "\<not> bit (state_of st t) 3 \<Longrightarrow> \<not> bit u 3"
    using rb h assms(5-7) b3 by (auto simp: u_def)
  have st1: "state_of st1 t = u OR TASK_STATE_RUNNING" "current_task st1 = t" using sw by (auto simp: u_def)
  show ?thesis
    using st1 u se able assms(8)
    by (auto simp: block_on_leave_def Let_def bit_simps)
qed

theorem scheduler_wait_result_witness:
  "\<exists>st1 st2. switch_to (scheduler_handle_resume four_tasks 3) 3 = Inr st1
     \<and> block_on_leave st1 TASK_STATE_BLOCKED = Inr (SCHED_WAIT_OK, st2) \<and> sems st2 100 = 0"
proof -
  have r: "runnable four_tasks 3" by (simp add: runnable_def able_def four_tasks_def zero_task_def)
  have ne: "3 \<noteq> current_task four_tasks" by (simp add: four_tasks_def)
  obtain st1 where st1: "switch_to (scheduler_handle_resume four_tasks 3) 3 = Inr st1"
    using switch_to_found [OF r ne] by auto
  show ?thesis
    using scheduler_wait_result [OF r ne _ _ _ _ _ refl st1] st1
    by (auto simp: four_tasks_def zero_task_def Let_def)
qed



section \<open>Where the code departs from its intent\<close>

text \<open>
  Spawning a task clears the signal mask and the pending signals of the task that spawns,
  not of the new one.
\<close>

lemma spawn_clears_parent_signals:
  assumes "scheduler_spawn st (Some n) None None = Some (Inr (r, st'))" "n \<noteq> current_task st"
  shows "t_signal_mask (task_of st' (current_task st)) = 0
    \<and> t_signal_pending (task_of st' (current_task st)) = 0
    \<and> t_signal_mask (task_of st' n) = t_signal_mask (task_of st (current_task st))"
  using assms
  by (auto simp: scheduler_spawn_def Let_def signal_init_task_def spinlock_enter_def
      split: if_splits sum.splits)

end
