(* ===== verification/Perms.thy ===== *)
theory Perms
  imports Kernel_Prelude
begin

text \<open>
  Credentials and access checks: \<^verbatim>\<open>kernel/permissions.c\<close>, the system calls of
  \<^verbatim>\<open>kernel/sc_perm.c\<close>, and the mode checks of \<^verbatim>\<open>kernel/vfs/perm.c\<close> and
  \<^verbatim>\<open>kernel/svipc/ipc.c\<close>.
\<close>

section \<open>Credentials of a process\<close>

record creds =
  uid :: u16
  effective_uid :: u16
  gid :: u16
  effective_gid :: u16

definition get_uid :: "creds \<Rightarrow> u16" where
  "get_uid p = uid p"

definition get_effective_uid :: "creds \<Rightarrow> u16" where
  "get_effective_uid p = effective_uid p"

text \<open>The code returns the user id here.\<close>

definition get_gid :: "creds \<Rightarrow> u16" where
  "get_gid p = uid p"

definition get_effective_gid :: "creds \<Rightarrow> u16" where
  "get_effective_gid p = effective_gid p"

text \<open>The classes are compared as numbers: \<^verbatim>\<open>NONE\<close> is 0, \<^verbatim>\<open>OTHER\<close> is 3.\<close>

definition PERM_CLASS_NONE :: nat where "PERM_CLASS_NONE = 0"
definition PERM_CLASS_OWNER :: nat where "PERM_CLASS_OWNER = 1"
definition PERM_CLASS_GROUP :: nat where "PERM_CLASS_GROUP = 2"
definition PERM_CLASS_OTHER :: nat where "PERM_CLASS_OTHER = 3"

lemmas perm_classes = PERM_CLASS_NONE_def PERM_CLASS_OWNER_def PERM_CLASS_GROUP_def PERM_CLASS_OTHER_def

definition get_perm_class :: "creds \<Rightarrow> u16 \<Rightarrow> u16 \<Rightarrow> nat" where
  "get_perm_class p resource_uid resource_gid =
     (let u = get_effective_uid p; g = get_effective_gid p; r_uid = get_uid p; r_gid = get_gid p in
      if u = 0 \<and> g = 0 then PERM_CLASS_OWNER
      else if resource_uid = u \<or> resource_uid = r_uid then PERM_CLASS_OWNER
      else if resource_gid = g \<or> resource_uid = r_gid then PERM_CLASS_GROUP
      else PERM_CLASS_OTHER)"

section \<open>System calls on credentials\<close>

text \<open>The argument register has 32 bits, the ids have 16.\<close>

definition sys_getuid :: "creds \<Rightarrow> u32" where "sys_getuid p = ucast (uid p)"
definition sys_geteuid :: "creds \<Rightarrow> u32" where "sys_geteuid p = ucast (effective_uid p)"
definition sys_getgid :: "creds \<Rightarrow> u32" where "sys_getgid p = ucast (gid p)"
definition sys_getegid :: "creds \<Rightarrow> u32" where "sys_getegid p = ucast (effective_gid p)"

definition sys_setuid :: "creds \<Rightarrow> u32 \<Rightarrow> (errno + unit) \<times> creds" where
  "sys_setuid p a =
     (if a \<noteq> ucast (uid p) \<and> uid p \<noteq> 0 then (Inl EPERM, p)
      else (Inr (), p\<lparr>effective_uid := ucast a, uid := ucast a\<rparr>))"

definition sys_setgid :: "creds \<Rightarrow> u32 \<Rightarrow> (errno + unit) \<times> creds" where
  "sys_setgid p a =
     (if a \<noteq> ucast (gid p) \<and> gid p \<noteq> 0 then (Inl EPERM, p)
      else (Inr (), p\<lparr>effective_gid := ucast a, gid := ucast a\<rparr>))"

section \<open>Access checks\<close>

text \<open>
  Both modules have the same code, \<open>min_permissions\<close>; the file modes and the modes of the
  System V objects have three bits per class.
\<close>

definition min_permissions :: "u32 \<Rightarrow> u32 \<Rightarrow> nat" where
  "min_permissions mode req_mode =
     (if flag req_mode (mode AND 7) then PERM_CLASS_OTHER
      else if flag req_mode (drop_bit 3 mode AND 7) then PERM_CLASS_GROUP
      else if flag req_mode (drop_bit 6 mode AND 7) then PERM_CLASS_OWNER
      else PERM_CLASS_NONE)"

record inode_perm =
  i_uid :: u16
  i_gid :: u16
  i_mode :: u32

definition vfs_get_min_permissions :: "'x inode_perm_scheme \<Rightarrow> u32 \<Rightarrow> nat" where
  "vfs_get_min_permissions inode req_mode = min_permissions (i_mode inode) req_mode"

definition vfs_have_permissions :: "creds \<Rightarrow> 'x inode_perm_scheme \<Rightarrow> u32 \<Rightarrow> bool" where
  "vfs_have_permissions p inode req_mode \<longleftrightarrow>
     get_perm_class p (i_uid inode) (i_gid inode) \<le> vfs_get_min_permissions inode req_mode"

record ipc_perm =
  p_uid :: u16
  p_gid :: u16
  p_cuid :: u16
  p_cgid :: u16
  p_mode :: u32

definition IPC_PERM_READ :: u32 where "IPC_PERM_READ = 4"
definition IPC_PERM_WRITE :: u32 where "IPC_PERM_WRITE = 2"
definition IPC_PERM_OPER :: u32 where "IPC_PERM_OPER = 1"

definition ipc_get_min_permissions :: "ipc_perm \<Rightarrow> u32 \<Rightarrow> nat" where
  "ipc_get_min_permissions ipc req_mode = min_permissions (p_mode ipc) req_mode"

definition ipc_have_permissions :: "creds \<Rightarrow> ipc_perm \<Rightarrow> u32 \<Rightarrow> bool" where
  "ipc_have_permissions p ipc req_mode \<longleftrightarrow>
     get_perm_class p (p_uid ipc) (p_gid ipc) \<le> ipc_get_min_permissions ipc req_mode"

definition ipc_is_creator :: "creds \<Rightarrow> ipc_perm \<Rightarrow> bool" where
  "ipc_is_creator p ipc \<longleftrightarrow> get_perm_class p (p_cuid ipc) (p_cgid ipc) = PERM_CLASS_OWNER"

definition ipc_is_owner :: "creds \<Rightarrow> ipc_perm \<Rightarrow> bool" where
  "ipc_is_owner p ipc \<longleftrightarrow> get_perm_class p (p_uid ipc) (p_gid ipc) = PERM_CLASS_OWNER"

definition ipc_is_privileged :: "creds \<Rightarrow> bool" where
  "ipc_is_privileged p \<longleftrightarrow> get_effective_uid p = 0"

section \<open>Lemmas\<close>

lemma min_permissions_mono:
  "min_permissions mode r \<le> min_permissions mode (r OR r')"
proof -
  have "flag (r OR r') m" if "flag r m" for m
    using that by (auto simp: flag_def bit_eq_iff bit_simps)
  then show ?thesis by (auto simp: min_permissions_def perm_classes)
qed

lemma perm_class_range: "get_perm_class p u g \<in> {PERM_CLASS_OWNER, PERM_CLASS_GROUP, PERM_CLASS_OTHER}"
  by (simp add: get_perm_class_def Let_def)

section \<open>Properties\<close>



text \<open>Any sequence of \<^verbatim>\<open>setuid\<close> and \<^verbatim>\<open>setgid\<close> calls of one process.\<close>

fun set_ids :: "(u32 + u32) list \<Rightarrow> creds \<Rightarrow> creds" where
  "set_ids [] p = p"
| "set_ids (Inl a # cs) p = set_ids cs (snd (sys_setuid p a))"
| "set_ids (Inr a # cs) p = set_ids cs (snd (sys_setgid p a))"

lemma ucast_ucast16: "ucast (ucast x :: u32) = (x :: u16)"
  by (intro bit_word_eqI) (simp add: bit_simps)

lemma set_fields:
  "uid p \<noteq> 0 \<Longrightarrow> uid (snd (sys_setuid p a)) = uid p"
  "uid p \<noteq> 0 \<Longrightarrow> effective_uid (snd (sys_setuid p a)) \<in> {effective_uid p, uid p}"
  "uid (snd (sys_setgid p a)) = uid p" "effective_uid (snd (sys_setgid p a)) = effective_uid p"
  "gid p \<noteq> 0 \<Longrightarrow> gid (snd (sys_setgid p a)) = gid p"
  "gid p \<noteq> 0 \<Longrightarrow> effective_gid (snd (sys_setgid p a)) \<in> {effective_gid p, gid p}"
  "gid (snd (sys_setuid p a)) = gid p" "effective_gid (snd (sys_setuid p a)) = effective_gid p"
  by (auto simp: sys_setuid_def sys_setgid_def ucast_ucast16)

lemma set_ids_inv:
  assumes "uid p \<noteq> 0" "gid p \<noteq> 0"
  shows "uid (set_ids cs p) = uid p \<and> effective_uid (set_ids cs p) \<in> {effective_uid p, uid p}
    \<and> gid (set_ids cs p) = gid p \<and> effective_gid (set_ids cs p) \<in> {effective_gid p, gid p}"
  using assms
proof (induction cs p rule: set_ids.induct)
  case (2 a cs p)
  have "uid (snd (sys_setuid p a)) \<noteq> 0" "gid (snd (sys_setuid p a)) \<noteq> 0"
    using 2(2,3) by (auto simp: set_fields)
  from 2(1) [OF this] show ?case using set_fields [of p a] 2(2,3) by auto
next
  case (3 a cs p)
  have "uid (snd (sys_setgid p a)) \<noteq> 0" "gid (snd (sys_setgid p a)) \<noteq> 0"
    using 3(2,3) by (auto simp: set_fields)
  from 3(1) [OF this] show ?case using set_fields [of p a] 3(2,3) by auto
qed simp

text \<open>
  C22: a process whose real user is not root cannot become another user by any sequence of
  \<^verbatim>\<open>setuid\<close> and \<^verbatim>\<open>setgid\<close> calls: its real user id stays and its effective user id is
  the one it had or its real one; likewise for the group ids.
\<close>

theorem setuid_no_escalation:
  assumes "uid p \<noteq> 0" "gid p \<noteq> 0"
  shows "uid (set_ids cs p) = uid p \<and> effective_uid (set_ids cs p) \<in> {effective_uid p, uid p}
    \<and> gid (set_ids cs p) = gid p \<and> effective_gid (set_ids cs p) \<in> {effective_gid p, gid p}"
  using set_ids_inv [OF assms] .

theorem setuid_no_escalation_witness:
  "uid (set_ids [Inl 0, Inr 7, Inl 9] \<lparr>uid = 9, effective_uid = 0, gid = 7, effective_gid = 3\<rparr>) = 9"
  using setuid_no_escalation
    [of "\<lparr>uid = 9, effective_uid = 0, gid = 7, effective_gid = 3\<rparr>" "[Inl 0, Inr 7, Inl 9]"]
  by simp

section \<open>Where the code departs from its intent\<close>

text \<open>
  A request for reading and writing is granted to a caller who may only read.
\<close>

lemma read_write_granted_for_read:
  "ipc_have_permissions \<lparr>uid = 6, effective_uid = 6, gid = 6, effective_gid = 6\<rparr>
     \<lparr>p_uid = 5, p_gid = 5, p_cuid = 5, p_cgid = 5, p_mode = 420\<rparr> (IPC_PERM_READ OR IPC_PERM_WRITE)
   \<and> \<not> ipc_have_permissions \<lparr>uid = 6, effective_uid = 6, gid = 6, effective_gid = 6\<rparr>
     \<lparr>p_uid = 5, p_gid = 5, p_cuid = 5, p_cgid = 5, p_mode = 420\<rparr> IPC_PERM_WRITE"
  by (simp add: ipc_have_permissions_def ipc_get_min_permissions_def min_permissions_def
      get_perm_class_def get_effective_uid_def get_effective_gid_def get_uid_def get_gid_def
      perm_classes IPC_PERM_READ_def IPC_PERM_WRITE_def flag_def)

text \<open>
  A process in the group of a file by its real group only is not recognised as such,
  because \<^verbatim>\<open>get_gid\<close> returns the user id and is compared with the owner.
\<close>

lemma real_group_ignored:
  "get_perm_class \<lparr>uid = 6, effective_uid = 6, gid = 8, effective_gid = 7\<rparr> 5 8 = PERM_CLASS_OTHER"
  by (simp add: get_perm_class_def get_effective_uid_def get_effective_gid_def get_uid_def get_gid_def)

end
