(* ===== verification/Svipc.thy ===== *)
theory Svipc
  imports Perms Synch
begin

text \<open>
  What the three System V facilities share: the flags, the context of a system call, and the
  table of their objects.  Each facility keeps its objects on a linked list, whose
  contract is the list \<open>order\<close> of the addresses on it (see \<^verbatim>\<open>Llist\<close>); \<open>objs\<close> are the
  allocated objects.  An object that was freed is gone from \<open>objs\<close>.
\<close>

section \<open>Flags and context\<close>

definition IPC_CREAT :: u32 where "IPC_CREAT = push_bit 9 1"
definition IPC_EXCL :: u32 where "IPC_EXCL = push_bit 10 1"
definition IPC_NOWAIT :: u32 where "IPC_NOWAIT = push_bit 11 1"
definition IPC_PRIVATE :: u32 where "IPC_PRIVATE = 0xFFFFFFFE"
definition IPC_RMID :: u32 where "IPC_RMID = 0"
definition IPC_SET :: u32 where "IPC_SET = 1"
definition IPC_STAT :: u32 where "IPC_STAT = 2"

text \<open>The caller and the clock.\<close>

record kctx =
  k_creds :: creds
  k_pid :: u32
  k_time :: u32

definition new_perm :: "kctx \<Rightarrow> u32 \<Rightarrow> ipc_perm" where
  "new_perm k flags =
     \<lparr>p_uid = get_effective_uid (k_creds k), p_gid = get_effective_gid (k_creds k),
      p_cuid = get_effective_uid (k_creds k), p_cgid = get_effective_gid (k_creds k),
      p_mode = flags AND 0x1FF\<rparr>"

text \<open>The update of owner and mode by \<^verbatim>\<open>IPC_SET\<close>, from the caller's structure \<open>u\<close>.\<close>

definition set_perm :: "ipc_perm \<Rightarrow> ipc_perm \<Rightarrow> ipc_perm" where
  "set_perm u p =
     p\<lparr>p_uid := p_uid u, p_gid := p_gid u,
       p_mode := (p_mode p AND NOT 0x1FF) OR (p_mode u AND 0x1FF)\<rparr>"

section \<open>The table of objects\<close>

record 'i registry =
  objs :: "addr \<Rightarrow> 'i option"
  order :: "addr list"
  ctr :: u32

definition upd_obj :: "'i registry \<Rightarrow> addr \<Rightarrow> 'i \<Rightarrow> 'i registry" where
  "upd_obj r a i = r\<lparr>objs := (objs r)(a := Some i)\<rparr>"

definition add_obj :: "'i registry \<Rightarrow> addr \<Rightarrow> 'i \<Rightarrow> 'i registry" where
  "add_obj r a i = r\<lparr>objs := (objs r)(a := Some i), order := order r @ [a]\<rparr>"

definition del_obj :: "'i registry \<Rightarrow> addr \<Rightarrow> 'i registry" where
  "del_obj r a = r\<lparr>objs := (objs r)(a := None), order := remove1 a (order r)\<rparr>"

text \<open>\<^verbatim>\<open>llist_iterate_select\<close> over the table; \<^term>\<open>None\<close> is \<^verbatim>\<open>NULL\<close>.\<close>

definition find_obj :: "('i \<Rightarrow> bool) \<Rightarrow> 'i registry \<Rightarrow> addr option" where
  "find_obj P r = find (\<lambda>a. case objs r a of None \<Rightarrow> False | Some i \<Rightarrow> P i) (order r)"

text \<open>The identifier counter; the counter stays when it would leave the positive range.\<close>

definition alloc_id :: "'i registry \<Rightarrow> u32 option \<times> 'i registry" where
  "alloc_id r = (if sint (ctr r + 1) \<le> 0 then (None, r) else (Some (ctr r), r\<lparr>ctr := ctr r + 1\<rparr>))"

section \<open>The contract of an object table\<close>

definition reg_ok :: "('i \<Rightarrow> u32) \<Rightarrow> 'i registry \<Rightarrow> bool" where
  "reg_ok id_of r \<longleftrightarrow>
     distinct (order r) \<and> 0 \<le> sint (ctr r) \<and>
     (\<forall>a \<in> set (order r). \<exists>i. objs r a = Some i \<and> 0 \<le> sint (id_of i) \<and> sint (id_of i) < sint (ctr r)) \<and>
     inj_on (\<lambda>a. map_option id_of (objs r a)) (set (order r))"

definition same_ids :: "('i \<Rightarrow> u32) \<Rightarrow> addr set \<Rightarrow> 'i registry \<Rightarrow> 'i registry \<Rightarrow> bool" where
  "same_ids id_of S r r' \<longleftrightarrow> (\<forall>a \<in> S. map_option id_of (objs r' a) = map_option id_of (objs r a))"

text \<open>
  One call keeps the table, adds one object under the next number, or drops one object.
\<close>

definition reg_step :: "('i \<Rightarrow> u32) \<Rightarrow> 'i registry \<Rightarrow> 'i registry \<Rightarrow> bool" where
  "reg_step id_of r r' \<longleftrightarrow>
     (order r' = order r \<and> ctr r' = ctr r \<and> same_ids id_of (set (order r)) r r') \<or>
     (order r' = order r \<and> ctr r' = ctr r + 1 \<and> 0 < sint (ctr r + 1) \<and> same_ids id_of (set (order r)) r r') \<or>
     (\<exists>a i. a \<notin> set (order r) \<and> order r' = order r @ [a] \<and> objs r' a = Some i \<and> id_of i = ctr r \<and>
            ctr r' = ctr r + 1 \<and> 0 < sint (ctr r + 1) \<and> same_ids id_of (set (order r)) r r') \<or>
     (\<exists>a. order r' = remove1 a (order r) \<and> ctr r' = ctr r \<and> same_ids id_of (set (order r) - {a}) r r')"

definition ids :: "('i \<Rightarrow> u32) \<Rightarrow> 'i registry \<Rightarrow> u32 set" where
  "ids id_of r = {id_of i | a i. a \<in> set (order r) \<and> objs r a = Some i}"

lemma sint_succ: "0 < sint (c + 1 :: u32) \<Longrightarrow> 0 \<le> sint c \<Longrightarrow> sint (c + 1) = sint c + 1"
proof -
  assume "0 < sint (c + 1 :: u32)" "0 \<le> sint c"
  moreover have "sint c < 2 ^ 31" using sint_range_size [of c] by (simp add: word_size)
  moreover have "sint c = 2 ^ 31 - 1 \<Longrightarrow> sint (c + 1) = - (2 ^ 31)"
    by (simp add: sint_word_ariths signed_take_bit_def bit_simps mask_eq_exp_minus_1 not_eq_complement)
  ultimately show ?thesis using sint_incr [of c] by (cases "sint c = 2 ^ 31 - 1") auto
qed


text \<open>What is to be shown of each object after a step.\<close>

definition order_fact :: "'i registry \<Rightarrow> u32 set \<Rightarrow> int \<Rightarrow> ('i \<Rightarrow> u32) \<Rightarrow> bool" where
  "order_fact r N c id_of \<longleftrightarrow>
     (\<forall>a \<in> set (order r). \<exists>i. objs r a = Some i \<and> 0 \<le> sint (id_of i) \<and> sint (id_of i) < sint (ctr r)
        \<and> (id_of i \<in> N \<or> c \<le> sint (id_of i)))"

lemma order_fact_ok:
  assumes "order_fact r N c id_of"
  shows "distinct (order r) \<Longrightarrow> 0 \<le> sint (ctr r) \<Longrightarrow>
      inj_on (\<lambda>a. map_option id_of (objs r a)) (set (order r)) \<Longrightarrow> reg_ok id_of r"
    "\<forall>n \<in> ids id_of r. n \<in> N \<or> c \<le> sint n"
  using assms unfolding order_fact_def reg_ok_def ids_def by fastforce+

lemma reg_step_ok:
  assumes ok: "reg_ok id_of r" and st: "reg_step id_of r r'"
  shows "reg_ok id_of r' \<and> sint (ctr r) \<le> sint (ctr r')
     \<and> (\<forall>n \<in> ids id_of r'. n \<in> ids id_of r \<or> sint (ctr r) \<le> sint n)"
proof -
  have c0: "0 \<le> sint (ctr r)" using ok by (simp add: reg_ok_def)
  have obj: "\<exists>i. objs r a = Some i \<and> 0 \<le> sint (id_of i) \<and> sint (id_of i) < sint (ctr r)" if "a \<in> set (order r)" for a
    using ok that by (auto simp: reg_ok_def)
  have keep: "\<exists>i. objs r' a = Some i \<and> 0 \<le> sint (id_of i) \<and> sint (id_of i) < sint (ctr r) \<and> id_of i \<in> ids id_of r"
    if h: "same_ids id_of S r r'" "a \<in> S" "a \<in> set (order r)" for a S
  proof -
    obtain i where i: "objs r a = Some i" "0 \<le> sint (id_of i)" "sint (id_of i) < sint (ctr r)"
      using obj h(3) by blast
    moreover obtain j where "objs r' a = Some j" "id_of j = id_of i"
      using h(1,2) i(1) by (fastforce simp: same_ids_def)
    moreover have "id_of i \<in> ids id_of r" using h(3) i(1) by (auto simp: ids_def)
    ultimately show ?thesis by auto
  qed
  have inj: "inj_on (\<lambda>a. map_option id_of (objs r' a)) T"
    if "same_ids id_of S r r'" "T \<subseteq> S" "T \<subseteq> set (order r)" for S T
    using ok that unfolding reg_ok_def same_ids_def inj_on_def by (metis subsetD)
  have up: "sint (ctr r + 1) = sint (ctr r) + 1" if "0 < sint (ctr r + 1)"
    using sint_succ that c0 by blast
  consider (same) "order r' = order r" "ctr r' = ctr r" "same_ids id_of (set (order r)) r r'"
    | (bump) "order r' = order r" "ctr r' = ctr r + 1" "0 < sint (ctr r + 1)" "same_ids id_of (set (order r)) r r'"
    | (add) a i where "a \<notin> set (order r)" "order r' = order r @ [a]" "objs r' a = Some i" "id_of i = ctr r"
        "ctr r' = ctr r + 1" "0 < sint (ctr r + 1)" "same_ids id_of (set (order r)) r r'"
    | (drop) a where "order r' = remove1 a (order r)" "ctr r' = ctr r" "same_ids id_of (set (order r) - {a}) r r'"
    using st unfolding reg_step_def by blast
  then show ?thesis
  proof cases
    case same
    have "order_fact r' (ids id_of r) (sint (ctr r)) id_of"
      using keep [OF same(3)] same(1,2) by (fastforce simp: order_fact_def)
    then show ?thesis using order_fact_ok [of r'] same ok inj [OF same(3), of "set (order r)"]
      by (simp add: reg_ok_def)
  next
    case bump
    have "order_fact r' (ids id_of r) (sint (ctr r)) id_of"
      using keep [OF bump(4)] bump(1,2) up [OF bump(3)] by (fastforce simp: order_fact_def)
    then show ?thesis using order_fact_ok [of r'] bump ok inj [OF bump(4), of "set (order r)"] up [OF bump(3)]
      by (simp add: reg_ok_def)
  next
    case add
    have o: "order_fact r' (ids id_of r) (sint (ctr r)) id_of"
      using keep [OF add(7)] add(2-5) up [OF add(6)] c0 by (fastforce simp: order_fact_def)
    have "Some (ctr r) \<noteq> map_option id_of (objs r' x)" if "x \<in> set (order r)" for x
      using keep [OF add(7) that that] by auto
    then have "inj_on (\<lambda>a. map_option id_of (objs r' a)) (insert a (set (order r)))"
      using inj [OF add(7), of "set (order r)"] add(1,3,4) by (simp add: inj_on_insert image_iff)
    then show ?thesis using order_fact_ok [OF o] add ok up [OF add(6)] by (simp add: reg_ok_def)
  next
    case drop
    have d: "set (remove1 a (order r)) = set (order r) - {a}" "distinct (remove1 a (order r))"
      using ok by (auto simp: reg_ok_def)
    have o: "order_fact r' (ids id_of r) (sint (ctr r)) id_of"
      using keep [OF drop(3)] drop(1,2) d(1) by (fastforce simp: order_fact_def)
    show ?thesis using order_fact_ok [OF o] drop ok d inj [OF drop(3), of "set (order r) - {a}"]
      by (simp add: reg_ok_def)
  qed
qed

lemma find_obj_id:
  assumes "reg_ok id_of r" "a \<in> set (order r)" "objs r a = Some i"
  shows "find_obj (\<lambda>x. id_of x = id_of i) r = Some a"
proof -
  let ?P = "\<lambda>a. case objs r a of None \<Rightarrow> False | Some x \<Rightarrow> id_of x = id_of i"
  have "find ?P (order r) \<noteq> None" using assms(2,3) by (auto simp: find_None_iff)
  then obtain x where x: "find ?P (order r) = Some x" by auto
  then obtain j where "objs r x = Some j" "id_of j = id_of i" "x \<in> set (order r)"
    using find_SomeD [OF x] by (auto split: option.splits)
  then have "x = a" using assms unfolding reg_ok_def inj_on_def by (metis option.simps(9))
  with x show ?thesis by (simp add: find_obj_def)
qed

lemma find_objD: "find_obj P r = Some a \<Longrightarrow> a \<in> set (order r) \<and> (\<exists>i. objs r a = Some i \<and> P i)"
  by (auto simp: find_obj_def dest!: find_SomeD split: option.splits)

lemma find_obj_None: "find_obj P r = None \<Longrightarrow> a \<in> set (order r) \<Longrightarrow> objs r a = Some i \<Longrightarrow> \<not> P i"
  by (force simp: find_obj_def find_None_iff)

lemma reg_step_refl: "reg_step id_of r r"
  by (simp add: reg_step_def same_ids_def)

lemma reg_step_upd:
  "a \<in> set (order r) \<Longrightarrow> objs r a = Some i \<Longrightarrow> id_of j = id_of i \<Longrightarrow> reg_step id_of r (upd_obj r a j)"
  by (auto simp: reg_step_def same_ids_def upd_obj_def)

lemma reg_step_del:
  "reg_step id_of r (del_obj r a)" "reg_step id_of r (del_obj (upd_obj r a j) a)"
  by (auto simp: reg_step_def same_ids_def upd_obj_def del_obj_def)

lemma reg_step_add:
  "alloc_id r = (Some n, r') \<Longrightarrow> a \<notin> set (order r) \<Longrightarrow> id_of i = n \<Longrightarrow> reg_step id_of r (add_obj r' a i)"
  by (auto simp: reg_step_def same_ids_def alloc_id_def add_obj_def split: if_splits)

lemma registry_simps [simp]:
  "order (upd_obj r a i) = order r" "ctr (upd_obj r a i) = ctr r"
  "objs (upd_obj r a i) = (objs r)(a := Some i)"
  "order (del_obj r a) = remove1 a (order r)" "ctr (del_obj r a) = ctr r"
  "objs (del_obj r a) = (objs r)(a := None)"
  "order (add_obj r a i) = order r @ [a]" "objs (add_obj r a i) = (objs r)(a := Some i)"
  by (simp_all add: upd_obj_def del_obj_def add_obj_def)

lemma upd_upd [simp]: "upd_obj (upd_obj st a i) a j = upd_obj st a j" "del_obj (upd_obj st a i) a = del_obj st a"
  by (simp_all add: upd_obj_def del_obj_def)

lemma upd_same: "objs st a = Some i \<Longrightarrow> upd_obj st a i = st"
  by (cases st) (auto simp: upd_obj_def fun_upd_idem)

text \<open>
  A table whose objects satisfy \<open>good\<close>, and what a call does to it through the object at \<open>a\<close>:
  it updates or deletes it.
\<close>

definition table_ok :: "('i \<Rightarrow> u32) \<Rightarrow> ('i \<Rightarrow> bool) \<Rightarrow> 'i registry \<Rightarrow> bool" where
  "table_ok id_of good st \<longleftrightarrow>
     reg_ok id_of st \<and> (\<forall>a i. objs st a = Some i \<longrightarrow> a \<in> set (order st) \<and> good i)"

definition one_obj :: "('i \<Rightarrow> u32) \<Rightarrow> ('i \<Rightarrow> bool) \<Rightarrow> 'i registry \<Rightarrow> addr \<Rightarrow> 'i registry \<Rightarrow> bool" where
  "one_obj id_of good st a st' \<longleftrightarrow>
     (\<exists>i. objs st a = Some i \<and>
        ((\<exists>j. st' = upd_obj st a j \<and> id_of j = id_of i \<and> (good i \<longrightarrow> good j)) \<or> st' = del_obj st a))"

lemma one_obj_trans:
  assumes "objs st a = Some i" "id_of j = id_of i" "good i \<longrightarrow> good j" "one_obj id_of good (upd_obj st a j) a st'"
  shows "one_obj id_of good st a st'"
  using assms by (auto simp: one_obj_def)

lemma one_obj_upd:
  "objs st a = Some i \<Longrightarrow> id_of j = id_of i \<Longrightarrow> (good i \<Longrightarrow> good j) \<Longrightarrow> one_obj id_of good st a (upd_obj st a j)"
  by (auto simp: one_obj_def)

lemma one_obj_del: "objs st a = Some i \<Longrightarrow> one_obj id_of good st a (del_obj st a)"
  by (auto simp: one_obj_def)

lemma one_obj_refl: "objs st a = Some i \<Longrightarrow> one_obj id_of good st a st"
  using one_obj_upd [of st a i id_of i good] by (simp add: upd_same)

lemma one_obj_ok:
  assumes "table_ok id_of good st" "one_obj id_of good st a st'"
  shows "table_ok id_of good st' \<and> reg_step id_of st st'"
proof -
  obtain i where i: "objs st a = Some i" "a \<in> set (order st)" "good i"
      and c: "(\<exists>j. st' = upd_obj st a j \<and> id_of j = id_of i \<and> (good i \<longrightarrow> good j)) \<or> st' = del_obj st a"
    using assms by (auto simp: one_obj_def table_ok_def)
  have step: "reg_step id_of st st'" using c reg_step_upd [of a st i id_of] reg_step_del [of id_of st a] i by auto
  have "reg_ok id_of st'" using reg_step_ok [OF _ step] assms(1) by (simp add: table_ok_def)
  moreover have "a' \<in> set (order st') \<and> good i'" if "objs st' a' = Some i'" for a' i'
    using that c i assms(1) by (cases "a' = a") (auto simp: table_ok_def reg_ok_def split: if_splits)
  ultimately show ?thesis using step by (auto simp: table_ok_def)
qed

lemma add_obj_ok:
  assumes "table_ok id_of good st" "alloc_id st = (Some n, st1)" "objs st a = None" "id_of i = n" "good i"
  shows "table_ok id_of good (add_obj st1 a i) \<and> reg_step id_of st (add_obj st1 a i)"
proof -
  have o: "objs st1 = objs st" "order st1 = order st" using assms(2) by (auto simp: alloc_id_def split: if_splits)
  have na: "a \<notin> set (order st)" using assms(1,3) by (auto simp: table_ok_def reg_ok_def)
  note s = reg_step_add [OF assms(2) na, of id_of i, OF assms(4)]
  have "reg_ok id_of (add_obj st1 a i)" using reg_step_ok [OF _ s] assms(1) by (simp add: table_ok_def)
  then show ?thesis using s assms(1,5) o by (auto simp: table_ok_def)
qed

lemma alloc_id_None: "alloc_id st = (None, st1) \<Longrightarrow> st1 = st"
  by (auto simp: alloc_id_def split: if_splits)

lemma table_ok_empty: "table_ok id_of good \<lparr>objs = \<lambda>_. None, order = [], ctr = 0\<rparr>"
  by (simp add: table_ok_def reg_ok_def)

lemma find_obj_upd:
  assumes "find_obj (\<lambda>i. id_of i = n) st = Some a" "objs st a = Some i" "id_of j = id_of i"
  shows "find_obj (\<lambda>i. id_of i = n) (upd_obj st a j) = Some a"
proof -
  have "(case objs (upd_obj st a j) x of None \<Rightarrow> False | Some y \<Rightarrow> id_of y = n) =
        (case objs st x of None \<Rightarrow> False | Some y \<Rightarrow> id_of y = n)" for x
    using assms(2,3) by simp
  then show ?thesis using assms(1) by (simp add: find_obj_def)
qed

text \<open>
  The contract for the users of identifiers: a facility all of whose calls are steps of
  its table.
\<close>

locale ipc_objects =
  fixes reg :: "'s \<Rightarrow> 'i registry" and id_of :: "'i \<Rightarrow> u32" and good :: "'i \<Rightarrow> bool" and call :: "'s \<Rightarrow> 's \<Rightarrow> bool"
  assumes call_step: "table_ok id_of good (reg s) \<Longrightarrow> call s s' \<Longrightarrow>
    table_ok id_of good (reg s') \<and> reg_step id_of (reg s) (reg s')"
begin

lemma calls_ok:
  "call\<^sup>*\<^sup>* s s' \<Longrightarrow> table_ok id_of good (reg s) \<Longrightarrow>
     table_ok id_of good (reg s') \<and> sint (ctr (reg s)) \<le> sint (ctr (reg s'))
     \<and> (\<forall>n \<in> ids id_of (reg s'). n \<in> ids id_of (reg s) \<or> sint (ctr (reg s)) \<le> sint n)"
proof (induction rule: rtranclp_induct)
  case (step y z)
  then have y: "table_ok id_of good (reg y)" by blast
  note yz = call_step [OF y step.hyps(2)]
  from reg_step_ok [of id_of "reg y" "reg z"] y yz step show ?case by (fastforce simp: table_ok_def)
qed simp

text \<open>A number that was given out and whose object is gone is never given out again.\<close>

lemma id_not_reused:
  assumes "call\<^sup>*\<^sup>* s s'" "table_ok id_of good (reg s)" "n \<notin> ids id_of (reg s)" "sint n < sint (ctr (reg s))"
  shows "n \<notin> ids id_of (reg s')"
  using calls_ok [OF assms(1,2)] assms(3,4) by fastforce

lemma ids_unique:
  assumes "call\<^sup>*\<^sup>* s s'" "table_ok id_of good (reg s)" "objs (reg s') a = Some i" "objs (reg s') b = Some j"
    "id_of i = id_of j"
  shows "a = b"
  using find_obj_id [of id_of "reg s'" a i] find_obj_id [of id_of "reg s'" b j] calls_ok [OF assms(1,2)] assms(3-5)
  by (auto simp: table_ok_def)

lemma objects_good:
  "call\<^sup>*\<^sup>* s s' \<Longrightarrow> table_ok id_of good (reg s) \<Longrightarrow> objs (reg s') a = Some i \<Longrightarrow> good i"
  using calls_ok by (auto simp: table_ok_def)

end

end
