(* ===== verification/Svipc_Msg.thy ===== *)
theory Svipc_Msg
  imports Svipc
begin

text \<open>
  The message queues of \<^verbatim>\<open>kernel/svipc/msg.c\<close>.
\<close>

section \<open>State\<close>

record sysv_msg =
  mtype :: u32
  msize :: u32
  mtext :: "u8 list"

record msg_info =
  m_key :: u32
  m_id :: u32
  m_del :: bool
  m_refs :: u32
  swaitsem :: semaphore
  rwaitsem :: semaphore
  msg_perm :: ipc_perm
  msg_qnum :: u32
  msg_qbytes :: u32
  msg_lspid :: u32
  msg_lrpid :: u32
  msg_stime :: u32
  msg_rtime :: u32
  msg_ctime :: u32
  msgs :: "sysv_msg list"
  used_bytes :: u32

type_synonym msg_st = "msg_info registry"

definition MSG_NOERROR :: u32 where "MSG_NOERROR = push_bit 0 1"
definition CONFIG_SYSV_MSG_SIZE_LIMIT :: u32 where "CONFIG_SYSV_MSG_SIZE_LIMIT = 65536"

text \<open>The first word of a message buffer; both targets are little-endian.\<close>

definition le32 :: "u8 list \<Rightarrow> u32" where
  "le32 bs = ucast (bs ! 0) OR push_bit 8 (ucast (bs ! 1)) OR push_bit 16 (ucast (bs ! 2))
               OR push_bit 24 (ucast (bs ! 3))"

section \<open>Operations\<close>

definition msg_init :: "msg_st" where
  "msg_init = \<lparr>objs = \<lambda>_. None, order = [], ctr = 0\<rparr>"

definition msg_get_by_key :: "msg_st \<Rightarrow> u32 \<Rightarrow> addr option" where
  "msg_get_by_key st key = find_obj (\<lambda>i. m_key i = key) st"

definition msg_get_by_id :: "msg_st \<Rightarrow> u32 \<Rightarrow> addr option" where
  "msg_get_by_id st msqid = find_obj (\<lambda>i. m_id i = msqid) st"

definition msg_alloc_id :: "msg_st \<Rightarrow> u32 option \<times> msg_st" where
  "msg_alloc_id st = alloc_id st"

definition msg_recv_iterator :: "u32 \<Rightarrow> sysv_msg \<Rightarrow> bool" where
  "msg_recv_iterator rtype msg \<longleftrightarrow>
     rtype = 0 \<or> (sint rtype > 0 \<and> mtype msg = rtype) \<or> (sint rtype < 0 \<and> sint (mtype msg) \<le> sint (- rtype))"

text \<open>The messages go with the queue.\<close>

definition msg_do_delete :: "msg_st \<Rightarrow> addr \<Rightarrow> msg_st" where
  "msg_do_delete st a = del_obj st a"

text \<open>
  \<^verbatim>\<open>info->refs--\<close>, and the deletion of a queue that was marked when this was the last
  reference.
\<close>

definition msg_unref :: "msg_st \<Rightarrow> addr \<Rightarrow> msg_info \<Rightarrow> msg_st" where
  "msg_unref st a info =
     (let i = info\<lparr>m_refs := m_refs info - 1\<rparr>; st' = upd_obj st a i
      in if m_del i \<and> m_refs i = 0 then msg_do_delete st' a else st')"

text \<open>
  Receiving: the result is the number of bytes after the type word, with the bytes copied
  to the caller.  \<open>msgrcv_take\<close> is the part after a message was found.
\<close>

type_synonym rcv_out = "(errno + u32 \<times> u8 list, addr, msg_st) outcome"

fun remove_first :: "('a \<Rightarrow> bool) \<Rightarrow> 'a list \<Rightarrow> 'a list" where
  "remove_first P [] = []"
| "remove_first P (x # xs) = (if P x then xs else x # remove_first P xs)"

definition msgrcv_take :: "kctx \<Rightarrow> msg_st \<Rightarrow> addr \<Rightarrow> msg_info \<Rightarrow> sysv_msg \<Rightarrow> u32 \<Rightarrow> u32 \<Rightarrow> u32 \<Rightarrow> rcv_out" where
  "msgrcv_take k st a info msg msgsz msgtyp msgflg =
     (if msize msg > msgsz \<and> \<not> flag msgflg MSG_NOERROR
      then Return (Inl E2BIG) (upd_obj st a (info\<lparr>m_refs := m_refs info - 1\<rparr>))
      else let readsz = (if msize msg > msgsz then msgsz else msize msg);
               i = info\<lparr>msgs := remove_first (msg_recv_iterator msgtyp) (msgs info),
                        msg_qnum := msg_qnum info - 1,
                        used_bytes := used_bytes info - msize msg,
                        m_refs := m_refs info - 1,
                        msg_lrpid := k_pid k, msg_rtime := k_time k,
                        swaitsem := semaphore_up (swaitsem info)\<rparr>
           in if length (mtext msg) < unat readsz then Crash Out_Of_Bounds
              else Return (Inr (readsz - 4, take (unat readsz) (mtext msg))) (upd_obj st a i))"

text \<open>The loop that waits for a message; the queue is referenced.\<close>

partial_function (option) msgrcv_loop :: "kctx \<Rightarrow> addr \<Rightarrow> u32 \<Rightarrow> u32 \<Rightarrow> u32 \<Rightarrow> msg_st \<Rightarrow> rcv_out option" where
  "msgrcv_loop k a msgsz msgtyp msgflg st =
     (case objs st a of
        None \<Rightarrow> Some (Crash Use_After_Free)
      | Some info \<Rightarrow>
          (case semaphore_ndown (rwaitsem info) of
             Crash f \<Rightarrow> Some (Crash f)
           | Sleep _ s \<Rightarrow> Some (Sleep a (upd_obj st a (info\<lparr>rwaitsem := s\<rparr>)))
           | Return _ s \<Rightarrow>
               let i = info\<lparr>rwaitsem := s\<rparr>; st1 = upd_obj st a i
               in if m_del i then Some (Return (Inl EIDRM) (msg_unref st1 a i))
                  else case find (msg_recv_iterator msgtyp) (msgs i) of
                         Some msg \<Rightarrow> Some (msgrcv_take k st1 a i msg msgsz msgtyp msgflg)
                       | None \<Rightarrow> msgrcv_loop k a msgsz msgtyp msgflg st1))"

definition sys_msgrcv :: "kctx \<Rightarrow> u32 \<Rightarrow> addr \<Rightarrow> u32 \<Rightarrow> u32 \<Rightarrow> u32 \<Rightarrow> msg_st \<Rightarrow> rcv_out option" where
  "sys_msgrcv k msqid msgp sz msgtyp msgflg st =
     (let msgsz = sz + 4 in
      if msgp = NULL then Some (Crash Assert_Failed)
      else case msg_get_by_id st msqid of
        None \<Rightarrow> Some (Return (Inl EINVAL) st)
      | Some a \<Rightarrow>
          (case objs st a of
             None \<Rightarrow> Some (Crash Use_After_Free)
           | Some info \<Rightarrow>
               if \<not> ipc_have_permissions (k_creds k) (msg_perm info) IPC_PERM_READ
               then Some (Return (Inl EACCES) st)
               else if m_del info then Some (Return (Inl EIDRM) st)
               else case find (msg_recv_iterator msgtyp) (msgs info) of
                      Some msg \<Rightarrow> Some (msgrcv_take k st a info msg msgsz msgtyp msgflg)
                    | None \<Rightarrow>
                        if flag msgflg IPC_NOWAIT then Some (Return (Inl ENOMSG) st)
                        else msgrcv_loop k a msgsz msgtyp msgflg
                               (upd_obj st a (info\<lparr>m_refs := m_refs info + 1\<rparr>))))"

text \<open>What a sleeping receiver does when \<^verbatim>\<open>scheduler_wait\<close> returns \<open>s\<close>.\<close>

definition msgrcv_resume :: "kctx \<Rightarrow> addr \<Rightarrow> u32 \<Rightarrow> u32 \<Rightarrow> u32 \<Rightarrow> wait_result \<Rightarrow> msg_st \<Rightarrow> rcv_out option" where
  "msgrcv_resume k a sz msgtyp msgflg s st =
     (case objs st a of
        None \<Rightarrow> Some (Crash Use_After_Free)
      | Some info \<Rightarrow>
          if s \<noteq> SCHED_WAIT_OK then Some (Return (Inl EINTR) (msg_unref st a info))
          else if m_del info then Some (Return (Inl EIDRM) (msg_unref st a info))
          else case find (msg_recv_iterator msgtyp) (msgs info) of
                 Some msg \<Rightarrow> Some (msgrcv_take k st a info msg (sz + 4) msgtyp msgflg)
               | None \<Rightarrow> msgrcv_loop k a (sz + 4) msgtyp msgflg st)"

text \<open>
  Sending.  \<open>src\<close> is the kernel copy of the caller's buffer, type word included;
  \<open>got_hdr\<close> and \<open>got_body\<close> are the results of the two allocations.
\<close>

type_synonym snd_out = "(errno + unit, addr, msg_st) outcome"

definition msgsnd_put :: "kctx \<Rightarrow> bool \<Rightarrow> bool \<Rightarrow> msg_st \<Rightarrow> addr \<Rightarrow> msg_info \<Rightarrow> u8 list \<Rightarrow> u32 \<Rightarrow> snd_out" where
  "msgsnd_put k got_hdr got_body st a info src sendsz =
     (if \<not> got_hdr \<or> \<not> got_body then Return (Inl ENOMEM) (upd_obj st a info)
      else if length src < unat sendsz then Crash Out_Of_Bounds
      else let msg = \<lparr>mtype = le32 src, msize = sendsz, mtext = take (unat sendsz) src\<rparr>;
               i = info\<lparr>msg_qnum := msg_qnum info + 1, used_bytes := used_bytes info + sendsz,
                        msg_lspid := k_pid k, msg_stime := k_time k,
                        msgs := msgs info @ [msg], rwaitsem := semaphore_up (rwaitsem info)\<rparr>
           in Return (Inr ()) (upd_obj st a i))"

partial_function (option) msgsnd_loop :: "kctx \<Rightarrow> bool \<Rightarrow> bool \<Rightarrow> addr \<Rightarrow> u8 list \<Rightarrow> u32 \<Rightarrow> msg_st \<Rightarrow> snd_out option" where
  "msgsnd_loop k got_hdr got_body a src sendsz st =
     (case objs st a of
        None \<Rightarrow> Some (Crash Use_After_Free)
      | Some info \<Rightarrow>
          if used_bytes info \<ge> msg_qbytes info
          then (case semaphore_ndown (swaitsem info) of
                  Crash f \<Rightarrow> Some (Crash f)
                | Sleep _ s \<Rightarrow> Some (Sleep a (upd_obj st a (info\<lparr>swaitsem := s\<rparr>)))
                | Return _ s \<Rightarrow>
                    let i = info\<lparr>swaitsem := s\<rparr>; st1 = upd_obj st a i
                    in if m_del i then Some (Return (Inl EIDRM) (msg_unref st1 a i))
                       else msgsnd_loop k got_hdr got_body a src sendsz st1)
          else Some (msgsnd_put k got_hdr got_body st a (info\<lparr>m_refs := m_refs info - 1\<rparr>) src sendsz))"

definition sys_msgsnd :: "kctx \<Rightarrow> bool \<Rightarrow> bool \<Rightarrow> u32 \<Rightarrow> addr \<Rightarrow> u8 list \<Rightarrow> u32 \<Rightarrow> u32 \<Rightarrow> msg_st \<Rightarrow> snd_out option" where
  "sys_msgsnd k got_hdr got_body msqid msgp src msgsz msgflg st =
     (let sendsz = 4 + msgsz in
      if msgp = NULL then Some (Crash Assert_Failed)
      else case msg_get_by_id st msqid of
        None \<Rightarrow> Some (Return (Inl EINVAL) st)
      | Some a \<Rightarrow>
          (case objs st a of
             None \<Rightarrow> Some (Crash Use_After_Free)
           | Some info \<Rightarrow>
               if \<not> ipc_have_permissions (k_creds k) (msg_perm info) IPC_PERM_WRITE
               then Some (Return (Inl EACCES) st)
               else if length src < 4 then Some (Crash Out_Of_Bounds)
               else if sint (le32 src) < 1 then Some (Return (Inl EINVAL) st)
               else if m_del info then Some (Return (Inl EIDRM) st)
               else if used_bytes info \<ge> msg_qbytes info
               then if flag msgflg IPC_NOWAIT then Some (Return (Inl EAGAIN) st)
                    else msgsnd_loop k got_hdr got_body a src sendsz
                           (upd_obj st a (info\<lparr>m_refs := m_refs info + 1\<rparr>))
               else Some (msgsnd_put k got_hdr got_body st a info src sendsz)))"

definition msgsnd_resume :: "kctx \<Rightarrow> bool \<Rightarrow> bool \<Rightarrow> addr \<Rightarrow> u8 list \<Rightarrow> u32 \<Rightarrow> wait_result \<Rightarrow> msg_st \<Rightarrow> snd_out option" where
  "msgsnd_resume k got_hdr got_body a src msgsz s st =
     (case objs st a of
        None \<Rightarrow> Some (Crash Use_After_Free)
      | Some info \<Rightarrow>
          if s \<noteq> SCHED_WAIT_OK then Some (Return (Inl EINTR) (msg_unref st a info))
          else if m_del info then Some (Return (Inl EIDRM) (msg_unref st a info))
          else msgsnd_loop k got_hdr got_body a src (4 + msgsz) st)"

text \<open>
  Control.  \<open>copied\<close> tells whether the copy from or to user space succeeds, \<open>ubuf\<close> is the
  permission structure that the caller passes.  \<^verbatim>\<open>IPC_STAT\<close> gives the caller the public
  part of the queue's data.
\<close>

definition sys_msgctl :: "kctx \<Rightarrow> u32 \<Rightarrow> u32 \<Rightarrow> bool \<Rightarrow> ipc_perm \<Rightarrow> msg_st \<Rightarrow> ((errno + msg_info option) \<times> msg_st) exec" where
  "sys_msgctl k msqid cmd copied ubuf st =
     (case msg_get_by_id st msqid of
        None \<Rightarrow> Inr (Inl EINVAL, st)
      | Some a \<Rightarrow>
          (case objs st a of
             None \<Rightarrow> Inl Use_After_Free
           | Some info \<Rightarrow>
               if cmd = IPC_STAT
               then if \<not> ipc_have_permissions (k_creds k) (msg_perm info) IPC_PERM_READ then Inr (Inl EACCES, st)
                    else if \<not> copied then Inr (Inl EFAULT, st)
                    else Inr (Inr (Some info), st)
               else if cmd = IPC_SET
               then if \<not> ipc_is_creator (k_creds k) (msg_perm info) \<and> \<not> ipc_is_owner (k_creds k) (msg_perm info)
                       \<and> \<not> ipc_is_privileged (k_creds k) then Inr (Inl EPERM, st)
                    else if \<not> copied then Inr (Inl EFAULT, st)
                    else Inr (Inr None, upd_obj st a (info\<lparr>msg_perm := set_perm ubuf (msg_perm info)\<rparr>))
               else if cmd = IPC_RMID
               then if \<not> ipc_is_creator (k_creds k) (msg_perm info) \<and> \<not> ipc_is_owner (k_creds k) (msg_perm info)
                       \<and> \<not> ipc_is_privileged (k_creds k) then Inr (Inl EPERM, st)
                    else let i = info\<lparr>m_del := True\<rparr>; st1 = upd_obj st a i
                         in if m_refs i = 0 then Inr (Inr None, msg_do_delete st1 a)
                            else Inr (Inr None, upd_obj st1 a
                                   (i\<lparr>rwaitsem := semaphore_add (rwaitsem i) 999999,
                                      swaitsem := semaphore_add (swaitsem i) 999999\<rparr>))
               else Inr (Inl EINVAL, st)))"

definition new_queue :: "kctx \<Rightarrow> u32 \<Rightarrow> u32 \<Rightarrow> u32 \<Rightarrow> msg_info" where
  "new_queue k key n flags =
     \<lparr>m_key = key, m_id = n, m_del = False, m_refs = 0, swaitsem = semaphore_init,
      rwaitsem = semaphore_init, msg_perm = new_perm k flags, msg_qnum = 0,
      msg_qbytes = CONFIG_SYSV_MSG_SIZE_LIMIT, msg_lspid = 0, msg_lrpid = 0, msg_stime = 0,
      msg_rtime = 0, msg_ctime = k_time k, msgs = [], used_bytes = 0\<rparr>"

text \<open>\<open>new\<close> is the result of the allocation.\<close>

definition sys_msgget :: "kctx \<Rightarrow> addr option \<Rightarrow> u32 \<Rightarrow> u32 \<Rightarrow> msg_st \<Rightarrow> ((errno + u32) \<times> msg_st) exec" where
  "sys_msgget k new key flags st =
     (let found = (if key \<noteq> IPC_PRIVATE then msg_get_by_key st key else None) in
      case found of
        None \<Rightarrow>
          if key \<noteq> IPC_PRIVATE \<and> \<not> flag flags IPC_CREAT then Inr (Inl ENOENT, st)
          else (case new of
                  None \<Rightarrow> Inr (Inl ENOMEM, st)
                | Some a \<Rightarrow>
                    (case msg_alloc_id st of
                       (None, st1) \<Rightarrow> Inr (Inl ENFILE, st1)
                     | (Some n, st1) \<Rightarrow> Inr (Inr n, add_obj st1 a (new_queue k key n flags))))
      | Some a \<Rightarrow>
          if flag flags IPC_CREAT \<and> flag flags IPC_EXCL then Inr (Inl EEXIST, st)
          else (case objs st a of
                  None \<Rightarrow> Inl Use_After_Free
                | Some info \<Rightarrow>
                    if \<not> ipc_have_permissions (k_creds k) (msg_perm info) IPC_PERM_OPER then Inr (Inl EACCES, st)
                    else if m_del info then Inr (Inl EIDRM, st)
                    else Inr (Inr (m_id info), st)))"


section \<open>Invariant\<close>

text \<open>The counters of a queue describe its messages (modulo the width of the counters).\<close>

definition queue_ok :: "msg_info \<Rightarrow> bool" where
  "queue_ok i \<longleftrightarrow>
     msg_qnum i = of_nat (length (msgs i)) \<and> used_bytes i = sum_list (map msize (msgs i)) \<and>
     (\<forall>m \<in> set (msgs i). length (mtext m) = unat (msize m))"

abbreviation msg_ok :: "msg_st \<Rightarrow> bool" where
  "msg_ok \<equiv> table_ok m_id queue_ok"

abbreviation one_queue :: "msg_st \<Rightarrow> addr \<Rightarrow> msg_st \<Rightarrow> bool" where
  "one_queue \<equiv> one_obj m_id queue_ok"

lemma remove_first_found:
  fixes f :: "'a \<Rightarrow> u32"
  assumes "find P xs = Some m"
  shows "length xs = Suc (length (remove_first P xs)) \<and> (\<forall>x \<in> set (remove_first P xs). x \<in> set xs)
    \<and> m \<in> set xs \<and> sum_list (map f xs) = f m + sum_list (map f (remove_first P xs))"
  using assms by (induction xs) (auto split: if_splits)

lemma queue_ok_sem:
  "queue_ok (i\<lparr>rwaitsem := s\<rparr>) = queue_ok i" "queue_ok (i\<lparr>swaitsem := s\<rparr>) = queue_ok i"
  "queue_ok (i\<lparr>m_refs := r\<rparr>) = queue_ok i" "queue_ok (i\<lparr>m_del := d\<rparr>) = queue_ok i"
  "queue_ok (i\<lparr>msg_perm := p\<rparr>) = queue_ok i"
  by (simp_all add: queue_ok_def)

lemmas queue_field [simp] = queue_ok_sem

lemma unref_one_queue: "objs st a = Some i \<Longrightarrow> one_queue st a (msg_unref st a i)"
  by (auto simp: msg_unref_def msg_do_delete_def one_obj_def Let_def)

lemma take_one_queue:
  assumes "objs st a = Some i" "find (msg_recv_iterator t) (msgs i) = Some m"
    "out_state (msgrcv_take k st a i m sz t flg) = Some st'"
  shows "one_queue st a st'"
  using assms remove_first_found [OF assms(2), of msize]
  by (auto simp: msgrcv_take_def Let_def queue_ok_def split: if_splits intro!: one_obj_upd)

lemma put_one_queue:
  assumes "objs st a = Some i" "out_state (msgsnd_put k h b st a i src sz) = Some st'"
  shows "one_queue st a st'"
  using assms
  by (auto simp: msgsnd_put_def Let_def queue_ok_def split: if_splits intro!: one_obj_upd)

text \<open>
  Both loops end, because every turn takes a count from the semaphore, and touch only the
  queue on which they wait.
\<close>

lemma rcv_loop_ends:
  assumes "objs st a = Some i"
  shows "\<exists>out. msgrcv_loop k a sz t flg st = Some out
           \<and> (\<forall>st'. out_state out = Some st' \<longrightarrow> one_queue st a st')"
  using assms
proof (induction "unat (rwaitsem i)" arbitrary: i st rule: less_induct)
  case less
  let ?i = "i\<lparr>rwaitsem := rwaitsem i - 1\<rparr>" and ?st = "upd_obj st a (i\<lparr>rwaitsem := rwaitsem i - 1\<rparr>)"
  note tr = one_obj_trans [OF less.prems, of m_id ?i queue_ok]
  show ?case
  proof (cases "rwaitsem i = 0")
    case True
    then show ?thesis using less.prems
      by (subst msgrcv_loop.simps) (auto simp: semaphore_ndown_eq intro!: one_obj_upd)
  next
    case False
    have ih: "\<exists>out. msgrcv_loop k a sz t flg ?st = Some out
           \<and> (\<forall>st'. out_state out = Some st' \<longrightarrow> one_queue ?st a st')"
      using less.hyps [of ?i ?st] False by (auto simp: unat_decr unat_gt_0)
    show ?thesis
    proof (cases "m_del i")
      case True
      then show ?thesis using False less.prems tr unref_one_queue [of ?st a ?i]
        by (subst msgrcv_loop.simps) (auto simp: semaphore_ndown_eq Let_def)
    next
      case nd: False
      show ?thesis
      proof (cases "find (msg_recv_iterator t) (msgs i)")
        case None
        then show ?thesis using False nd less.prems tr ih
          by (subst msgrcv_loop.simps) (auto simp: semaphore_ndown_eq Let_def)
      next
        case (Some m)
        then show ?thesis using False nd less.prems tr take_one_queue [of ?st a ?i t m]
          by (subst msgrcv_loop.simps) (auto simp: semaphore_ndown_eq Let_def)
      qed
    qed
  qed
qed

lemma snd_loop_ends:
  assumes "objs st a = Some i"
  shows "\<exists>out. msgsnd_loop k h b a src sz st = Some out
           \<and> (\<forall>st'. out_state out = Some st' \<longrightarrow> one_queue st a st')"
  using assms
proof (induction "unat (swaitsem i)" arbitrary: i st rule: less_induct)
  case less
  let ?i = "i\<lparr>swaitsem := swaitsem i - 1\<rparr>" and ?st = "upd_obj st a (i\<lparr>swaitsem := swaitsem i - 1\<rparr>)"
  let ?r = "i\<lparr>m_refs := m_refs i - 1\<rparr>"
  note tr = one_obj_trans [OF less.prems, of m_id ?i queue_ok]
  have upd: "msgsnd_put k h b st a ?r src sz = msgsnd_put k h b (upd_obj st a ?r) a ?r src sz"
    by (simp add: msgsnd_put_def Let_def)
  show ?case
  proof (cases "used_bytes i \<ge> msg_qbytes i")
    case False
    then show ?thesis
      using less.prems upd put_one_queue [of "upd_obj st a ?r" a ?r k h b src sz]
        one_obj_trans [OF less.prems, of m_id ?r queue_ok]
      by (subst msgsnd_loop.simps) auto
  next
    case full: True
    show ?thesis
    proof (cases "swaitsem i = 0")
      case True
      then show ?thesis using full less.prems
        by (subst msgsnd_loop.simps) (auto simp: semaphore_ndown_eq intro!: one_obj_upd)
    next
      case False
      have ih: "\<exists>out. msgsnd_loop k h b a src sz ?st = Some out
           \<and> (\<forall>st'. out_state out = Some st' \<longrightarrow> one_queue ?st a st')"
        using less.hyps [of ?i ?st] False by (auto simp: unat_decr unat_gt_0)
      then show ?thesis using full False less.prems tr unref_one_queue [of ?st a ?i]
        by (subst msgsnd_loop.simps) (auto simp: semaphore_ndown_eq Let_def)
    qed
  qed
qed


section \<open>Calls\<close>

text \<open>
  Everything that happens to the table: a system call up to its return or to the point
  where it sleeps, the resumption of a sleeping call, and the scheduler taking a
  count from a semaphore.
\<close>

inductive msg_call :: "msg_st \<Rightarrow> msg_st \<Rightarrow> bool" where
  rcv: "sys_msgrcv k n p sz t flg st = Some out \<Longrightarrow> out_state out = Some st' \<Longrightarrow> msg_call st st'"
| rcv_resume: "msgrcv_resume k a sz t flg s st = Some out \<Longrightarrow> out_state out = Some st' \<Longrightarrow> msg_call st st'"
| snd: "sys_msgsnd k h b n p src sz flg st = Some out \<Longrightarrow> out_state out = Some st' \<Longrightarrow> msg_call st st'"
| snd_resume: "msgsnd_resume k h b a src sz s st = Some out \<Longrightarrow> out_state out = Some st' \<Longrightarrow> msg_call st st'"
| ctl: "sys_msgctl k n cmd c u st = Inr (r, st') \<Longrightarrow> msg_call st st'"
| get: "(\<And>a. new = Some a \<Longrightarrow> objs st a = None) \<Longrightarrow>
        sys_msgget k new key flags st = Inr (r, st') \<Longrightarrow> msg_call st st'"
| taken: "objs st a = Some i \<Longrightarrow> msg_call st (upd_obj st a (i\<lparr>rwaitsem := x, swaitsem := y\<rparr>))"

lemma rcv_call:
  assumes "sys_msgrcv k n p sz t flg st = Some out" "out_state out = Some st'"
  shows "st' = st \<or> (\<exists>a. one_queue st a st')"
proof (cases "msg_get_by_id st n")
  case (Some a)
  then obtain i where i: "objs st a = Some i" by (auto simp: msg_get_by_id_def dest: find_objD)
  let ?i = "i\<lparr>m_refs := m_refs i + 1\<rparr>"
  show ?thesis
  proof (cases "find (msg_recv_iterator t) (msgs i)")
    case None
    then show ?thesis using assms Some i rcv_loop_ends [of "upd_obj st a ?i" a ?i k "sz + 4" t flg]
        one_obj_trans [OF i, of m_id ?i queue_ok st']
      by (auto simp: sys_msgrcv_def Let_def split: if_splits)
  next
    case m: (Some m)
    then show ?thesis using assms Some i take_one_queue [OF i m, of k "sz + 4" flg]
      by (auto simp: sys_msgrcv_def Let_def split: if_splits)
  qed
qed (use assms in \<open>auto simp: sys_msgrcv_def Let_def split: if_splits\<close>)

lemma rcv_resume_call:
  assumes "msgrcv_resume k a sz t flg s st = Some out" "out_state out = Some st'"
  shows "one_queue st a st'"
proof (cases "objs st a")
  case None
  with assms show ?thesis by (auto simp: msgrcv_resume_def)
next
  case i: (Some i)
  show ?thesis
  proof (cases "find (msg_recv_iterator t) (msgs i)")
    case None
    then show ?thesis using assms i rcv_loop_ends [OF i, of k "sz + 4" t flg] unref_one_queue [OF i]
      by (auto simp: msgrcv_resume_def split: if_splits)
  next
    case (Some m)
    then show ?thesis using assms i take_one_queue [OF i Some, of k "sz + 4" flg] unref_one_queue [OF i]
      by (auto simp: msgrcv_resume_def split: if_splits)
  qed
qed

lemma snd_call:
  assumes "sys_msgsnd k h b n p src sz flg st = Some out" "out_state out = Some st'"
  shows "st' = st \<or> (\<exists>a. one_queue st a st')"
proof (cases "msg_get_by_id st n")
  case (Some a)
  then obtain i where i: "objs st a = Some i" by (auto simp: msg_get_by_id_def dest: find_objD)
  let ?i = "i\<lparr>m_refs := m_refs i + 1\<rparr>"
  show ?thesis using assms Some i snd_loop_ends [of "upd_obj st a ?i" a ?i k h b src "4 + sz"]
        one_obj_trans [OF i, of m_id ?i queue_ok st'] put_one_queue [OF i, of k h b src "4 + sz"]
    by (auto simp: sys_msgsnd_def Let_def split: if_splits)
qed (use assms in \<open>auto simp: sys_msgsnd_def Let_def split: if_splits\<close>)

lemma snd_resume_call:
  assumes "msgsnd_resume k h b a src sz s st = Some out" "out_state out = Some st'"
  shows "one_queue st a st'"
proof (cases "objs st a")
  case None
  with assms show ?thesis by (auto simp: msgsnd_resume_def)
next
  case i: (Some i)
  show ?thesis using assms i snd_loop_ends [OF i, of k h b src "4 + sz"] unref_one_queue [OF i]
    by (auto simp: msgsnd_resume_def split: if_splits)
qed

lemma ctl_call:
  assumes "sys_msgctl k n cmd c u st = Inr (r, st')"
  shows "st' = st \<or> (\<exists>a. one_queue st a st')"
proof (cases "msg_get_by_id st n")
  case (Some a)
  then obtain i where i: "objs st a = Some i" by (auto simp: msg_get_by_id_def dest: find_objD)
  have "one_queue st a (del_obj st a)" using i by (auto simp: one_obj_def)
  then show ?thesis using assms Some i
    by (auto simp: sys_msgctl_def Let_def msg_do_delete_def split: if_splits intro!: one_obj_upd exI [of _ a])
qed (use assms in \<open>auto simp: sys_msgctl_def\<close>)

lemma get_call:
  assumes ok: "msg_ok st" and f: "\<And>a. new = Some a \<Longrightarrow> objs st a = None"
    and g: "sys_msgget k new key flags st = Inr (r, st')"
  shows "msg_ok st' \<and> reg_step m_id st st'"
proof (cases "\<exists>a n st1. new = Some a \<and> alloc_id st = (Some n, st1) \<and> st' = add_obj st1 a (new_queue k key n flags)")
  case True
  then obtain a n st1 where a: "new = Some a" "alloc_id st = (Some n, st1)"
      "st' = add_obj st1 a (new_queue k key n flags)" by blast
  show ?thesis unfolding a(3)
    by (rule add_obj_ok [OF ok a(2) f [OF a(1)]]) (simp_all add: new_queue_def queue_ok_def)
next
  case False
  then have "st' = st" using g
    by (auto simp: sys_msgget_def Let_def msg_alloc_id_def alloc_id_def split: if_splits option.splits)
  then show ?thesis using ok by (simp add: reg_step_refl)
qed

lemma msg_call_ok:
  assumes "msg_call st st'" "msg_ok st"
  shows "msg_ok st' \<and> reg_step m_id st st'"
  using assms
proof (cases rule: msg_call.cases)
  case rcv
  then show ?thesis using rcv_call [OF rcv] one_obj_ok assms(2) reg_step_refl by blast
next
  case rcv_resume
  then show ?thesis using rcv_resume_call [OF rcv_resume] one_obj_ok assms(2) by blast
next
  case snd
  then show ?thesis using snd_call [OF snd] one_obj_ok assms(2) reg_step_refl by blast
next
  case snd_resume
  then show ?thesis using snd_resume_call [OF snd_resume] one_obj_ok assms(2) by blast
next
  case ctl
  then show ?thesis using ctl_call [OF ctl] one_obj_ok assms(2) reg_step_refl by blast
next
  case get
  then show ?thesis using get_call assms(2) by blast
next
  case (taken a i x y)
  then have "one_queue st a st'" by (auto intro!: one_obj_upd)
  then show ?thesis using one_obj_ok assms(2) by blast
qed

text \<open>
  The table of queues with the invariant of the queues as a table of System V objects.
\<close>

interpretation mq: ipc_objects "\<lambda>st. st" m_id queue_ok msg_call
  using msg_call_ok by unfold_locales blast

lemma msg_init_ok: "msg_ok msg_init"
  by (simp add: msg_init_def table_ok_empty)

section \<open>What sending and receiving do\<close>

lemma take_eq:
  assumes "queue_ok i" "find (msg_recv_iterator t) (msgs i) = Some m" "msize m \<le> sz"
  shows "msgrcv_take k st a i m sz t flg =
           Return (Inr (msize m - 4, mtext m))
             (upd_obj st a (i\<lparr>msgs := remove_first (msg_recv_iterator t) (msgs i),
                        msg_qnum := msg_qnum i - 1, used_bytes := used_bytes i - msize m,
                        m_refs := m_refs i - 1, msg_lrpid := k_pid k, msg_rtime := k_time k,
                        swaitsem := semaphore_up (swaitsem i)\<rparr>))"
  using assms remove_first_found [OF assms(2), of msize] by (auto simp: msgrcv_take_def queue_ok_def)

lemma find_remove_first:
  "\<forall>x \<in> set xs. \<not> P x \<Longrightarrow> P m \<Longrightarrow> find P (xs @ m # ys) = Some m \<and> remove_first P (xs @ m # ys) = xs @ ys"
  by (induction xs) auto

lemma rcv_loop_sleeps:
  assumes "objs st a = Some i" "\<not> m_del i" "find (msg_recv_iterator t) (msgs i) = None"
  shows "msgrcv_loop k a sz t flg st = Some (Sleep a (upd_obj st a (i\<lparr>rwaitsem := 0\<rparr>)))"
  using assms
proof (induction "unat (rwaitsem i)" arbitrary: i st rule: less_induct)
  case less
  show ?case
  proof (cases "rwaitsem i = 0")
    case True
    then show ?thesis using less.prems by (subst msgrcv_loop.simps) (simp add: semaphore_ndown_eq)
  next
    case False
    let ?i = "i\<lparr>rwaitsem := rwaitsem i - 1\<rparr>"
    have "unat (rwaitsem ?i) < unat (rwaitsem i)" using False by (simp add: unat_decr unat_gt_0)
    from less.hyps [OF this, of "upd_obj st a ?i"] False less.prems show ?thesis
      by (subst msgrcv_loop.simps) (simp add: semaphore_ndown_eq Let_def)
  qed
qed

lemma snd_loop_sleeps:
  assumes "objs st a = Some i" "\<not> m_del i" "used_bytes i \<ge> msg_qbytes i"
  shows "msgsnd_loop k h b a src sz st = Some (Sleep a (upd_obj st a (i\<lparr>swaitsem := 0\<rparr>)))"
  using assms
proof (induction "unat (swaitsem i)" arbitrary: i st rule: less_induct)
  case less
  show ?case
  proof (cases "swaitsem i = 0")
    case True
    then show ?thesis using less.prems by (subst msgsnd_loop.simps) (simp add: semaphore_ndown_eq)
  next
    case False
    let ?i = "i\<lparr>swaitsem := swaitsem i - 1\<rparr>"
    have "unat (swaitsem ?i) < unat (swaitsem i)" using False by (simp add: unat_decr unat_gt_0)
    from less.hyps [OF this, of "upd_obj st a ?i"] False less.prems show ?thesis
      by (subst msgsnd_loop.simps) (simp add: semaphore_ndown_eq Let_def)
  qed
qed

text \<open>A send that returns success has appended the message, and has raised the semaphore.\<close>

lemma snd_success:
  assumes "sys_msgsnd k h b n p src sz flg st = Some (Return (Inr ()) st1)"
    "msg_get_by_id st n = Some a" "objs st a = Some i"
  shows "st1 = upd_obj st a (i\<lparr>msg_qnum := msg_qnum i + 1, used_bytes := used_bytes i + (4 + sz),
                msg_lspid := k_pid k, msg_stime := k_time k,
                msgs := msgs i @ [\<lparr>mtype = le32 src, msize = 4 + sz, mtext = take (unat (4 + sz)) src\<rparr>],
                rwaitsem := semaphore_up (rwaitsem i)\<rparr>)
      \<and> \<not> m_del i \<and> unat (4 + sz) \<le> length src \<and> 0 < sint (le32 src)"
  using assms snd_loop_sleeps [of "upd_obj st a (i\<lparr>m_refs := m_refs i + 1\<rparr>)" a "i\<lparr>m_refs := m_refs i + 1\<rparr>" k h b src "4 + sz"]
  by (auto simp: sys_msgsnd_def msgsnd_put_def Let_def split: if_splits)

lemma msg_get_by_id_upd:
  "msg_get_by_id st n = Some a \<Longrightarrow> objs st a = Some i \<Longrightarrow> m_id j = m_id i \<Longrightarrow>
     msg_get_by_id (upd_obj st a j) n = Some a"
  unfolding msg_get_by_id_def by (rule find_obj_upd)

text \<open>A queue owned by the superuser, in an empty table, and a two-byte message of type 7.\<close>

definition k_example :: kctx where
  "k_example = \<lparr>k_creds = \<lparr>uid = 0, effective_uid = 0, gid = 0, effective_gid = 0\<rparr>, k_pid = 3, k_time = 9\<rparr>"

definition q_example :: msg_info where
  "q_example = new_queue k_example IPC_PRIVATE 0 448"

definition msg_example :: msg_st where
  "msg_example = add_obj (msg_init\<lparr>ctr := 1\<rparr>) 8 q_example"

definition body_example :: "u8 list" where
  "body_example = [7, 0, 0, 0, 65, 66]"


section \<open>Properties\<close>

text \<open>
  C16.  After any sequence of calls from an empty table the counters of every queue
  describe its messages, no two queues have the same identifier, and an identifier
  whose queue is gone stays unused whatever calls follow.
\<close>

theorem msg_table_invariant:
  assumes "msg_call\<^sup>*\<^sup>* msg_init st" "msg_call\<^sup>*\<^sup>* st st'"
  shows "(\<forall>a i. objs st' a = Some i \<longrightarrow>
             msg_qnum i = of_nat (length (msgs i)) \<and> used_bytes i = sum_list (map msize (msgs i)))
    \<and> (\<forall>a b i j. objs st' a = Some i \<and> objs st' b = Some j \<and> m_id i = m_id j \<longrightarrow> a = b)
    \<and> (\<forall>n. n \<notin> ids m_id st \<and> sint n < sint (ctr st) \<longrightarrow> n \<notin> ids m_id st')"
proof -
  have ok: "msg_ok st" using mq.calls_ok [OF assms(1) msg_init_ok] by blast
  show ?thesis
    using mq.ids_unique [OF assms(2) ok] mq.id_not_reused [OF assms(2) ok] mq.objects_good [OF assms(2) ok]
    unfolding queue_ok_def by blast
qed

text \<open>
  C18.  A receive takes the first message that matches the requested type, in the order in
  which the messages were sent, returns its bytes when they fit, and leaves the other
  messages in their order.
\<close>

theorem msgrcv_takes_first:
  assumes "msg_ok st" "msg_get_by_id st n = Some a" "objs st a = Some i" "p \<noteq> NULL" "\<not> m_del i"
    "ipc_have_permissions (k_creds k) (msg_perm i) IPC_PERM_READ"
    "msgs i = xs @ m # ys" "\<forall>x \<in> set xs. \<not> msg_recv_iterator t x" "msg_recv_iterator t m" "msize m \<le> sz + 4"
  shows "\<exists>st' j. sys_msgrcv k n p sz t flg st = Some (Return (Inr (msize m - 4, mtext m)) st')
           \<and> objs st' a = Some j \<and> msgs j = xs @ ys \<and> used_bytes j = used_bytes i - msize m
           \<and> (\<forall>b. b \<noteq> a \<longrightarrow> objs st' b = objs st b)"
proof -
  have f: "find (msg_recv_iterator t) (msgs i) = Some m \<and> remove_first (msg_recv_iterator t) (msgs i) = xs @ ys"
    using find_remove_first [of xs "msg_recv_iterator t" m ys] assms(7-9) by simp
  have q: "queue_ok i" using assms(1,3) by (simp add: table_ok_def)
  show ?thesis
    using take_eq [OF q conjunct1 [OF f] assms(10), of k st a flg] f assms(2-6) by (simp add: sys_msgrcv_def)
qed

text \<open>
  C17.  What a successful send stored is what the next matching receive returns: the same
  bytes and the same size, and the queue is as full as before the send.
\<close>

theorem msg_round_trip:
  assumes "msg_ok st" "msg_get_by_id st n = Some a" "objs st a = Some i" "p' \<noteq> NULL"
    "sys_msgsnd k h b n p src sz flg st = Some (Return (Inr ()) st1)"
    "ipc_have_permissions (k_creds k') (msg_perm i) IPC_PERM_READ"
    "\<forall>m \<in> set (msgs i). \<not> msg_recv_iterator t m" "t = 0 \<or> t = le32 src"
  shows "\<exists>st2 j. sys_msgrcv k' n p' sz t flg' st1 = Some (Return (Inr (sz, take (unat (4 + sz)) src)) st2)
           \<and> objs st2 a = Some j \<and> msgs j = msgs i \<and> used_bytes j = used_bytes i \<and> msg_qnum j = msg_qnum i"
proof -
  let ?m = "\<lparr>mtype = le32 src, msize = 4 + sz, mtext = take (unat (4 + sz)) src\<rparr>"
  let ?i = "i\<lparr>msg_qnum := msg_qnum i + 1, used_bytes := used_bytes i + (4 + sz), msg_lspid := k_pid k,
              msg_stime := k_time k, msgs := msgs i @ [?m], rwaitsem := semaphore_up (rwaitsem i)\<rparr>"
  note snd = snd_success [OF assms(5,2,3)]
  have st1: "st1 = upd_obj st a ?i" and nd: "\<not> m_del i" and l: "unat (4 + sz) \<le> length src"
    using snd by blast+
  have m: "msg_recv_iterator t ?m" using assms(8) snd by (auto simp: msg_recv_iterator_def)
  have f: "find (msg_recv_iterator t) (msgs ?i) = Some ?m \<and> remove_first (msg_recv_iterator t) (msgs ?i) = msgs i"
    using find_remove_first [OF assms(7) m, of "[]"] by simp
  have "queue_ok i" using assms(1,3) by (simp add: table_ok_def)
  then have q: "queue_ok ?i" using l by (auto simp: queue_ok_def)
  have g: "msg_get_by_id st1 n = Some a" unfolding st1 by (rule msg_get_by_id_upd [OF assms(2,3)]) simp
  have le: "msize ?m \<le> sz + 4" by (simp add: add.commute)
  show ?thesis
    using take_eq [OF q conjunct1 [OF f] le, of k' st1 a flg'] f nd assms(4,6) g
    by (simp add: sys_msgrcv_def st1)
qed

text \<open>
  C19.  A receiver that goes to sleep sleeps on a semaphore with no count, so it waits for
  the next send; the send raises the semaphore, and when the receiver is resumed it is
  handed the message that was sent, if that matches.
\<close>

theorem msg_receiver_served:
  assumes "msg_ok st" "msg_get_by_id st n = Some a" "objs st a = Some i"
    "sys_msgrcv k n p sz t flg st = Some (Sleep a st1)"
    "sys_msgsnd k' h b n p' src sz flg' st1 = Some (Return (Inr ()) st2)" "t = 0 \<or> t = le32 src"
  shows "\<exists>i1 i2 st3. objs st1 a = Some i1 \<and> rwaitsem i1 = 0 \<and> m_refs i1 = m_refs i + 1
      \<and> objs st2 a = Some i2 \<and> rwaitsem i2 = 1
      \<and> msgrcv_resume k a sz t flg SCHED_WAIT_OK (upd_obj st2 a (i2\<lparr>rwaitsem := 0\<rparr>)) =
          Some (Return (Inr (sz, take (unat (4 + sz)) src)) st3)"
proof -
  have nf: "find (msg_recv_iterator t) (msgs i) = None" and nd: "\<not> m_del i"
    using assms(2,3,4) by (auto simp: sys_msgrcv_def msgrcv_take_def Let_def split: if_splits option.splits)
  let ?i1 = "i\<lparr>m_refs := m_refs i + 1, rwaitsem := 0\<rparr>"
  have st1: "st1 = upd_obj st a ?i1"
    using assms(2,3,4) nf nd rcv_loop_sleeps [of "upd_obj st a (i\<lparr>m_refs := m_refs i + 1\<rparr>)" a "i\<lparr>m_refs := m_refs i + 1\<rparr>" t]
    by (auto simp: sys_msgrcv_def Let_def split: if_splits)
  have g: "msg_get_by_id st1 n = Some a" unfolding st1 by (rule msg_get_by_id_upd [OF assms(2,3)]) simp
  have o1: "objs st1 a = Some ?i1" by (simp add: st1)
  let ?m = "\<lparr>mtype = le32 src, msize = 4 + sz, mtext = take (unat (4 + sz)) src\<rparr>"
  let ?i2 = "?i1\<lparr>msg_qnum := msg_qnum i + 1, used_bytes := used_bytes i + (4 + sz), msg_lspid := k_pid k',
              msg_stime := k_time k', msgs := msgs i @ [?m], rwaitsem := 1\<rparr>"
  let ?j = "?i2\<lparr>rwaitsem := 0\<rparr>"
  have st2: "st2 = upd_obj st1 a ?i2" and l: "unat (4 + sz) \<le> length src"
      and snd: "0 < sint (le32 src)"
    using snd_success [OF assms(5) g o1] by (simp_all add: semaphore_up_def)
  have m: "msg_recv_iterator t ?m" using assms(6) snd by (auto simp: msg_recv_iterator_def)
  have f: "find (msg_recv_iterator t) (msgs ?j) = Some ?m"
    using find_remove_first [of "msgs i" "msg_recv_iterator t" ?m "[]"] m nf by (simp add: find_None_iff)
  have "queue_ok i" using assms(1,3) by (simp add: table_ok_def)
  then have q: "queue_ok ?j" using l by (auto simp: queue_ok_def)
  have le: "msize ?m \<le> sz + 4" by (simp add: add.commute)
  have "\<exists>st3. msgrcv_resume k a sz t flg SCHED_WAIT_OK (upd_obj st2 a ?j) =
          Some (Return (Inr (sz, take (unat (4 + sz)) src)) st3)"
    using take_eq [OF q f le, of k "upd_obj st2 a ?j" a flg] nd f by (simp add: msgrcv_resume_def st2)
  then show ?thesis using o1 st2 by auto
qed


lemma msg_example_call: "msg_call msg_init msg_example"
proof (rule msg_call.get)
  show "sys_msgget k_example (Some 8) IPC_PRIVATE 448 msg_init = Inr (Inr 0, msg_example)"
    by (simp add: sys_msgget_def msg_example_def q_example_def msg_alloc_id_def alloc_id_def msg_init_def)
qed (auto simp: msg_init_def)

lemma msg_example_ok: "msg_ok msg_example"
  using msg_call_ok [OF msg_example_call msg_init_ok] by blast

lemma msg_example_obj: "objs msg_example 8 = Some q_example" "msg_get_by_id msg_example 0 = Some 8"
  "\<not> m_del q_example" "msgs q_example = []" "m_refs q_example = 0" "\<not> msg_qbytes q_example \<le> used_bytes q_example"
  by (simp_all add: msg_example_def msg_get_by_id_def find_obj_def msg_init_def q_example_def new_queue_def
      CONFIG_SYSV_MSG_SIZE_LIMIT_def)

lemma msg_example_perm:
  "ipc_have_permissions (k_creds k_example) (msg_perm q_example) IPC_PERM_READ"
  "ipc_have_permissions (k_creds k_example) (msg_perm q_example) IPC_PERM_WRITE"
  by code_simp+

lemma body_example: "le32 body_example = 7" "length body_example = 6"
  by code_simp+

definition m_example :: sysv_msg where
  "m_example = \<lparr>mtype = 7, msize = 6, mtext = body_example\<rparr>"

definition put_example :: "msg_info \<Rightarrow> msg_info" where
  "put_example i = i\<lparr>msg_qnum := msg_qnum i + 1, used_bytes := used_bytes i + 6, msg_lspid := 3,
      msg_stime := 9, msgs := msgs i @ [m_example], rwaitsem := rwaitsem i + 1\<rparr>"

lemma msg_example_snd:
  assumes "msg_get_by_id st 0 = Some 8" "objs st 8 = Some i" "msg_perm i = msg_perm q_example" "\<not> m_del i"
    "\<not> msg_qbytes i \<le> used_bytes i"
  shows "sys_msgsnd k_example True True 0 4 body_example 2 0 st =
    Some (Return (Inr ()) (upd_obj st 8 (put_example i)))"
  using assms msg_example_perm body_example
  by (simp add: sys_msgsnd_def msgsnd_put_def put_example_def m_example_def k_example_def semaphore_up_def)

lemmas msg_examples = msg_example_obj msg_example_perm msg_example_ok body_example
  msg_example_snd [OF msg_example_obj(2,1) refl msg_example_obj(3,6)]

theorem msg_table_invariant_witness:
  "msg_call msg_init msg_example \<and> objs msg_example 8 = Some q_example
     \<and> used_bytes q_example = sum_list (map msize (msgs q_example))"
proof -
  have "msg_call\<^sup>*\<^sup>* msg_init msg_example" using msg_example_call by blast
  from msg_table_invariant [OF this rtranclp.rtrancl_refl] msg_example_obj(1) msg_example_call
  show ?thesis by blast
qed

theorem msg_round_trip_witness:
  "\<exists>st1 st2. sys_msgsnd k_example True True 0 4 body_example 2 0 msg_example = Some (Return (Inr ()) st1)
     \<and> sys_msgrcv k_example 0 4 2 7 0 st1 = Some (Return (Inr (2, body_example)) st2)"
  using msg_round_trip [of msg_example 0 8 q_example 4 k_example True True 4 body_example 2 0 _ k_example 7 0]
  by (fastforce simp: msg_examples)

theorem msgrcv_takes_first_witness:
  "\<exists>st2. sys_msgrcv k_example 0 4 2 7 0 (upd_obj msg_example 8 (put_example q_example)) =
      Some (Return (Inr (2, body_example)) st2)"
proof -
  let ?st = "upd_obj msg_example 8 (put_example q_example)"
  have "msg_call msg_example ?st"
    by (rule msg_call.snd [OF msg_examples(12)]) simp
  then have ok: "msg_ok ?st" using msg_call_ok msg_example_ok by blast
  show ?thesis
    using msgrcv_takes_first [of ?st 0 8 "put_example q_example" 4 k_example "[]" m_example "[]" 7 2 0] ok
      msg_get_by_id_upd [OF msg_example_obj(2,1), of "put_example q_example"]
    by (auto simp: msg_examples put_example_def m_example_def msg_recv_iterator_def)
qed

theorem msg_receiver_served_witness:
  "\<exists>st1 st2 st3 st4. sys_msgrcv k_example 0 4 2 7 0 msg_example = Some (Sleep 8 st1)
     \<and> sys_msgsnd k_example True True 0 4 body_example 2 0 st1 = Some (Return (Inr ()) st2)
     \<and> msgrcv_resume k_example 8 2 7 0 SCHED_WAIT_OK st3 = Some (Return (Inr (2, body_example)) st4)"
proof -
  let ?q = "q_example\<lparr>m_refs := 1\<rparr>"
  let ?st1 = "upd_obj msg_example 8 (?q\<lparr>rwaitsem := 0\<rparr>)"
  have r: "sys_msgrcv k_example 0 4 2 7 0 msg_example = Some (Sleep 8 ?st1)"
    using rcv_loop_sleeps [of "upd_obj msg_example 8 ?q" 8 ?q 7 k_example 6 0]
    by (simp add: sys_msgrcv_def msg_examples flag_def IPC_NOWAIT_def)
  have g: "msg_get_by_id ?st1 0 = Some 8" by (rule msg_get_by_id_upd [OF msg_examples(2,1)]) simp
  have s: "sys_msgsnd k_example True True 0 4 body_example 2 0 ?st1 =
             Some (Return (Inr ()) (upd_obj ?st1 8 (put_example (?q\<lparr>rwaitsem := 0\<rparr>))))"
    by (rule msg_example_snd [OF g]) (simp_all add: msg_examples)
  show ?thesis
    using msg_receiver_served [OF msg_examples(9,2,1) r s] r s by (auto simp: body_example)
qed

section \<open>Reference counting of the queues\<close>

text \<open>
  \<^verbatim>\<open>_sys_msgrcv\<close> takes a reference only when it has to wait, but gives one back whenever
  it delivers a message.  A queue nobody waits on therefore ends with a count of
  \<open>-1\<close>, and \<^verbatim>\<open>IPC_RMID\<close> then marks it but never deletes it.
\<close>

lemma msgrcv_refs_underflow:
  assumes "objs st a = Some i" "m_refs i = 0" "msg_get_by_id st n = Some a" "queue_ok i" "p \<noteq> NULL" "\<not> m_del i"
    "ipc_have_permissions (k_creds k) (msg_perm i) IPC_PERM_READ" "ipc_is_owner (k_creds k) (msg_perm i)"
    "find (msg_recv_iterator t) (msgs i) = Some m" "msize m \<le> sz + 4"
  shows "\<exists>st1 st2 j. sys_msgrcv k n p sz t flg st = Some (Return (Inr (msize m - 4, mtext m)) st1)
    \<and> sys_msgctl k n IPC_RMID c u st1 = Inr (Inr None, st2)
    \<and> objs st2 a = Some j \<and> m_del j \<and> m_refs j = - 1"
  using take_eq [OF assms(4,9,10), of k st a flg] msg_get_by_id_upd [OF assms(3,1)] assms
  by (simp add: sys_msgrcv_def sys_msgctl_def IPC_RMID_def IPC_SET_def IPC_STAT_def Let_def)

text \<open>
  With a waiting receiver the count reaches zero too early: a second receiver that is
  served at once gives back the reference of the first, \<^verbatim>\<open>IPC_RMID\<close> deletes the queue, and
  the first receiver uses freed memory when it is resumed.
\<close>

lemma msgrcv_use_after_free:
  assumes "objs st a = Some i" "m_refs i = 1" "msg_get_by_id st n = Some a" "queue_ok i" "p \<noteq> NULL" "\<not> m_del i"
    "ipc_have_permissions (k_creds k) (msg_perm i) IPC_PERM_READ" "ipc_is_owner (k_creds k) (msg_perm i)"
    "find (msg_recv_iterator t) (msgs i) = Some m" "msize m \<le> sz + 4"
  shows "\<exists>st1 st2. sys_msgrcv k n p sz t flg st = Some (Return (Inr (msize m - 4, mtext m)) st1)
    \<and> sys_msgctl k n IPC_RMID c u st1 = Inr (Inr None, st2)
    \<and> msgrcv_resume k' a sz' t' flg' w st2 = Some (Crash Use_After_Free)"
  using take_eq [OF assms(4,9,10), of k st a flg] msg_get_by_id_upd [OF assms(3,1)] assms
  by (simp add: sys_msgrcv_def sys_msgctl_def msg_do_delete_def msgrcv_resume_def IPC_RMID_def IPC_SET_def
      IPC_STAT_def)

end
