(* ===== verification/Svipc_Sem.thy ===== *)
theory Svipc_Sem
  imports Svipc
begin

text \<open>
  The semaphore sets of \<^verbatim>\<open>kernel/svipc/sem.c\<close>.  A set is an object of the table of \<open>Svipc\<close>;
  its array of semaphores is a list whose length is the number of elements that were
  allocated.  \<^verbatim>\<open>short\<close> arguments are 16-bit words read with \<^const>\<open>sint\<close>.
\<close>

section \<open>State\<close>

record sysv_sem =
  semval :: u16
  sempid :: u32
  semncnt :: u16
  semzcnt :: u16

record sem_info =
  s_key :: u32
  s_id :: u32
  s_del :: bool
  s_refs :: u32
  nwaitsem :: semaphore
  zwaitsem :: semaphore
  sem_perm :: ipc_perm
  sem_nsems :: u16
  sem_otime :: u32
  sem_ctime :: u32
  sems :: "sysv_sem list"

record sembuf =
  sem_num :: u16
  sem_op :: u16
  sem_flg :: u16

type_synonym sem_st = "sem_info registry"

definition GETNCNT :: u32 where "GETNCNT = 3"
definition GETPID :: u32 where "GETPID = 4"
definition GETVAL :: u32 where "GETVAL = 5"
definition GETALL :: u32 where "GETALL = 6"
definition GETZCNT :: u32 where "GETZCNT = 7"
definition SETVAL :: u32 where "SETVAL = 8"
definition SETALL :: u32 where "SETALL = 9"

section \<open>Operations\<close>

definition sem_init :: sem_st where
  "sem_init = \<lparr>objs = \<lambda>_. None, order = [], ctr = 0\<rparr>"

definition sem_get_by_key :: "sem_st \<Rightarrow> u32 \<Rightarrow> addr option" where
  "sem_get_by_key st key = find_obj (\<lambda>i. s_key i = key) st"

definition sem_get_by_id :: "sem_st \<Rightarrow> u32 \<Rightarrow> addr option" where
  "sem_get_by_id st semid = find_obj (\<lambda>i. s_id i = semid) st"

definition sem_alloc_id :: "sem_st \<Rightarrow> u32 option \<times> sem_st" where
  "sem_alloc_id st = alloc_id st"

definition sem_do_delete :: "sem_st \<Rightarrow> addr \<Rightarrow> sem_st" where
  "sem_do_delete st a = del_obj st a"

definition checkblock_int :: "sem_info \<Rightarrow> u16 \<Rightarrow> u16 \<Rightarrow> bool exec" where
  "checkblock_int info semnum semop =
     (if sint semnum < 0 \<or> \<not> sint semnum < uint (sem_nsems info) then Inl Assert_Failed
      else if length (sems info) \<le> unat semnum then Inl Out_Of_Bounds
      else let v = semval (sems info ! unat semnum) in
           if semop = 0 then Inr (v \<noteq> 0)
           else if sint semop > 0 then Inr False
           else Inr (uint v < - sint semop))"

definition sys_semop_int :: "kctx \<Rightarrow> sem_info \<Rightarrow> u16 \<Rightarrow> u16 \<Rightarrow> ((errno + unit) \<times> sem_info) exec" where
  "sys_semop_int k info semnum semop =
     (if sint semnum < 0 \<or> sint semnum \<ge> uint (sem_nsems info) then Inr (Inl EFBIG, info)
      else if length (sems info) \<le> unat semnum then Inl Out_Of_Bounds
      else let n = unat semnum; s = sems info ! n in
           if semop = 0
           then if semval s = 0 then Inr (Inr (), info) else Inl Assert_Failed
           else if sint semop > 0
           then Inr (Inr (), info\<lparr>sems := (sems info)[n := s\<lparr>semval := semval s + semop, sempid := k_pid k\<rparr>],
                                  nwaitsem := semaphore_add (nwaitsem info) (ucast (semncnt s))\<rparr>)
           else if uint (semval s) \<ge> - sint semop
           then let s' = s\<lparr>semval := semval s - (- semop), sempid := k_pid k\<rparr>;
                    z = (if semval s' = 0 then semaphore_add (zwaitsem info) (ucast (semzcnt s))
                         else zwaitsem info)
                in Inr (Inr (), info\<lparr>sems := (sems info)[n := s'], zwaitsem := z\<rparr>)
           else Inl Assert_Failed)"

text \<open>The scan for the first operation that has to wait, with its position in the array.\<close>

fun semop_scan :: "sem_info \<Rightarrow> nat \<Rightarrow> sembuf list \<Rightarrow> (nat \<times> sembuf) option exec" where
  "semop_scan info n [] = Inr None"
| "semop_scan info n (sop # rest) =
     (case checkblock_int info (sem_num sop) (sem_op sop) of
        Inl f \<Rightarrow> Inl f
      | Inr b \<Rightarrow> if b then Inr (Some (n, sop)) else semop_scan info (Suc n) rest)"

fun semop_apply :: "kctx \<Rightarrow> sem_info \<Rightarrow> sembuf list \<Rightarrow> ((errno + unit) \<times> sem_info) exec" where
  "semop_apply k info [] = Inr (Inr (), info)"
| "semop_apply k info (sop # rest) =
     (case sys_semop_int k info (sem_num sop) (sem_op sop) of
        Inl f \<Rightarrow> Inl f
      | Inr (Inl e, info') \<Rightarrow> Inr (Inl e, info')
      | Inr (Inr _, info') \<Rightarrow> semop_apply k info' rest)"

text \<open>
  A waiter is counted at the semaphore with the index of the operation in the array, not
  at the semaphore of the operation.
\<close>

definition count_waiter :: "bool \<Rightarrow> nat \<Rightarrow> u16 \<Rightarrow> sem_info \<Rightarrow> sem_info" where
  "count_waiter waitz n d info =
     (let s = sems info ! n
      in info\<lparr>sems := (sems info)[n := if waitz then s\<lparr>semzcnt := semzcnt s + d\<rparr>
                                      else s\<lparr>semncnt := semncnt s + d\<rparr>]\<rparr>)"

definition waitsem :: "bool \<Rightarrow> sem_info \<Rightarrow> semaphore" where
  "waitsem waitz info = (if waitz then zwaitsem info else nwaitsem info)"

definition set_waitsem :: "bool \<Rightarrow> semaphore \<Rightarrow> sem_info \<Rightarrow> sem_info" where
  "set_waitsem waitz s info = (if waitz then info\<lparr>zwaitsem := s\<rparr> else info\<lparr>nwaitsem := s\<rparr>)"

text \<open>Giving up the reference, with the deletion of a set that was marked.\<close>

definition sem_unref :: "sem_st \<Rightarrow> addr \<Rightarrow> sem_info \<Rightarrow> sem_st" where
  "sem_unref st a info =
     (let i = info\<lparr>s_refs := s_refs info - 1\<rparr>; st' = upd_obj st a i
      in if s_del i \<and> s_refs i = 0 then sem_do_delete st' a else st')"

type_synonym semop_out = "(errno + unit, addr \<times> nat \<times> bool, sem_st) outcome"

definition semop_done :: "kctx \<Rightarrow> addr \<Rightarrow> sembuf list \<Rightarrow> sem_info \<Rightarrow> sem_st \<Rightarrow> semop_out" where
  "semop_done k a sops info st =
     (case semop_apply k info sops of
        Inl f \<Rightarrow> Crash f
      | Inr (Inl e, i) \<Rightarrow> Return (Inl e) (upd_obj st a i)
      | Inr (Inr _, i) \<Rightarrow>
          Return (Inr ()) (upd_obj st a (i\<lparr>sem_otime := k_time k, s_refs := s_refs i - 1\<rparr>)))"

partial_function (option) semop_loop :: "kctx \<Rightarrow> addr \<Rightarrow> sembuf list \<Rightarrow> sem_st \<Rightarrow> semop_out option" where
  "semop_loop k a sops st =
     (case objs st a of
        None \<Rightarrow> Some (Crash Use_After_Free)
      | Some info \<Rightarrow>
          (case semop_scan info 0 sops of
             Inl f \<Rightarrow> Some (Crash f)
           | Inr None \<Rightarrow> Some (semop_done k a sops info st)
           | Inr (Some (nblock, sop)) \<Rightarrow>
               if flag (ucast (sem_flg sop)) IPC_NOWAIT
               then Some (Return (Inl EAGAIN) (upd_obj st a (info\<lparr>s_refs := s_refs info - 1\<rparr>)))
               else if length (sems info) \<le> nblock then Some (Crash Out_Of_Bounds)
               else let waitz = (sem_op sop = 0); i = count_waiter waitz nblock 1 info
                    in (case semaphore_ndown (waitsem waitz i) of
                          Crash f \<Rightarrow> Some (Crash f)
                        | Sleep _ s \<Rightarrow> Some (Sleep (a, nblock, waitz) (upd_obj st a (set_waitsem waitz s i)))
                        | Return _ s \<Rightarrow>
                            let j = count_waiter waitz nblock (- 1) (set_waitsem waitz s i);
                                st1 = upd_obj st a j
                            in if s_del j then Some (Return (Inl EIDRM) (sem_unref st1 a j))
                               else semop_loop k a sops st1)))"

definition sys_semop :: "kctx \<Rightarrow> u32 \<Rightarrow> sembuf list \<Rightarrow> sem_st \<Rightarrow> semop_out option" where
  "sys_semop k semid sops st =
     (case sem_get_by_id st semid of
        None \<Rightarrow> Some (Return (Inl EINVAL) st)
      | Some a \<Rightarrow>
          (case objs st a of
             None \<Rightarrow> Some (Crash Use_After_Free)
           | Some info \<Rightarrow>
               if s_del info then Some (Return (Inl EIDRM) st)
               else semop_loop k a sops (upd_obj st a (info\<lparr>s_refs := s_refs info + 1\<rparr>))))"

text \<open>A sleeping \<^verbatim>\<open>semop\<close> when \<^verbatim>\<open>scheduler_wait\<close> returns \<open>s\<close>.\<close>

definition semop_resume :: "kctx \<Rightarrow> sembuf list \<Rightarrow> addr \<times> nat \<times> bool \<Rightarrow> wait_result \<Rightarrow> sem_st \<Rightarrow> semop_out option" where
  "semop_resume k sops w s st =
     (case w of (a, nblock, waitz) \<Rightarrow>
      (case objs st a of
         None \<Rightarrow> Some (Crash Use_After_Free)
       | Some info \<Rightarrow>
           if length (sems info) \<le> nblock then Some (Crash Out_Of_Bounds)
           else let i = count_waiter waitz nblock (- 1) info; st1 = upd_obj st a i
                in if s \<noteq> SCHED_WAIT_OK then Some (Return (Inl EINTR) (sem_unref st1 a i))
                   else if s_del i then Some (Return (Inl EIDRM) (sem_unref st1 a i))
                   else semop_loop k a sops st1))"

text \<open>
  Control.  \<open>buf\<close> is the fourth argument as an integer, \<open>got\<close> the result of the allocation of
  the array, \<open>copied\<close> tells whether the copy from or to user space succeeds, \<open>uvals\<close> and
  \<open>uperm\<close> are what the caller's memory holds.
\<close>

datatype semctl_res = Sem_Int u32 | Sem_All "u16 list" | Sem_Stat sem_info

fun set_vals :: "sysv_sem list \<Rightarrow> u16 list \<Rightarrow> sysv_sem list exec" where
  "set_vals ss [] = Inr ss"
| "set_vals [] (v # vs) = Inl Out_Of_Bounds"
| "set_vals (s # ss) (v # vs) =
     (case set_vals ss vs of Inl f \<Rightarrow> Inl f | Inr ss' \<Rightarrow> Inr (s\<lparr>semval := v\<rparr> # ss'))"

definition sem_field :: "sem_info \<Rightarrow> u32 \<Rightarrow> (sysv_sem \<Rightarrow> u32) \<Rightarrow> sem_st \<Rightarrow> ((errno + semctl_res) \<times> sem_st) exec" where
  "sem_field info semnum get st =
     (if length (sems info) \<le> unat semnum then Inl Out_Of_Bounds
      else Inr (Inr (Sem_Int (get (sems info ! unat semnum))), st))"

definition sys_semctl ::
    "kctx \<Rightarrow> u32 \<Rightarrow> u32 \<Rightarrow> u32 \<Rightarrow> u32 \<Rightarrow> bool \<Rightarrow> bool \<Rightarrow> (nat \<Rightarrow> u16) \<Rightarrow> ipc_perm \<Rightarrow> sem_st \<Rightarrow>
       ((errno + semctl_res) \<times> sem_st) exec" where
  "sys_semctl k semid semnum cmd buf got copied uvals uperm st =
     (case sem_get_by_id st semid of
        None \<Rightarrow> Inr (Inl EINVAL, st)
      | Some a \<Rightarrow>
          (case objs st a of
             None \<Rightarrow> Inl Use_After_Free
           | Some info \<Rightarrow>
               let may_read = ipc_have_permissions (k_creds k) (sem_perm info) IPC_PERM_READ;
                   may_write = ipc_have_permissions (k_creds k) (sem_perm info) IPC_PERM_WRITE;
                   is_creator = ipc_is_creator (k_creds k) (sem_perm info);
                   ns = unat (sem_nsems info)
               in
               if sint semnum < 0 \<or> sint semnum > int ns then Inr (Inl EINVAL, st)
               else if cmd = GETVAL
               then if \<not> may_read then Inr (Inl EACCES, st) else sem_field info semnum (\<lambda>s. ucast (semval s)) st
               else if cmd = SETVAL
               then if \<not> may_write then Inr (Inl EACCES, st)
                    else if length (sems info) \<le> unat semnum then Inl Out_Of_Bounds
                    else Inr (Inr (Sem_Int 0), upd_obj st a
                           (info\<lparr>sems := (sems info)[unat semnum :=
                                            (sems info ! unat semnum)\<lparr>semval := ucast buf\<rparr>]\<rparr>))
               else if cmd = GETPID
               then if \<not> may_read then Inr (Inl EACCES, st) else sem_field info semnum sempid st
               else if cmd = GETNCNT
               then if \<not> may_read then Inr (Inl EACCES, st) else sem_field info semnum (\<lambda>s. ucast (semncnt s)) st
               else if cmd = GETZCNT
               then if \<not> may_read then Inr (Inl EACCES, st) else sem_field info semnum (\<lambda>s. ucast (semzcnt s)) st
               else if cmd = GETALL
               then if \<not> may_read then Inr (Inl EACCES, st)
                    else if \<not> got then Inr (Inl ENOMEM, st)
                    else if length (sems info) < ns then Inl Out_Of_Bounds
                    else if \<not> copied then Inr (Inl EFAULT, st)
                    else Inr (Inr (Sem_All (map semval (take ns (sems info)))), st)
               else if cmd = SETALL
               then if \<not> may_write then Inr (Inl EACCES, st)
                    else if \<not> got then Inr (Inl ENOMEM, st)
                    else if \<not> copied then Inr (Inl EFAULT, st)
                    else (case set_vals (sems info) (map uvals [0..<ns]) of
                            Inl f \<Rightarrow> Inl f
                          | Inr ss \<Rightarrow> Inr (Inr (Sem_Int 0), upd_obj st a (info\<lparr>sems := ss\<rparr>)))
               else if cmd = IPC_STAT
               then if \<not> may_read then Inr (Inl EACCES, st)
                    else if \<not> copied then Inr (Inl EFAULT, st)
                    else Inr (Inr (Sem_Stat info), st)
               else if cmd = IPC_SET
               then if \<not> is_creator \<and> \<not> may_write then Inr (Inl EPERM, st)
                    else if \<not> copied then Inr (Inl EFAULT, st)
                    else Inr (Inr (Sem_Int 0), upd_obj st a (info\<lparr>sem_perm := set_perm uperm (sem_perm info)\<rparr>))
               else if cmd = IPC_RMID
               then if \<not> is_creator \<and> \<not> may_write then Inr (Inl EPERM, st)
                    else let i = info\<lparr>s_del := True\<rparr>; st1 = upd_obj st a i
                         in if s_refs i = 0 then Inr (Inr (Sem_Int 0), sem_do_delete st1 a)
                            else Inr (Inr (Sem_Int 0), upd_obj st1 a
                                   (i\<lparr>zwaitsem := semaphore_add (zwaitsem i) 999999,
                                      nwaitsem := semaphore_add (nwaitsem i) 999999\<rparr>))
               else Inr (Inl EINVAL, st)))"

text \<open>
  Creation.  \<open>new\<close> is the result of the first allocation; \<open>mem\<close> is the result of the second, the
  elements as the allocator left them.  The request is for \<open>12 * nsems\<close> bytes modulo \<open>2\<^sup>3\<^sup>2\<close>.
\<close>

definition zero_sem :: sysv_sem where
  "zero_sem = \<lparr>semval = 0, sempid = 0, semncnt = 0, semzcnt = 0\<rparr>"

definition new_set :: "kctx \<Rightarrow> u32 \<Rightarrow> u32 \<Rightarrow> u32 \<Rightarrow> u32 \<Rightarrow> sysv_sem list \<Rightarrow> sem_info" where
  "new_set k key n nsems flags m =
     \<lparr>s_key = key, s_id = n, s_del = False, s_refs = 0, nwaitsem = semaphore_init, zwaitsem = semaphore_init,
      sem_perm = new_perm k flags, sem_nsems = ucast nsems, sem_otime = 0, sem_ctime = k_time k,
      sems = replicate (nat (sint nsems)) zero_sem @ drop (nat (sint nsems)) m\<rparr>"

definition sys_semget ::
    "kctx \<Rightarrow> addr option \<Rightarrow> sysv_sem list option \<Rightarrow> u32 \<Rightarrow> u32 \<Rightarrow> u32 \<Rightarrow> sem_st \<Rightarrow> ((errno + u32) \<times> sem_st) exec" where
  "sys_semget k new mem key nsems flags st =
     (let found = (if key \<noteq> IPC_PRIVATE then sem_get_by_key st key else None) in
      case found of
        None \<Rightarrow>
          if key \<noteq> IPC_PRIVATE \<and> \<not> flag flags IPC_CREAT then Inr (Inl ENOENT, st)
          else (case new of
                  None \<Rightarrow> Inr (Inl ENOMEM, st)
                | Some a \<Rightarrow>
                    (case mem of
                       None \<Rightarrow> Inr (Inl ENOMEM, st)
                     | Some m \<Rightarrow>
                         (case sem_alloc_id st of
                            (None, st1) \<Rightarrow> Inr (Inl ENFILE, st1)
                          | (Some n, st1) \<Rightarrow>
                              if int (length m) < sint nsems then Inl Out_Of_Bounds
                              else Inr (Inr n, add_obj st1 a (new_set k key n nsems flags m)))))
      | Some a \<Rightarrow>
          if flag flags IPC_CREAT \<and> flag flags IPC_EXCL then Inr (Inl EEXIST, st)
          else (case objs st a of
                  None \<Rightarrow> Inl Use_After_Free
                | Some info \<Rightarrow>
                    if \<not> ipc_have_permissions (k_creds k) (sem_perm info) IPC_PERM_READ then Inr (Inl EACCES, st)
                    else if nsems \<noteq> 0 \<and> sint nsems < uint (sem_nsems info) then Inr (Inl EINVAL, st)
                    else if s_del info then Inr (Inl EIDRM, st)
                    else Inr (Inr (s_id info), st)))"

section \<open>Invariant\<close>

definition set_ok :: "sem_info \<Rightarrow> bool" where
  "set_ok i \<longleftrightarrow> unat (sem_nsems i) \<le> length (sems i)"

abbreviation sem_ok :: "sem_st \<Rightarrow> bool" where
  "sem_ok \<equiv> table_ok s_id set_ok"

abbreviation one_set :: "sem_st \<Rightarrow> addr \<Rightarrow> sem_st \<Rightarrow> bool" where
  "one_set \<equiv> one_obj s_id set_ok"

text \<open>What an operation leaves of a set: everything but the values, counts and semaphores.\<close>

definition same_set :: "sem_info \<Rightarrow> sem_info \<Rightarrow> bool" where
  "same_set i j \<longleftrightarrow> s_id j = s_id i \<and> sem_nsems j = sem_nsems i \<and> length (sems j) = length (sems i)"

lemma same_set_refl [simp]: "same_set i i"
  by (simp add: same_set_def)

lemma same_set_trans: "same_set i j \<Longrightarrow> same_set j k \<Longrightarrow> same_set i k"
  by (simp add: same_set_def)

lemma same_setD: "same_set i j \<Longrightarrow> s_id j = s_id i" "same_set i j \<Longrightarrow> set_ok i \<Longrightarrow> set_ok j"
  by (simp_all add: same_set_def set_ok_def)

lemma one_set_upd: "objs st a = Some i \<Longrightarrow> same_set i j \<Longrightarrow> one_set st a (upd_obj st a j)"
  using same_setD by (blast intro: one_obj_upd)

lemma one_set_trans: "objs st a = Some i \<Longrightarrow> same_set i j \<Longrightarrow> one_set (upd_obj st a j) a st' \<Longrightarrow> one_set st a st'"
  using one_obj_trans [of st a i s_id j set_ok] same_setD by blast

lemma same_set_waiter [simp]:
  "same_set i (count_waiter z n d j) = same_set i j" "same_set i (set_waitsem z s j) = same_set i j"
  "same_set i (j\<lparr>s_refs := r\<rparr>) = same_set i j" "same_set i (j\<lparr>sem_otime := t\<rparr>) = same_set i j"
  "same_set i (j\<lparr>s_del := b\<rparr>) = same_set i j" "same_set i (j\<lparr>sem_perm := p\<rparr>) = same_set i j"
  "same_set i (j\<lparr>nwaitsem := x\<rparr>) = same_set i j" "same_set i (j\<lparr>zwaitsem := x\<rparr>) = same_set i j"
  by (simp_all add: same_set_def count_waiter_def set_waitsem_def Let_def)

lemma semop_int_same: "sys_semop_int k i n v = Inr (r, j) \<Longrightarrow> same_set i j"
  by (auto simp: sys_semop_int_def same_set_def Let_def split: if_splits)

lemma semop_apply_same: "semop_apply k i sops = Inr (r, j) \<Longrightarrow> same_set i j"
proof (induction sops arbitrary: i)
  case (Cons sop sops)
  then show ?case
    by (auto split: sum.splits prod.splits dest: semop_int_same intro: same_set_trans)
qed simp

lemma semop_done_one:
  assumes "objs st a = Some i" "out_state (semop_done k a sops i st) = Some st'"
  shows "one_set st a st'"
  using assms semop_apply_same [of k i sops]
  by (auto simp: semop_done_def split: sum.splits prod.splits intro!: one_set_upd)

lemma sem_unref_one: "objs st a = Some i \<Longrightarrow> one_set st a (sem_unref st a i)"
  by (auto simp: sem_unref_def Let_def sem_do_delete_def intro!: one_set_upd one_obj_del)

lemma set_waitsem_sel [simp]:
  "waitsem z (set_waitsem z s i) = s" "sems (set_waitsem z s i) = sems i" "s_del (set_waitsem z s i) = s_del i"
  "sem_nsems (set_waitsem z s i) = sem_nsems i"
  by (simp_all add: waitsem_def set_waitsem_def)

lemma count_waiter_sel [simp]:
  "waitsem z (count_waiter y n d i) = waitsem z i" "s_del (count_waiter y n d i) = s_del i"
  "length (sems (count_waiter y n d i)) = length (sems i)" "sem_nsems (count_waiter y n d i) = sem_nsems i"
  by (simp_all add: waitsem_def count_waiter_def Let_def)

text \<open>The two steps of counting a waiter that is served at once cancel.\<close>

lemma count_waiter_twice:
  assumes "n < length (sems i)"
  shows "count_waiter z n (- 1) (set_waitsem z s (count_waiter z n 1 i)) = set_waitsem z s i"
  using assms by (simp add: count_waiter_def set_waitsem_def Let_def list_update_same_conv)

text \<open>The loop ends, because every turn takes a count, and touches only its set.\<close>

lemma semop_loop_ends:
  assumes "objs st a = Some i"
  shows "\<exists>out. semop_loop k a sops st = Some out \<and> (\<forall>st'. out_state out = Some st' \<longrightarrow> one_set st a st')"
  using assms
proof (induction "unat (zwaitsem i) + unat (nwaitsem i)" arbitrary: i st rule: less_induct)
  case less
  note o = less.prems
  consider (fault) f where "semop_scan i 0 sops = Inl f" | (go) "semop_scan i 0 sops = Inr None"
    | (wait) n p where "semop_scan i 0 sops = Inr (Some (n, p))"
    by (metis old.sum.exhaust option.exhaust surj_pair)
  then show ?case
  proof cases
    case fault
    then show ?thesis using o by (subst semop_loop.simps) simp
  next
    case go
    then show ?thesis using o semop_done_one [OF o] by (subst semop_loop.simps) simp
  next
    case wait
    let ?z = "sem_op p = 0"
    show ?thesis
    proof (cases "flag (ucast (sem_flg p)) IPC_NOWAIT \<or> length (sems i) \<le> n \<or> waitsem ?z i = 0")
      case True
      then show ?thesis using wait o
        by (subst semop_loop.simps) (auto simp: Let_def semaphore_ndown_eq intro!: one_set_upd)
    next
      case False
      let ?j = "set_waitsem ?z (waitsem ?z i - 1) i" and ?st = "upd_obj st a (set_waitsem ?z (waitsem ?z i - 1) i)"
      have lt: "unat (zwaitsem ?j) + unat (nwaitsem ?j) < unat (zwaitsem i) + unat (nwaitsem i)"
        using False by (auto simp: waitsem_def set_waitsem_def unat_decr unat_gt_0 split: if_splits)
      have ih: "\<exists>out. semop_loop k a sops ?st = Some out \<and> (\<forall>st'. out_state out = Some st' \<longrightarrow> one_set ?st a st')"
        using less.hyps [OF lt, of ?st] by simp
      note tr = one_set_trans [OF o, of ?j]
      show ?thesis using False wait o ih tr sem_unref_one [of ?st a ?j]
        by (subst semop_loop.simps) (auto simp: Let_def semaphore_ndown_eq count_waiter_twice)
    qed
  qed
qed

section \<open>Calls\<close>

text \<open>
  Everything that happens to the table.  A new set has room for the number of semaphores
  that fit in the requested bytes, and the number asked for is not negative.
\<close>

inductive sem_call :: "sem_st \<Rightarrow> sem_st \<Rightarrow> bool" where
  semop: "sys_semop k n sops st = Some out \<Longrightarrow> out_state out = Some st' \<Longrightarrow> sem_call st st'"
| resume: "semop_resume k sops w s st = Some out \<Longrightarrow> out_state out = Some st' \<Longrightarrow> sem_call st st'"
| ctl: "sys_semctl k n m cmd buf got copied uvals u st = Inr (r, st') \<Longrightarrow> sem_call st st'"
| get: "(\<And>a. new = Some a \<Longrightarrow> objs st a = None) \<Longrightarrow>
        (\<And>m. mem = Some m \<Longrightarrow> length m = unat (12 * nsems) div 12) \<Longrightarrow> 0 \<le> sint nsems \<Longrightarrow>
        sys_semget k new mem key nsems flags st = Inr (r, st') \<Longrightarrow> sem_call st st'"
| taken: "objs st a = Some i \<Longrightarrow> sem_call st (upd_obj st a (i\<lparr>nwaitsem := x, zwaitsem := y\<rparr>))"

lemma semop_call:
  assumes "sys_semop k n sops st = Some out" "out_state out = Some st'"
  shows "st' = st \<or> (\<exists>a. one_set st a st')"
proof (cases "sem_get_by_id st n")
  case (Some a)
  then obtain i where i: "objs st a = Some i" by (auto simp: sem_get_by_id_def dest: find_objD)
  let ?i = "i\<lparr>s_refs := s_refs i + 1\<rparr>"
  show ?thesis using assms Some i semop_loop_ends [of "upd_obj st a ?i" a ?i k sops] one_set_trans [OF i, of ?i st']
    by (auto simp: sys_semop_def split: if_splits)
qed (use assms in \<open>auto simp: sys_semop_def\<close>)

lemma semop_resume_call:
  assumes "semop_resume k sops w s st = Some out" "out_state out = Some st'"
  shows "\<exists>a. one_set st a st'"
proof -
  obtain a n z where w: "w = (a, n, z)" by (cases w)
  show ?thesis
  proof (cases "objs st a")
    case None
    with assms w show ?thesis by (auto simp: semop_resume_def)
  next
    case i: (Some i)
    let ?i = "count_waiter z n (- 1) i"
    show ?thesis
      using assms w i semop_loop_ends [of "upd_obj st a ?i" a ?i k sops] one_set_trans [OF i, of ?i st']
        sem_unref_one [of "upd_obj st a ?i" a ?i]
      by (auto simp: semop_resume_def Let_def split: if_splits)
  qed
qed

lemma set_vals_length: "set_vals ss vs = Inr ss' \<Longrightarrow> length ss' = length ss"
  by (induction ss vs arbitrary: ss' rule: set_vals.induct) (auto split: sum.splits)

lemma sem_field_state: "sem_field i m g st = Inr (r, st') \<Longrightarrow> st' = st"
  by (auto simp: sem_field_def split: if_splits)

lemma semctl_call:
  assumes "sys_semctl k n m cmd buf got copied uvals u st = Inr (r, st')"
  shows "st' = st \<or> (\<exists>a. one_set st a st')"
proof (cases "sem_get_by_id st n")
  case (Some a)
  then obtain i where i: "objs st a = Some i" by (auto simp: sem_get_by_id_def dest: find_objD)
  have del: "one_set st a (del_obj st a)" using i by (rule one_obj_del)
  have set: "one_set st a (upd_obj st a (i\<lparr>sems := ss\<rparr>))" if "length ss = length (sems i)" for ss
    using i that by (auto intro!: one_set_upd simp: same_set_def)
  have val: "one_set st a (upd_obj st a (i\<lparr>sems := (sems i)[x := y]\<rparr>))" for x y by (rule set) simp
  have rest: "one_set st a (upd_obj st a (i\<lparr>sem_perm := p\<rparr>))"
    "one_set st a (upd_obj st a (i\<lparr>s_del := True, zwaitsem := x, nwaitsem := y\<rparr>))" for p x y
    using i by (auto intro!: one_set_upd)
  let ?P = "\<lambda>st'. st' = st \<or> one_set st a st'"
  have f: "exec_post ?P (sem_field i m g st)" for g by (simp add: sem_field_def)
  have v: "exec_post ?P (case set_vals (sems i) vs of Inl f \<Rightarrow> Inl f
      | Inr ss \<Rightarrow> Inr (Inr (Sem_Int 0), upd_obj st a (i\<lparr>sems := ss\<rparr>)))" for vs
    using set_vals_length [of "sems i" vs] set by (auto split: sum.splits)
  have "exec_post ?P (sys_semctl k n m cmd buf got copied uvals u st)"
    unfolding sys_semctl_def Let_def Some i option.case
    by (intro exec_post_intros f v) (simp_all add: val del rest sem_do_delete_def)
  from exec_postD [OF this assms] show ?thesis by blast
qed (use assms in \<open>auto simp: sys_semctl_def\<close>)

lemma new_set_ok:
  assumes "0 \<le> sint nsems" "sint nsems \<le> int (length m)"
  shows "set_ok (new_set k key n nsems flags m)"
proof -
  have "unat (ucast nsems :: u16) \<le> unat nsems" by (simp add: unsigned_ucast_eq)
  moreover have "unat nsems = nat (sint nsems)"
    using assms(1) by (simp add: sint_nonneg_nat)
  ultimately show ?thesis using assms by (simp add: set_ok_def new_set_def)
qed

lemma semget_call:
  assumes ok: "sem_ok st" and f: "\<And>a. new = Some a \<Longrightarrow> objs st a = None" and n0: "0 \<le> sint nsems"
    and g: "sys_semget k new mem key nsems flags st = Inr (r, st')"
  shows "sem_ok st' \<and> reg_step s_id st st'"
proof (cases "\<exists>a m n st1. new = Some a \<and> alloc_id st = (Some n, st1) \<and> \<not> int (length m) < sint nsems
    \<and> st' = add_obj st1 a (new_set k key n nsems flags m)")
  case True
  then obtain a m n st1 where a: "new = Some a" "alloc_id st = (Some n, st1)" "\<not> int (length m) < sint nsems"
      "st' = add_obj st1 a (new_set k key n nsems flags m)" by blast
  show ?thesis unfolding a(4)
    by (rule add_obj_ok [OF ok a(2) f [OF a(1)]]) (use new_set_ok [OF n0] a(3) in \<open>simp_all add: new_set_def\<close>)
next
  case False
  then have "st' = st" using g
    by (auto simp: sys_semget_def Let_def sem_alloc_id_def split: if_splits option.splits prod.splits
        dest: alloc_id_None)
  then show ?thesis using ok by (simp add: reg_step_refl)
qed

lemma sem_call_ok: "sem_call st st' \<Longrightarrow> sem_ok st \<Longrightarrow> sem_ok st' \<and> reg_step s_id st st'"
proof (induction rule: sem_call.induct)
  case (taken st a i y x)
  then have "one_set st a (upd_obj st a (i\<lparr>nwaitsem := x, zwaitsem := y\<rparr>))" by (auto intro!: one_set_upd)
  then show ?case using one_obj_ok taken by blast
next
  case (get new st mem nsems k key flags r st')
  then show ?case using semget_call by blast
next
  case semop
  then show ?case using semop_call one_obj_ok reg_step_refl by blast
next
  case resume
  then show ?case using semop_resume_call one_obj_ok by blast
next
  case ctl
  then show ?case using semctl_call one_obj_ok reg_step_refl by blast
qed

interpretation sq: ipc_objects "\<lambda>st. st" s_id set_ok sem_call
  using sem_call_ok by unfold_locales blast

lemma sem_init_ok: "sem_ok sem_init"
  by (simp add: sem_init_def table_ok_empty)

section \<open>Operations on several semaphores\<close>

text \<open>When an operation can proceed, and what it makes of the value of its semaphore.\<close>

definition can_go :: "sem_info \<Rightarrow> sembuf \<Rightarrow> bool" where
  "can_go i p \<longleftrightarrow>
     (let v = semval (sems i ! unat (sem_num p)) in
      if sem_op p = 0 then v = 0 else 0 < sint (sem_op p) \<or> - sint (sem_op p) \<le> uint v)"

definition in_range :: "sem_info \<Rightarrow> sembuf \<Rightarrow> bool" where
  "in_range i p \<longleftrightarrow> 0 \<le> sint (sem_num p) \<and> sint (sem_num p) < uint (sem_nsems i)"

definition value_after :: "sembuf list \<Rightarrow> sem_info \<Rightarrow> nat \<Rightarrow> u16" where
  "value_after sops i m =
     (case find (\<lambda>p. unat (sem_num p) = m) sops of
        None \<Rightarrow> semval (sems i ! m) | Some p \<Rightarrow> semval (sems i ! m) + sem_op p)"

lemma in_rangeD:
  assumes "set_ok i" "in_range i p"
  shows "unat (sem_num p) < length (sems i)" "\<not> (sint (sem_num p) < 0 \<or> uint (sem_nsems i) \<le> sint (sem_num p))"
proof -
  have "uint (sem_num p) < uint (sem_nsems i)"
    using assms(2) sint_nonneg [of "sem_num p"] by (simp add: in_range_def)
  then have "unat (sem_num p) < unat (sem_nsems i)" by (simp add: word_less_def [symmetric] word_less_nat_alt)
  then show "unat (sem_num p) < length (sems i)" using assms(1) by (simp add: set_ok_def)
qed (use assms(2) in \<open>simp add: in_range_def\<close>)

lemma checkblock_range:
  assumes "set_ok i" "in_range i p"
  shows "checkblock_int i (sem_num p) (sem_op p) = Inr (\<not> can_go i p)"
  using in_rangeD [OF assms] by (simp add: checkblock_int_def can_go_def Let_def not_le)

lemma scan_range:
  assumes "set_ok i" "\<forall>p \<in> set sops. in_range i p"
  shows "semop_scan i n sops = Inr (if \<forall>p \<in> set sops. can_go i p then None
      else Some (n + length (takeWhile (can_go i) sops), hd (dropWhile (can_go i) sops)))"
  using assms by (induction sops arbitrary: n) (auto simp: checkblock_range)

lemma semop_int_range:
  assumes "set_ok i" "in_range i p" "can_go i p"
  shows "\<exists>j. sys_semop_int k i (sem_num p) (sem_op p) = Inr (Inr (), j) \<and> same_set i j \<and> s_refs j = s_refs i
    \<and> (\<forall>m < length (sems i). semval (sems j ! m) = value_after [p] i m)"
proof -
  note l = in_rangeD(1) [OF assms(1,2)] and r = in_rangeD(2) [OF assms(1,2)]
  show ?thesis using assms(3) l r
    by (auto simp: sys_semop_int_def can_go_def value_after_def same_set_def Let_def nth_list_update split: if_splits)
qed

lemma same_set_range: "same_set i j \<Longrightarrow> in_range j p = in_range i p" "same_set i j \<Longrightarrow> set_ok j = set_ok i"
  by (simp_all add: same_set_def in_range_def set_ok_def)

lemma can_go_other:
  assumes "\<forall>m < length (sems i). semval (sems j ! m) = value_after [p] i m" "unat (sem_num q) < length (sems i)"
    "sem_num q \<noteq> sem_num p"
  shows "can_go j q = can_go i q"
proof -
  have "unat (sem_num p) \<noteq> unat (sem_num q)" using assms(3) by (metis word_unat_eq_iff)
  then show ?thesis using assms(1,2) by (simp add: can_go_def value_after_def Let_def)
qed

lemma value_after_Cons:
  assumes "\<forall>m < length (sems i). semval (sems j ! m) = value_after [p] i m" "m < length (sems i)"
    "sem_num p \<notin> sem_num ` set sops"
  shows "value_after sops j m = value_after (p # sops) i m"
proof (cases "unat (sem_num p) = m")
  case True
  then have "find (\<lambda>q. unat (sem_num q) = m) sops = None"
    using assms(3) unfolding find_None_iff by (metis image_eqI word_unat_eq_iff)
  then show ?thesis using True assms(1,2) by (simp add: value_after_def)
next
  case False
  then have "semval (sems j ! m) = semval (sems i ! m)" using assms(1,2) by (simp add: value_after_def)
  then show ?thesis using False by (simp add: value_after_def split: option.splits)
qed

text \<open>Operations on different semaphores that can all proceed are all carried out.\<close>

lemma semop_apply_all:
  assumes "set_ok i" "\<forall>p \<in> set sops. in_range i p \<and> can_go i p" "distinct (map sem_num sops)"
  shows "\<exists>j. semop_apply k i sops = Inr (Inr (), j) \<and> same_set i j \<and> s_refs j = s_refs i
    \<and> (\<forall>m < length (sems i). semval (sems j ! m) = value_after sops i m)"
  using assms
proof (induction sops arbitrary: i)
  case Nil
  then show ?case by (simp add: value_after_def)
next
  case (Cons p sops)
  obtain j where j: "sys_semop_int k i (sem_num p) (sem_op p) = Inr (Inr (), j)" "same_set i j"
      "s_refs j = s_refs i" "\<forall>m < length (sems i). semval (sems j ! m) = value_after [p] i m"
    using semop_int_range [of i p k] Cons.prems by auto
  have "in_range j q \<and> can_go j q" if "q \<in> set sops" for q
  proof -
    have "sem_num p \<notin> sem_num ` set sops" using Cons.prems(3) by simp
    then have "sem_num q \<noteq> sem_num p" using that by (metis imageI)
    then show ?thesis
      using that Cons.prems(2) can_go_other [OF j(4), of q] in_rangeD(1) [OF Cons.prems(1), of q]
        same_set_range(1) [OF j(2)] by auto
  qed
  then obtain l where l: "semop_apply k j sops = Inr (Inr (), l)" "same_set j l" "s_refs l = s_refs j"
      "\<forall>m < length (sems j). semval (sems l ! m) = value_after sops j m"
    using Cons.IH [of j] Cons.prems same_set_range(2) [OF j(2)] by auto
  have "length (sems j) = length (sems i)" using j(2) by (simp add: same_set_def)
  then have "\<forall>m < length (sems i). semval (sems l ! m) = value_after (p # sops) i m"
    using l(4) value_after_Cons [OF j(4)] Cons.prems(3) by auto
  with j l same_set_trans [OF j(2) l(2)] show ?case by auto
qed

lemma semop_loop_goes:
  assumes "objs st a = Some i" "set_ok i" "\<forall>p \<in> set sops. in_range i p \<and> can_go i p" "distinct (map sem_num sops)"
  shows "\<exists>j. semop_loop k a sops st = Some (Return (Inr ()) (upd_obj st a j)) \<and> s_refs j = s_refs i - 1
    \<and> length (sems j) = length (sems i)
    \<and> (\<forall>m < length (sems i). semval (sems j ! m) = value_after sops i m)"
proof -
  have "semop_scan i 0 sops = Inr None" using scan_range [OF assms(2)] assms(3) by simp
  moreover obtain j where "semop_apply k i sops = Inr (Inr (), j)" "same_set i j" "s_refs j = s_refs i"
      "\<forall>m < length (sems i). semval (sems j ! m) = value_after sops i m"
    using semop_apply_all [OF assms(2-4)] by blast
  ultimately show ?thesis using assms(1)
    by (subst semop_loop.simps) (auto simp: semop_done_def same_set_def)
qed

text \<open>An operation that has to wait sleeps, whatever counts the semaphore still had.\<close>

lemma scan_set_waitsem: "semop_scan (set_waitsem z s i) n sops = semop_scan i n sops"
  by (induction sops arbitrary: n) (auto simp: checkblock_int_def split: sum.splits)

lemma semop_loop_sleeps:
  assumes "objs st a = Some i" "\<not> s_del i" "semop_scan i 0 sops = Inr (Some (n, p))"
    "\<not> flag (ucast (sem_flg p)) IPC_NOWAIT" "n < length (sems i)"
  defines "z \<equiv> sem_op p = 0"
  shows "semop_loop k a sops st = Some (Sleep (a, n, z) (upd_obj st a (set_waitsem z 0 (count_waiter z n 1 i))))"
  using assms(1-5)
proof (induction "unat (waitsem z i)" arbitrary: i st rule: less_induct)
  case less
  show ?case
  proof (cases "waitsem z i = 0")
    case True
    then show ?thesis using less.prems
      by (subst semop_loop.simps) (simp add: Let_def semaphore_ndown_eq z_def [symmetric])
  next
    case False
    let ?j = "set_waitsem z (waitsem z i - 1) i"
    have lt: "unat (waitsem z ?j) < unat (waitsem z i)" using False by (simp add: unat_decr unat_gt_0)
    have w: "set_waitsem z 0 (count_waiter z n 1 ?j) = set_waitsem z 0 (count_waiter z n 1 i)"
      by (simp add: set_waitsem_def count_waiter_def Let_def)
    from less.hyps [OF lt, of "upd_obj st a ?j"] False less.prems show ?thesis
      by (subst semop_loop.simps)
        (simp add: Let_def semaphore_ndown_eq z_def [symmetric] count_waiter_twice scan_set_waitsem w)
  qed
qed

lemma count_waiter_semval:
  "n < length (sems i) \<Longrightarrow> map semval (sems (count_waiter z n d i)) = map semval (sems i)"
  by (simp add: count_waiter_def Let_def map_update) (metis (no_types, lifting) list_update_id map_update)

lemma semop_single:
  assumes "set_ok i" "in_range i p" "objs st a = Some i" "sem_get_by_id st n = Some a" "\<not> s_del i"
  shows "\<not> can_go i p \<Longrightarrow> \<not> flag (ucast (sem_flg p)) IPC_NOWAIT \<Longrightarrow> 0 < length (sems i) \<Longrightarrow>
      sys_semop k n [p] st = Some (Sleep (a, 0, sem_op p = 0)
         (upd_obj st a (set_waitsem (sem_op p = 0) 0 (count_waiter (sem_op p = 0) 0 1 (i\<lparr>s_refs := s_refs i + 1\<rparr>)))))"
    and "can_go i p \<Longrightarrow> 0 < sint (sem_op p) \<Longrightarrow> sys_semop k n [p] st = Some (Return (Inr ()) (upd_obj st a
       (let m = unat (sem_num p); s = sems i ! m in
        i\<lparr>sems := (sems i)[m := s\<lparr>semval := semval s + sem_op p, sempid := k_pid k\<rparr>],
          nwaitsem := semaphore_add (nwaitsem i) (ucast (semncnt s)), sem_otime := k_time k\<rparr>)))"
proof -
  let ?i = "i\<lparr>s_refs := s_refs i + 1\<rparr>" and ?st = "upd_obj st a (i\<lparr>s_refs := s_refs i + 1\<rparr>)"
  have ok: "set_ok ?i" "in_range ?i p" using assms(1,2) by (simp_all add: set_ok_def in_range_def)
  have c: "can_go ?i p = can_go i p" by (simp add: can_go_def)
  note scan = scan_range [OF ok(1), of "[p]" 0]
  { assume h: "\<not> can_go i p" "\<not> flag (ucast (sem_flg p)) IPC_NOWAIT" "0 < length (sems i)"
    show "sys_semop k n [p] st = Some (Sleep (a, 0, sem_op p = 0)
         (upd_obj st a (set_waitsem (sem_op p = 0) 0 (count_waiter (sem_op p = 0) 0 1 ?i))))"
      using semop_loop_sleeps [of ?st a ?i "[p]" 0 p k] h scan ok c assms by (simp add: sys_semop_def) }
  assume h: "can_go i p" "0 < sint (sem_op p)"
  have nz: "sem_op p \<noteq> 0" using h(2) by auto
  show "sys_semop k n [p] st = Some (Return (Inr ()) (upd_obj st a
       (let m = unat (sem_num p); s = sems i ! m in
        i\<lparr>sems := (sems i)[m := s\<lparr>semval := semval s + sem_op p, sempid := k_pid k\<rparr>],
          nwaitsem := semaphore_add (nwaitsem i) (ucast (semncnt s)), sem_otime := k_time k\<rparr>)))"
    using h nz scan ok c assms in_rangeD [OF ok]
    by (simp add: sys_semop_def) (subst semop_loop.simps, simp add: semop_done_def sys_semop_int_def Let_def)
qed

lemma sem_get_by_id_upd:
  "sem_get_by_id st n = Some a \<Longrightarrow> objs st a = Some i \<Longrightarrow> s_id j = s_id i \<Longrightarrow>
     sem_get_by_id (upd_obj st a j) n = Some a"
  unfolding sem_get_by_id_def by (rule find_obj_upd)

section \<open>Properties\<close>

text \<open>
  C25.  A \<^verbatim>\<open>semop\<close> on different semaphores is all or nothing.  If every operation can proceed
  it returns success and has added every \<^verbatim>\<open>sem_op\<close> to its semaphore, modulo \<open>2\<^sup>1\<^sup>6\<close>.  Otherwise
  no value has changed: if the first operation that cannot proceed has \<^verbatim>\<open>IPC_NOWAIT\<close> the call
  returns \<^verbatim>\<open>EAGAIN\<close>, else it sleeps.
\<close>

theorem semop_atomic:
  assumes "sem_ok st" "sem_get_by_id st n = Some a" "objs st a = Some i" "\<not> s_del i"
    "\<forall>p \<in> set sops. in_range i p" "distinct (map sem_num sops)" "length sops \<le> length (sems i)"
  shows "if \<forall>p \<in> set sops. can_go i p
    then \<exists>j. sys_semop k n sops st = Some (Return (Inr ()) (upd_obj st a j)) \<and> s_refs j = s_refs i
           \<and> length (sems j) = length (sems i)
           \<and> (\<forall>m < length (sems i). semval (sems j ! m) = value_after sops i m)
    else let p = hd (dropWhile (can_go i) sops) in
         if flag (ucast (sem_flg p)) IPC_NOWAIT then sys_semop k n sops st = Some (Return (Inl EAGAIN) st)
         else \<exists>w j. sys_semop k n sops st = Some (Sleep w (upd_obj st a j))
                \<and> map semval (sems j) = map semval (sems i) \<and> waitsem (sem_op p = 0) j = 0"
proof -
  let ?i = "i\<lparr>s_refs := s_refs i + 1\<rparr>" and ?st = "upd_obj st a (i\<lparr>s_refs := s_refs i + 1\<rparr>)"
  have ok: "set_ok ?i" using assms(1,3) by (simp add: table_ok_def set_ok_def)
  have r: "\<forall>p \<in> set sops. in_range ?i p" using assms(5) by (simp add: in_range_def)
  have c: "can_go ?i = can_go i" by (rule ext) (simp add: can_go_def)
  have call: "sys_semop k n sops st = semop_loop k a sops ?st" using assms(2-4) by (simp add: sys_semop_def)
  note scan = scan_range [OF ok r, of 0, unfolded c]
  show ?thesis
  proof (cases "\<forall>p \<in> set sops. can_go i p")
    case True
    have "value_after sops ?i = value_after sops i"
      by (rule ext) (simp add: value_after_def split: option.splits)
    with semop_loop_goes [of ?st a ?i sops k] True r c ok assms(6) call show ?thesis by auto
  next
    case False
    let ?p = "hd (dropWhile (can_go i) sops)" and ?n = "length (takeWhile (can_go i) sops)"
    have "?n < length sops" using False
      by (metis length_takeWhile_le le_neq_implies_less takeWhile_eq_all_conv take_all_iff takeWhile_eq_take order_refl)
    then have l: "?n < length (sems i)" using assms(7) by simp
    have s: "semop_scan ?i 0 sops = Inr (Some (?n, ?p))" using scan False by simp
    show ?thesis
    proof (cases "flag (ucast (sem_flg ?p)) IPC_NOWAIT")
      case True
      then show ?thesis using s call False upd_same [OF assms(3)]
        by (subst (asm) semop_loop.simps) (auto simp: Let_def)
    next
      case nw: False
      from semop_loop_sleeps [of ?st a ?i sops ?n ?p k] s l nw assms(4) call False
      show ?thesis using count_waiter_semval [of ?n ?i] by (auto simp: Let_def)
    qed
  qed
qed



text \<open>A set of two semaphores with the values 0 and 1, in a table of its own.\<close>

definition set_example :: sem_info where
  "set_example = (new_set \<lparr>k_creds = \<lparr>uid = 0, effective_uid = 0, gid = 0, effective_gid = 0\<rparr>, k_pid = 3, k_time = 9\<rparr>
     IPC_PRIVATE 0 2 448 [zero_sem, zero_sem])\<lparr>sems := [zero_sem, zero_sem\<lparr>semval := 1\<rparr>]\<rparr>"

definition sem_example :: sem_st where
  "sem_example = add_obj (sem_init\<lparr>ctr := 1\<rparr>) 8 set_example"

abbreviation k_root :: kctx where
  "k_root \<equiv> \<lparr>k_creds = \<lparr>uid = 0, effective_uid = 0, gid = 0, effective_gid = 0\<rparr>, k_pid = 3, k_time = 9\<rparr>"

lemma set_example_sel: "set_ok set_example" "\<not> s_del set_example" "sem_nsems set_example = 2" "s_id set_example = 0"
  "sems set_example = [zero_sem, zero_sem\<lparr>semval := 1\<rparr>]" "s_refs set_example = 0" "nwaitsem set_example = 0"
  by (simp_all add: set_example_def new_set_def set_ok_def semaphore_init_def)

lemma sem_example_sel: "objs sem_example 8 = Some set_example" "sem_get_by_id sem_example 0 = Some 8"
  "sem_ok sem_example"
  using set_example_sel
  by (auto simp: sem_example_def sem_init_def sem_get_by_id_def find_obj_def table_ok_def reg_ok_def add_obj_def)

definition P_op :: "u16 \<Rightarrow> sembuf" where
  "P_op n = \<lparr>sem_num = n, sem_op = - 1, sem_flg = 0\<rparr>"

definition V_op :: "u16 \<Rightarrow> sembuf" where
  "V_op n = \<lparr>sem_num = n, sem_op = 1, sem_flg = 0\<rparr>"

lemma no_wait_0 [simp]: "\<not> flag 0 x"
  by (simp add: flag_def)

theorem semop_atomic_witness:
  "\<exists>j. sys_semop k_root 0 [V_op 0, P_op 1] sem_example = Some (Return (Inr ()) (upd_obj sem_example 8 j))
     \<and> semval (sems j ! 0) = 1 \<and> semval (sems j ! 1) = 0"
  using semop_atomic [OF sem_example_sel(3,2,1), of "[V_op 0, P_op 1]" k_root]
  by (auto simp: set_example_sel in_range_def can_go_def V_op_def P_op_def value_after_def zero_sem_def)



section \<open>Where the code departs from its intent\<close>

text \<open>
  The check looks at each operation alone.  Two decrements of a semaphore that has a single
  count both pass it, and the second fails an assertion: the kernel stops.
\<close>

lemma semop_duplicates_assert:
  "sys_semop k_root 0 [P_op 1, P_op 1] sem_example = Some (Crash Assert_Failed)"
  using sem_example_sel set_example_sel
  by (simp add: sys_semop_def) (subst semop_loop.simps,
    simp add: checkblock_int_def P_op_def zero_sem_def semop_done_def sys_semop_int_def)

text \<open>
  The number of a semaphore comes from the caller, and the check asserts that it is in range
  before the code that would report \<^verbatim>\<open>EFBIG\<close> is reached.
\<close>

lemma semop_bad_number_asserts:
  "sys_semop k_root 0 [P_op 2] sem_example = Some (Crash Assert_Failed)"
  using sem_example_sel set_example_sel
  by (simp add: sys_semop_def) (subst semop_loop.simps, simp add: checkblock_int_def P_op_def)

text \<open>\<^verbatim>\<open>semctl\<close> accepts the number just beyond the last semaphore.\<close>

lemma semctl_off_by_one:
  "sys_semctl k_root 0 2 GETVAL 0 True True uvals u sem_example = Inl Out_Of_Bounds"
proof -
  have "ipc_have_permissions (k_creds k_root) (sem_perm set_example) IPC_PERM_READ" by code_simp
  then show ?thesis using sem_example_sel set_example_sel
    by (simp add: sys_semctl_def Let_def sem_field_def)
qed

text \<open>
  A waiter is counted at the semaphore whose number is the position of the operation in the
  array.  A process that waits for the second semaphore with a single operation is
  counted at the first, and the increment of the second wakes nobody.
\<close>

lemma semop_lost_wakeup:
  "\<exists>st1 st2 i2. sys_semop k_root 0 [P_op 1] (upd_obj sem_example 8 (set_example\<lparr>sems := [zero_sem, zero_sem]\<rparr>)) =
      Some (Sleep (8, 0, False) st1)
    \<and> sys_semop k_root 0 [V_op 1] st1 = Some (Return (Inr ()) st2)
    \<and> objs st2 8 = Some i2 \<and> semval (sems i2 ! 1) = 1 \<and> nwaitsem i2 = 0"
proof -
  let ?i = "set_example\<lparr>sems := [zero_sem, zero_sem]\<rparr>"
  let ?st = "upd_obj sem_example 8 ?i"
  have g: "sem_get_by_id ?st 0 = Some 8" using sem_get_by_id_upd [OF sem_example_sel(2,1), of ?i] by simp
  have ok: "set_ok ?i" "in_range ?i (P_op 1)" "\<not> can_go ?i (P_op 1)" "\<not> s_del ?i"
    by (simp_all add: set_ok_def set_example_sel in_range_def P_op_def can_go_def zero_sem_def)
  let ?i1 = "set_waitsem False 0 (count_waiter False 0 1 (?i\<lparr>s_refs := s_refs ?i + 1\<rparr>))"
  let ?st1 = "upd_obj ?st 8 ?i1"
  have 1: "sys_semop k_root 0 [P_op 1] ?st = Some (Sleep (8, 0, False) ?st1)"
    using semop_single(1) [OF ok(1,2) _ g ok(4,3), of k_root] by (simp add: P_op_def)
  have g1: "sem_get_by_id ?st1 0 = Some 8"
    using sem_get_by_id_upd [OF g, of ?i ?i1] by (simp add: set_waitsem_def count_waiter_def Let_def)
  have ok1: "set_ok ?i1" "in_range ?i1 (V_op 1)" "can_go ?i1 (V_op 1)" "\<not> s_del ?i1" "0 < sint (sem_op (V_op 1))"
    by (simp_all add: set_ok_def set_example_sel in_range_def V_op_def can_go_def)
  show ?thesis using 1 semop_single(2) [OF ok1(1,2) _ g1 ok1(4,3,5), of k_root]
    by (simp add: V_op_def Let_def set_waitsem_def count_waiter_def zero_sem_def semaphore_add_def)
qed

text \<open>
  The number of semaphores is not checked.  With a number for which the product wraps around to a
  few bytes the set reports more semaphores than its array has.
\<close>

lemma semget_negative:
  "sint (2505397590 :: u32) < 0 \<and> unat (12 * 2505397590 :: u32) div 12 = 0
     \<and> (\<exists>st i. sys_semget k_root (Some 8) (Some []) IPC_PRIVATE 2505397590 448 sem_init = Inr (Inr 0, st)
          \<and> objs st 8 = Some i \<and> length (sems i) = 0 \<and> unat (sem_nsems i) = 21846)"
proof -
  have s: "sint (2505397590 :: u32) < 0" by simp
  then have n: "nat (sint (2505397590 :: u32)) = 0" by simp
  have u: "unat (ucast (2505397590 :: u32) :: u16) = 21846" by simp
  have g: "sys_semget k_root (Some 8) (Some []) IPC_PRIVATE 2505397590 448 sem_init =
      Inr (Inr 0, add_obj (sem_init\<lparr>ctr := 1\<rparr>) 8 (new_set k_root IPC_PRIVATE 0 2505397590 448 []))"
    using s by (simp only: sys_semget_def Let_def) (simp add: sem_alloc_id_def alloc_id_def sem_init_def)
  have l: "length (sems (new_set k_root IPC_PRIVATE 0 2505397590 448 [])) = 0"
    "unat (sem_nsems (new_set k_root IPC_PRIVATE 0 2505397590 448 [])) = 21846"
    unfolding new_set_def n using u by simp_all
  show ?thesis using s g l by simp
qed

text \<open>\<^verbatim>\<open>SETVAL\<close> can make an operation possible for which a process waits, but wakes nobody.\<close>

lemma setval_wakes_nobody:
  assumes "sem_get_by_id st n = Some a" "objs st a = Some i"
    "sys_semctl k n m SETVAL buf got copied uvals u st = Inr (Inr r, st')"
  shows "\<exists>j. objs st' a = Some j \<and> nwaitsem j = nwaitsem i \<and> zwaitsem j = zwaitsem i"
  using assms by (auto simp: sys_semctl_def Let_def SETVAL_def GETVAL_def split: if_splits)

end
