(* ===== verification/Physmm.thy ===== *)
theory Physmm
  imports Kernel_Prelude
begin

text \<open>
  The physical memory manager of \<^verbatim>\<open>kernel/mm/physmm.c\<close>: a bitmap with one bit per frame of
  4096 bytes, set when the frame is available.
\<close>

section \<open>Operations\<close>

type_synonym bitmap = "nat \<Rightarrow> u32"

definition PHYSMM_BITMAP_SIZE :: nat where "PHYSMM_BITMAP_SIZE = 32768"
definition PAGE_SIZE :: u32 where "PAGE_SIZE = 4096"
definition PAGE_ADDR_MASK :: u32 where "PAGE_ADDR_MASK = PAGE_SIZE - 1"
definition PHYSMM_NO_FRAME :: u32 where "PHYSMM_NO_FRAME = 1"

definition PAGE_ROUND_DOWN :: "u32 \<Rightarrow> u32" where
  "PAGE_ROUND_DOWN a = a AND NOT PAGE_ADDR_MASK"

definition PAGE_ROUND_UP :: "u32 \<Rightarrow> u32" where
  "PAGE_ROUND_UP a = PAGE_ROUND_DOWN (a + PAGE_SIZE - 1)"

definition physmm_init :: bitmap where
  "physmm_init = (\<lambda>_. 0)"

definition bm_word :: "u32 \<Rightarrow> nat" where
  "bm_word address = unat (drop_bit 5 (drop_bit 12 address) AND 0x7FFF)"

definition bm_bit :: "u32 \<Rightarrow> nat" where
  "bm_bit address = unat (drop_bit 12 address AND 0x1F)"

definition physmm_set_bit :: "bitmap \<Rightarrow> u32 \<Rightarrow> bitmap" where
  "physmm_set_bit b address =
     b(bm_word address := b (bm_word address) OR push_bit (bm_bit address) 1)"

definition physmm_clear_bit :: "bitmap \<Rightarrow> u32 \<Rightarrow> bitmap" where
  "physmm_clear_bit b address =
     b(bm_word address := b (bm_word address) AND NOT (push_bit (bm_bit address) 1))"

definition physmm_free_frame :: "bitmap \<Rightarrow> u32 \<Rightarrow> bitmap" where
  "physmm_free_frame b address = physmm_set_bit b address"

text \<open>The loops over a range; the counter wraps around.\<close>

partial_function (option) range_loop :: "('b \<Rightarrow> u32 \<Rightarrow> 'b) \<Rightarrow> u32 \<Rightarrow> u32 \<Rightarrow> 'b \<Rightarrow> 'b option" where
  "range_loop f counter end b =
     (if counter < end then range_loop f (counter + PAGE_SIZE) end (f b counter) else Some b)"

definition physmm_free_range :: "bitmap \<Rightarrow> u32 \<Rightarrow> u32 \<Rightarrow> bitmap exec option" where
  "physmm_free_range b start end =
     (if \<not> start < end then Some (Inl Assert_Failed)
      else map_option Inr (range_loop physmm_free_frame start end b))"

definition physmm_claim_range :: "bitmap \<Rightarrow> u32 \<Rightarrow> u32 \<Rightarrow> bitmap exec option" where
  "physmm_claim_range b start end =
     (if \<not> start < end then Some (Inl Assert_Failed)
      else map_option Inr (range_loop physmm_clear_bit start end b))"

text \<open>The loop over the bits of a word, in steps of \<open>k\<close>.\<close>

function scan_bits :: "(nat \<Rightarrow> bool) \<Rightarrow> nat \<Rightarrow> nat \<Rightarrow> nat option" where
  "scan_bits test k n = (if n < 32 then if test n then Some n else scan_bits test k (n + Suc k) else None)"
  by auto
termination by (relation "measure (\<lambda>(test, k, n). 32 - n)") auto

text \<open>The loop over the words of the bitmap.\<close>

function scan_words :: "(u32 \<Rightarrow> nat option) \<Rightarrow> bitmap \<Rightarrow> nat \<Rightarrow> (nat \<times> nat) option" where
  "scan_words pick b n =
     (if n < PHYSMM_BITMAP_SIZE
      then (case pick (b n) of Some m \<Rightarrow> Some (n, m) | None \<Rightarrow> scan_words pick b (Suc n))
      else None)"
  by auto
termination by (relation "measure (\<lambda>(pick, b, n). PHYSMM_BITMAP_SIZE - n)") auto

declare scan_bits.simps [simp del] scan_words.simps [simp del]

definition frame_addr :: "nat \<Rightarrow> nat \<Rightarrow> u32" where
  "frame_addr counter bit_counter = push_bit 12 (push_bit 5 (of_nat counter) OR of_nat bit_counter)"

definition pick_bit :: "u32 \<Rightarrow> nat option" where
  "pick_bit w = (if w = 0 then None else scan_bits (\<lambda>n. flag w (push_bit n 1)) 0 0)"

definition physmm_alloc_frame :: "bitmap \<Rightarrow> u32 \<times> bitmap" where
  "physmm_alloc_frame b =
     (case scan_words pick_bit b 0 of
        None \<Rightarrow> (PHYSMM_NO_FRAME, b)
      | Some (w, n) \<Rightarrow> let a = frame_addr w n in (a, physmm_clear_bit b a))"

definition pick_quad :: "u32 \<Rightarrow> nat option" where
  "pick_quad w = (if w = 0 then None else scan_bits (\<lambda>n. w AND push_bit n 0xF = 0xF) 3 0)"

definition physmm_alloc_quadframe :: "bitmap \<Rightarrow> u32 \<times> bitmap" where
  "physmm_alloc_quadframe b =
     (case scan_words pick_quad b 0 of
        None \<Rightarrow> (PHYSMM_NO_FRAME, b)
      | Some (w, n) \<Rightarrow>
          let a = frame_addr w n
          in (a, physmm_clear_bit (physmm_clear_bit (physmm_clear_bit (physmm_clear_bit b
                   (a + PAGE_SIZE * 0)) (a + PAGE_SIZE * 1)) (a + PAGE_SIZE * 2)) (a + PAGE_SIZE * 3)))"

definition physmm_alloc_bmcopy :: "bitmap \<Rightarrow> u32 \<times> bitmap" where
  "physmm_alloc_bmcopy b =
     (case scan_words (\<lambda>w. if w \<noteq> 0xFFFFFFFF then None else Some 0) b 0 of
        None \<Rightarrow> (PHYSMM_NO_FRAME, b)
      | Some (w, _) \<Rightarrow> (push_bit 17 (of_nat w), b(w := 0)))"

definition word_free :: "u32 \<Rightarrow> u32" where
  "word_free w = (if w = 0 then 0 else \<Sum>n\<leftarrow>[0..<32]. if flag w (push_bit n 1) then PAGE_SIZE else 0)"

definition physmm_count_free :: "bitmap \<Rightarrow> u32" where
  "physmm_count_free b = (\<Sum>n\<leftarrow>[0..<PHYSMM_BITMAP_SIZE]. word_free (b n))"

section \<open>Frames\<close>

text \<open>The frames as numbers below \<open>2\<^sup>2\<^sup>0\<close>, and the set of the available ones.\<close>

definition frame_of :: "u32 \<Rightarrow> nat" where
  "frame_of address = unat (drop_bit 12 address)"

definition addr_of :: "nat \<Rightarrow> u32" where
  "addr_of f = push_bit 12 (of_nat f)"

definition free_frames :: "bitmap \<Rightarrow> nat set" where
  "free_frames b = {f. f < 2 ^ 20 \<and> bit (b (f div 32)) (f mod 32)}"

lemma unat_less32: "unat (a :: u32) < 4294967296"
  using unsigned_less [of a, where 'a = nat] by simp

lemma page_mask: "PAGE_ADDR_MASK = mask 12"
  by (simp add: PAGE_ADDR_MASK_def PAGE_SIZE_def mask_eq_exp_minus_1)

lemma unat_round_down: "unat (PAGE_ROUND_DOWN a) = 4096 * (unat a div 4096)"
proof -
  have "PAGE_ROUND_DOWN a = push_bit 12 (drop_bit 12 a)"
    unfolding PAGE_ROUND_DOWN_def page_mask by (rule bit_word_eqI) (auto simp: bit_simps)
  then have "unat (PAGE_ROUND_DOWN a) = unat (drop_bit 12 a) * 4096 mod 2 ^ 32"
    by (simp add: push_bit_eq_mult unat_word_ariths)
  also have "unat (drop_bit 12 a) = unat a div 4096" by (simp add: drop_bit_eq_div unat_div_distrib)
  finally show ?thesis using unat_less32 [of a] by simp
qed

lemma round_up_eq: "PAGE_ROUND_UP a = PAGE_ROUND_DOWN (a + PAGE_ADDR_MASK)"
  by (simp add: PAGE_ROUND_UP_def PAGE_ADDR_MASK_def PAGE_SIZE_def add.commute)

lemma unat_round_up:
  assumes "unat a \<le> 2 ^ 32 - 4096"
  shows "unat (PAGE_ROUND_UP a) = 4096 * ((unat a + 4095) div 4096)"
proof -
  have "unat (a + PAGE_ADDR_MASK) = unat a + 4095"
    using assms by (simp add: PAGE_ADDR_MASK_def PAGE_SIZE_def unat_word_ariths)
  then show ?thesis by (simp add: round_up_eq unat_round_down)
qed

lemma unat_div_page: "unat (a div PAGE_SIZE) = unat a div 4096"
  by (simp add: PAGE_SIZE_def unat_div_distrib)

lemma frame_of_div: "frame_of a = unat a div 4096"
  unfolding frame_of_def unat_drop_bit_eq by (simp add: drop_bit_eq_div)

lemma frame_of_less: "frame_of a < 2 ^ 20"
  using unat_less32 [of a] by (simp add: frame_of_div)

lemma bm_bit_frame: "bm_bit a = frame_of a mod 32"
proof -
  have "x AND 0x1F = take_bit 5 x" for x :: u32 by (simp add: take_bit_eq_mask mask_eq_exp_minus_1)
  then show ?thesis
    by (simp add: bm_bit_def frame_of_def unsigned_take_bit_eq) (simp add: take_bit_eq_mod)
qed

lemma bm_word_frame: "bm_word a = frame_of a div 32"
proof -
  have "x AND 0x7FFF = take_bit 15 x" for x :: u32 by (simp add: take_bit_eq_mask mask_eq_exp_minus_1)
  then have "bm_word a = take_bit 15 (drop_bit 5 (frame_of a))"
    by (simp add: bm_word_def frame_of_def unsigned_take_bit_eq unat_drop_bit_eq)
  also have "\<dots> = frame_of a div 32"
    using frame_of_less [of a] by (simp add: drop_bit_eq_div take_bit_eq_mod)
  finally show ?thesis .
qed

lemma frame_of_addr_of: "f < 2 ^ 20 \<Longrightarrow> frame_of (addr_of f) = f"
proof -
  assume f: "f < 2 ^ 20"
  have "unat (addr_of f) = f * 4096"
    using f by (simp add: addr_of_def push_bit_eq_mult unat_word_ariths unat_of_nat take_bit_eq_mod)
  then show ?thesis by (simp add: frame_of_div)
qed

lemma addr_of_frame: "unat a mod 4096 = 0 \<Longrightarrow> addr_of (frame_of a) = a"
proof -
  assume "unat a mod 4096 = 0"
  then have "unat a div 4096 * 4096 = unat a" by (metis add.right_neutral div_mult_mod_eq)
  moreover have "unat (addr_of (frame_of a)) = unat a div 4096 * 4096"
    using frame_of_less [of a] unat_less32 [of a]
    by (simp add: addr_of_def frame_of_div push_bit_eq_mult unat_word_ariths unat_of_nat take_bit_eq_mod)
  ultimately show ?thesis by (simp add: word_unat_eq_iff)
qed

lemma addr_of_not_none: "f < 2 ^ 20 \<Longrightarrow> addr_of f \<noteq> PHYSMM_NO_FRAME"
proof
  assume f: "f < 2 ^ 20" and "addr_of f = PHYSMM_NO_FRAME"
  then have "unat (addr_of f) = 1" by (simp add: PHYSMM_NO_FRAME_def)
  moreover have "unat (addr_of f) = f * 4096"
    using f by (simp add: addr_of_def push_bit_eq_mult unat_word_ariths unat_of_nat take_bit_eq_mod)
  ultimately show False by simp
qed

lemma free_set_bit: "free_frames (physmm_set_bit b a) = insert (frame_of a) (free_frames b)"
proof -
  have "f div 32 = g div 32 \<and> f mod 32 = g mod 32 \<longleftrightarrow> f = g" for f g :: nat
    by (metis div_mult_mod_eq)
  then show ?thesis using frame_of_less [of a]
    by (auto simp: free_frames_def physmm_set_bit_def bm_word_frame bm_bit_frame bit_simps split: if_splits)
qed

lemma free_clear_bit: "free_frames (physmm_clear_bit b a) = free_frames b - {frame_of a}"
proof -
  have "f div 32 = g div 32 \<and> f mod 32 = g mod 32 \<longleftrightarrow> f = g" for f g :: nat
    by (metis div_mult_mod_eq)
  then show ?thesis
    by (auto simp: free_frames_def physmm_clear_bit_def bm_word_frame bm_bit_frame bit_simps split: if_splits)
qed


section \<open>Allocation\<close>

lemma flag_push_bit: "flag w (push_bit n 1) = bit w n" for w :: u32
  by (simp add: flag_def and_exp_eq_0_iff_not_bit)

lemma all_from: "n < N \<Longrightarrow> (\<forall>m. n \<le> m \<and> m < N \<longrightarrow> P m) \<longleftrightarrow> P n \<and> (\<forall>m. Suc n \<le> m \<and> m < N \<longrightarrow> P m)"
  by (metis Suc_leD Suc_leI le_neq_implies_less order_refl)

lemma scan_bits_None: "scan_bits test 0 n = None \<longleftrightarrow> (\<forall>m. n \<le> m \<and> m < 32 \<longrightarrow> \<not> test m)"
proof (induction test "0 :: nat" n rule: scan_bits.induct)
  case (1 test n)
  show ?case
  proof (cases "n < 32")
    case True
    then show ?thesis using 1 all_from [OF True, of "\<lambda>m. \<not> test m"] by (subst scan_bits.simps) auto
  qed (subst scan_bits.simps, auto)
qed

lemma scan_bits_Some:
  "scan_bits test 0 n = Some m \<Longrightarrow> n \<le> m \<and> m < 32 \<and> test m \<and> (\<forall>l. n \<le> l \<and> l < m \<longrightarrow> \<not> test l)"
proof (induction test "0 :: nat" n rule: scan_bits.induct)
  case (1 test n)
  have "n < 32" "if test n then m = n else scan_bits test 0 (Suc n) = Some m"
    using 1(2) by (subst (asm) scan_bits.simps, simp split: if_splits)+
  then show ?case using 1(1) all_from [of n m "\<lambda>m. \<not> test m"] by (auto split: if_splits)
qed

lemma pick_bit_None: "pick_bit w = None \<longleftrightarrow> w = 0"
proof -
  have "w = 0" if "\<forall>m<32. \<not> bit w m" using that by (intro bit_word_eqI) simp
  then show ?thesis by (auto simp: pick_bit_def scan_bits_None simp del: push_bit_of_1 simp add: flag_push_bit)
qed

lemma pick_bit_Some: "pick_bit w = Some m \<Longrightarrow> m < 32 \<and> bit w m \<and> (\<forall>l < m. \<not> bit w l)"
  unfolding pick_bit_def flag_push_bit by (auto dest!: scan_bits_Some split: if_splits)

lemma scan_words_None: "scan_words pick b n = None \<longleftrightarrow> (\<forall>m. n \<le> m \<and> m < PHYSMM_BITMAP_SIZE \<longrightarrow> pick (b m) = None)"
proof (induction pick b n rule: scan_words.induct)
  case (1 pick b n)
  show ?case
  proof (cases "n < PHYSMM_BITMAP_SIZE")
    case True
    then show ?thesis using 1 all_from [OF True, of "\<lambda>m. pick (b m) = None"]
      by (subst scan_words.simps) (auto split: option.splits)
  qed (subst scan_words.simps, auto)
qed

lemma scan_words_Some:
  "scan_words pick b n = Some (m, k) \<Longrightarrow>
     n \<le> m \<and> m < PHYSMM_BITMAP_SIZE \<and> pick (b m) = Some k \<and> (\<forall>l. n \<le> l \<and> l < m \<longrightarrow> pick (b l) = None)"
proof (induction pick b n rule: scan_words.induct)
  case (1 pick b n)
  have "n < PHYSMM_BITMAP_SIZE"
    "case pick (b n) of None \<Rightarrow> scan_words pick b (Suc n) = Some (m, k) | Some j \<Rightarrow> m = n \<and> j = k"
    using 1(2) by (subst (asm) scan_words.simps, simp split: if_splits option.splits)+
  then show ?case using 1(1) all_from [of n m "\<lambda>m. pick (b m) = None"] by (auto split: option.splits)
qed

lemma frame_addr_eq: "w < 32768 \<Longrightarrow> n < 32 \<Longrightarrow> frame_addr w n = addr_of (w * 32 + n)"
proof -
  assume w: "w < 32768" and n: "n < 32"
  have "push_bit 5 (of_nat w) OR of_nat n = (push_bit 5 (of_nat w) + of_nat n :: u32)"
  proof (rule disjunctive_add [symmetric])
    fix k
    have "\<not> bit (of_nat n :: u32) k" if "5 \<le> k"
    proof -
      have "n < 2 ^ k" using n power_increasing [of 5 k "2 :: nat"] that by simp
      then have "\<not> bit n k" by (simp add: bit_iff_odd)
      then show ?thesis by (simp only: bit_of_nat_iff) simp
    qed
    then show "\<not> bit (push_bit 5 (of_nat w) :: u32) k \<or> \<not> bit (of_nat n :: u32) k"
      by (auto simp: bit_push_bit_iff)
  qed
  also have "\<dots> = of_nat (w * 32 + n)" by (simp add: push_bit_eq_mult)
  finally show ?thesis by (simp add: frame_addr_def addr_of_def)
qed


lemma free_frames_finite: "finite (free_frames b)"
  by (rule finite_subset [of _ "{..<2 ^ 20}"]) (auto simp: free_frames_def)

lemma frame_split: "f < 2 ^ 20 \<Longrightarrow> f div 32 < PHYSMM_BITMAP_SIZE" "f mod 32 < (32 :: nat)" for f :: nat
  by (simp_all add: PHYSMM_BITMAP_SIZE_def)

lemma alloc_frame_eq:
  "physmm_alloc_frame b =
     (if free_frames b = {} then (PHYSMM_NO_FRAME, b)
      else let a = addr_of (Min (free_frames b)) in (a, physmm_clear_bit b a))"
proof (cases "scan_words pick_bit b 0")
  case None
  then have z: "b m = 0" if "m < PHYSMM_BITMAP_SIZE" for m
    using that by (simp add: scan_words_None pick_bit_None)
  have "free_frames b = {}" using frame_split(1) z by (fastforce simp: free_frames_def)
  then show ?thesis using None by (simp add: physmm_alloc_frame_def)
next
  case (Some p)
  obtain w n where p: "p = (w, n)" by (cases p)
  have w: "w < PHYSMM_BITMAP_SIZE" "\<And>l. l < w \<Longrightarrow> b l = 0"
      and n: "n < 32" "bit (b w) n" "\<And>l. l < n \<Longrightarrow> \<not> bit (b w) l"
    using scan_words_Some [of pick_bit b 0 w n] Some p pick_bit_Some pick_bit_None by auto
  let ?f = "w * 32 + n"
  have lt: "?f < 2 ^ 20" using w(1) n(1) by (simp add: PHYSMM_BITMAP_SIZE_def)
  have f: "?f \<in> free_frames b" using lt n by (simp add: free_frames_def)
  have "?f \<le> g" if g: "g \<in> free_frames b" for g
  proof (rule ccontr)
    assume "\<not> ?f \<le> g"
    then have "g < Suc w * 32" using n(1) by simp
    then have "g div 32 < Suc w" by (rule less_mult_imp_div_less)
    moreover have "g = g div 32 * 32 + g mod 32" by simp
    ultimately have "g div 32 < w \<or> g div 32 = w \<and> g mod 32 < n"
      using \<open>\<not> ?f \<le> g\<close> by (metis add_less_cancel_left less_Suc_eq not_le)
    then show False using g w(2) n(3) by (auto simp: free_frames_def)
  qed
  then have "Min (free_frames b) = ?f" using f free_frames_finite by (intro Min_eqI) auto
  then show ?thesis using Some p f w(1) n(1)
    by (auto simp: physmm_alloc_frame_def frame_addr_eq PHYSMM_BITMAP_SIZE_def Let_def)
qed

section \<open>The interface of a frame allocator\<close>

text \<open>
  What the users of frames rely on: an allocated frame was available and is no longer, a freed
  frame is available again, and only an empty allocator refuses.
\<close>

text \<open>
  The loop with which a client takes \<open>n\<close> frames and gives back those it has when the
  allocator refuses (\<^verbatim>\<open>_sys_shmget\<close>).
\<close>

fun get_frames :: "('b \<Rightarrow> u32 \<times> 'b) \<Rightarrow> ('b \<Rightarrow> u32 \<Rightarrow> 'b) \<Rightarrow> nat \<Rightarrow> u32 list \<Rightarrow> 'b \<Rightarrow> u32 list option \<times> 'b" where
  "get_frames alloc free 0 acc b = (Some acc, b)"
| "get_frames alloc free (Suc n) acc b =
     (case alloc b of
        (a, b') \<Rightarrow>
          if a = PHYSMM_NO_FRAME then (None, foldl free b' acc)
          else get_frames alloc free n (acc @ [a]) b')"

locale frame_allocator =
  fixes alloc :: "'b \<Rightarrow> u32 \<times> 'b" and free :: "'b \<Rightarrow> u32 \<Rightarrow> 'b" and avail :: "'b \<Rightarrow> u32 set"
  assumes alloc_none: "avail b = {} \<Longrightarrow> alloc b = (PHYSMM_NO_FRAME, b)"
    and alloc_some: "avail b \<noteq> {} \<Longrightarrow> \<exists>a b'. alloc b = (a, b') \<and> a \<in> avail b \<and> avail b' = avail b - {a}"
    and avail_frame: "a \<in> avail b \<Longrightarrow> a \<noteq> PHYSMM_NO_FRAME"
    and free_avail: "a \<in> avail b \<Longrightarrow> avail (free b' a) = insert a (avail b')"
begin

text \<open>Freeing a list of frames that were once available.\<close>

lemma free_list:
  "(\<And>a. a \<in> set fs \<Longrightarrow> \<exists>b. a \<in> avail b) \<Longrightarrow> avail (foldl free b fs) = avail b \<union> set fs"
proof (induction fs arbitrary: b)
  case (Cons a fs)
  have "\<exists>c. a \<in> avail c" using Cons.prems by simp
  then have "avail (free b a) = insert a (avail b)" using free_avail by blast
  moreover have "avail (foldl free (free b a) fs) = avail (free b a) \<union> set fs"
    using Cons.prems by (intro Cons.IH) simp
  ultimately show ?case by simp
qed simp

text \<open>
  Taking \<open>n\<close> frames is all or nothing: either \<open>n\<close> different frames that were available are handed
  out and only they are gone, or everything is available as before.
\<close>

lemma get_frames_ok:
  assumes "get_frames alloc free n acc b = (r, b')" "\<And>a. a \<in> set acc \<Longrightarrow> \<exists>b. a \<in> avail b"
  shows "case r of
      None \<Rightarrow> avail b' = avail b \<union> set acc
    | Some fs \<Rightarrow> \<exists>new. fs = acc @ new \<and> length new = n \<and> distinct new \<and> set new \<subseteq> avail b
                   \<and> avail b' = avail b - set new"
  using assms
proof (induction n arbitrary: acc b)
  case (Suc n)
  obtain a b1 where a: "alloc b = (a, b1)" by (cases "alloc b")
  show ?case
  proof (cases "avail b = {}")
    case True
    then have "a = PHYSMM_NO_FRAME" "b1 = b" using alloc_none a by auto
    then show ?thesis using Suc.prems a free_list [OF Suc.prems(2)] by auto
  next
    case False
    then have av: "a \<in> avail b" "avail b1 = avail b - {a}" using alloc_some [OF False] a by auto
    then have "get_frames alloc free n (acc @ [a]) b1 = (r, b')"
      using Suc.prems(1) a avail_frame by auto
    from Suc.IH [OF this] Suc.prems(2) av(1)
    have ih: "case r of None \<Rightarrow> avail b' = avail b1 \<union> set (acc @ [a])
      | Some fs \<Rightarrow> \<exists>new. fs = (acc @ [a]) @ new \<and> length new = n \<and> distinct new \<and> set new \<subseteq> avail b1
                     \<and> avail b' = avail b1 - set new" by auto
    show ?thesis
    proof (cases r)
      case None
      then show ?thesis using ih av by auto
    next
      case (Some fs)
      then obtain new where n: "fs = (acc @ [a]) @ new" "length new = n" "distinct new" "set new \<subseteq> avail b1"
          "avail b' = avail b1 - set new" using ih by auto
      then have "fs = acc @ (a # new) \<and> length (a # new) = Suc n \<and> distinct (a # new) \<and> set (a # new) \<subseteq> avail b
          \<and> avail b' = avail b - set (a # new)" using av by auto
      then show ?thesis using Some by auto
    qed
  qed
qed auto

lemma get_frames_enough:
  "n \<le> card (avail b) \<Longrightarrow> finite (avail b) \<Longrightarrow> \<exists>fs b'. get_frames alloc free n acc b = (Some fs, b')"
proof (induction n arbitrary: acc b)
  case (Suc n)
  then have "avail b \<noteq> {}" by auto
  then obtain a b1 where a: "alloc b = (a, b1)" "a \<in> avail b" "avail b1 = avail b - {a}" using alloc_some by blast
  then have "n \<le> card (avail b1)" "finite (avail b1)" using Suc.prems by auto
  from Suc.IH [OF this, of "acc @ [a]"] show ?case using a avail_frame by auto
qed simp

end

definition avail_addrs :: "bitmap \<Rightarrow> u32 set" where
  "avail_addrs b = addr_of ` free_frames b"

lemma addr_of_inj: "inj_on addr_of {f. f < 2 ^ 20}"
  by (metis (mono_tags, lifting) frame_of_addr_of inj_onI mem_Collect_eq)

lemma free_frames_sub: "free_frames b \<subseteq> {f. f < 2 ^ 20}"
  by (auto simp: free_frames_def)

interpretation pm: frame_allocator physmm_alloc_frame physmm_free_frame avail_addrs
proof
  fix b :: bitmap
  show "avail_addrs b = {} \<Longrightarrow> physmm_alloc_frame b = (PHYSMM_NO_FRAME, b)"
    by (simp add: avail_addrs_def alloc_frame_eq)
next
  fix b :: bitmap
  assume "avail_addrs b \<noteq> {}"
  then have ne: "free_frames b \<noteq> {}" by (simp add: avail_addrs_def)
  let ?f = "Min (free_frames b)"
  have m: "?f \<in> free_frames b" using Min_in [OF free_frames_finite ne] .
  then have l: "?f < 2 ^ 20" using free_frames_sub by blast
  have "addr_of ` (free_frames b - {?f}) = addr_of ` free_frames b - {addr_of ?f}"
    using inj_on_image_set_diff [OF addr_of_inj, of "free_frames b" "{?f}"] l free_frames_sub by auto
  then show "\<exists>a b'. physmm_alloc_frame b = (a, b') \<and> a \<in> avail_addrs b \<and> avail_addrs b' = avail_addrs b - {a}"
    using ne m l by (simp add: alloc_frame_eq Let_def avail_addrs_def free_clear_bit frame_of_addr_of)
next
  fix a b
  assume "a \<in> avail_addrs b"
  then show "a \<noteq> PHYSMM_NO_FRAME" using addr_of_not_none by (auto simp: avail_addrs_def free_frames_def)
next
  fix a b b'
  assume "a \<in> avail_addrs b"
  then obtain f where "a = addr_of f" "f < 2 ^ 20" using free_frames_sub by (auto simp: avail_addrs_def)
  then show "avail_addrs (physmm_free_frame b' a) = insert a (avail_addrs b')"
    by (simp add: avail_addrs_def physmm_free_frame_def free_set_bit frame_of_addr_of)
qed


text \<open>The addresses of frames.\<close>

abbreviation is_frame :: "u32 \<Rightarrow> bool" where
  "is_frame a \<equiv> unat a mod 4096 = 0"

lemma is_frame_avail: "is_frame a \<longleftrightarrow> (\<exists>b. a \<in> avail_addrs b)"
proof
  assume a: "is_frame a"
  have "frame_of a \<in> free_frames (\<lambda>_. - 1)" using frame_of_less [of a] by (simp add: free_frames_def)
  then show "\<exists>b. a \<in> avail_addrs b" using addr_of_frame [OF a] by (metis avail_addrs_def imageI)
next
  assume "\<exists>b. a \<in> avail_addrs b"
  then obtain f where "a = addr_of f" "f < 2 ^ 20" by (auto simp: avail_addrs_def free_frames_def)
  then have "unat a = f * 4096"
    by (simp add: addr_of_def push_bit_eq_mult unat_word_ariths unat_of_nat take_bit_eq_mod)
  then show "is_frame a" by simp
qed

section \<open>Ranges\<close>

text \<open>The loop over a range that ends before the last page of the address space.\<close>

lemma range_loop_pages:
  assumes "unat end \<le> unat start + n * 4096" "unat start + n * 4096 < 2 ^ 32" "n = 0 \<or> unat start + (n - 1) * 4096 < unat end"
  shows "range_loop f start end b = Some (foldl (\<lambda>b k. f b (start + of_nat k * PAGE_SIZE)) b [0..<n])"
  using assms
proof (induction n arbitrary: start b)
  case 0
  then show ?case by (subst range_loop.simps) (simp add: word_less_nat_alt)
next
  case (Suc n)
  have u: "unat (start + PAGE_SIZE) = unat start + 4096"
    using Suc.prems(2) by (simp add: PAGE_SIZE_def unat_word_ariths)
  have ih: "range_loop f (start + PAGE_SIZE) end (f b start) =
      Some (foldl (\<lambda>b k. f b (start + PAGE_SIZE + of_nat k * PAGE_SIZE)) (f b start) [0..<n])"
    using Suc.prems u by (intro Suc.IH) (cases n; simp)+
  have "foldl (\<lambda>b k. f b (start + of_nat k * PAGE_SIZE)) b [0..<Suc n] =
      foldl (\<lambda>b k. f b (start + PAGE_SIZE + of_nat k * PAGE_SIZE)) (f b start) [0..<n]"
  proof -
    have "[0..<Suc n] = 0 # map Suc [0..<n]" by (simp add: upt_conv_Cons map_Suc_upt del: upt_Suc)
    then show ?thesis by (simp only: foldl.simps foldl_map) (simp add: algebra_simps)
  qed
  moreover have "start < end" using Suc.prems(3) by (simp add: word_less_nat_alt)
  ultimately show ?case using ih by (subst range_loop.simps) simp
qed

lemma foldl_set_bit: "free_frames (foldl (\<lambda>b k. physmm_free_frame b (g k)) b ks) = free_frames b \<union> (frame_of \<circ> g) ` set ks"
  by (induction ks arbitrary: b) (auto simp: physmm_free_frame_def free_set_bit)

lemma foldl_clear_bit: "free_frames (foldl (\<lambda>b k. physmm_clear_bit b (g k)) b ks) = free_frames b - (frame_of \<circ> g) ` set ks"
  by (induction ks arbitrary: b) (auto simp: free_clear_bit)


lemma page_frames:
  assumes "unat start mod 4096 = 0" "unat start + n * 4096 < 2 ^ 32"
  shows "(frame_of \<circ> (\<lambda>k. start + of_nat k * PAGE_SIZE)) ` set [0..<n] = {frame_of start..<frame_of start + n}"
proof -
  have "frame_of (start + of_nat k * PAGE_SIZE) = frame_of start + k" if "k < n" for k
  proof -
    have "unat start + k * 4096 < 2 ^ 32" using that assms(2) by simp
    then have "unat (start + of_nat k * PAGE_SIZE) = unat start + k * 4096"
      by (simp add: PAGE_SIZE_def unat_word_ariths unat_of_nat take_bit_eq_mod)
    then show ?thesis using assms(1) by (simp add: frame_of_div)
  qed
  moreover have "(\<lambda>k. frame_of start + k) ` {0..<n} = {frame_of start..<frame_of start + n}"
    by (simp add: add.commute)
  ultimately show ?thesis by (simp add: image_def Bex_def cong: conj_cong)
qed

section \<open>Properties\<close>

text \<open>
  C30.  \<^verbatim>\<open>physmm_alloc_frame\<close> gives the lowest available frame and makes exactly this one
  unavailable; it gives \<^verbatim>\<open>PHYSMM_NO_FRAME\<close>, which is no frame address, exactly when none is
  available, and then changes nothing; and \<^verbatim>\<open>physmm_free_frame\<close> undoes it.
\<close>

theorem physmm_alloc_lowest:
  "case physmm_alloc_frame b of (a, b') \<Rightarrow>
     if free_frames b = {} then a = PHYSMM_NO_FRAME \<and> b' = b
     else a \<noteq> PHYSMM_NO_FRAME \<and> a = addr_of (Min (free_frames b)) \<and> frame_of a = Min (free_frames b)
       \<and> free_frames b' = free_frames b - {Min (free_frames b)}
       \<and> free_frames (physmm_free_frame b' a) = free_frames b"
proof (cases "free_frames b = {}")
  case False
  have m: "Min (free_frames b) \<in> free_frames b" using Min_in [OF free_frames_finite False] .
  then have "Min (free_frames b) < 2 ^ 20" using free_frames_sub by blast
  then show ?thesis using False m addr_of_not_none
    by (auto simp: alloc_frame_eq Let_def free_clear_bit free_set_bit frame_of_addr_of physmm_free_frame_def)
qed (simp add: alloc_frame_eq)

text \<open>
  C31.  Freeing and claiming a range of whole pages that ends before the last page of the
  address space terminate, and make exactly the frames of the range available and
  unavailable.
\<close>

theorem physmm_ranges:
  assumes "start < end" "unat start mod 4096 = 0" "unat end mod 4096 = 0"
  shows "\<exists>b1 b2. physmm_free_range b start end = Some (Inr b1)
     \<and> free_frames b1 = free_frames b \<union> {frame_of start..<frame_of end}
     \<and> physmm_claim_range b start end = Some (Inr b2)
     \<and> free_frames b2 = free_frames b - {frame_of start..<frame_of end}"
proof -
  let ?n = "frame_of end - frame_of start" and ?g = "\<lambda>k. start + of_nat k * PAGE_SIZE"
  have e: "unat end = frame_of end * 4096" "unat start = frame_of start * 4096"
    using assms(2,3) by (auto simp: frame_of_div)
  have lt: "frame_of start < frame_of end" using assms(1) e by (simp add: word_less_nat_alt)
  then have n: "unat end = unat start + ?n * 4096" "?n = 0 \<or> unat start + (?n - 1) * 4096 < unat end"
    using e by (simp_all add: algebra_simps diff_mult_distrib)
  have b: "unat start + ?n * 4096 < 2 ^ 32" using n(1) unat_less32 [of "end"] by simp
  note loop = range_loop_pages [OF eq_refl [OF n(1)] b n(2)]
  have "frame_of start + ?n = frame_of end" using lt by simp
  with page_frames [OF assms(2) b] show ?thesis
    using assms(1) foldl_set_bit [of ?g b "[0..<?n]"] foldl_clear_bit [of ?g b "[0..<?n]"]
    by (simp add: physmm_free_range_def physmm_claim_range_def loop)
qed

theorem physmm_ranges_witness:
  "\<exists>b. physmm_free_range physmm_init 0x1000 0x3000 = Some (Inr b) \<and> free_frames b = {1, 2}"
proof -
  have "free_frames physmm_init = {}" by (simp add: free_frames_def physmm_init_def)
  moreover have "{Suc 0..<3} = {1, 2 :: nat}" by auto
  ultimately show ?thesis
    using physmm_ranges [of "0x1000" "0x3000" physmm_init] by (auto simp: frame_of_div)
qed

section \<open>Where the code departs from its intent\<close>

text \<open>
  A range that ends in the last page of the address space is never left: the counter wraps
  around to 0.
\<close>

lemma range_loop_goes_on:
  assumes "unat c mod 4096 = 0" "2 ^ 32 - 4096 < unat e"
  shows "range_loop f c e b = range_loop f (c + PAGE_SIZE) e (f b c) \<and> unat (c + PAGE_SIZE) mod 4096 = 0"
proof -
  have "unat (c + PAGE_SIZE) mod 4096 = (unat c + 4096) mod 4096"
    by (simp only: PAGE_SIZE_def unat_word_ariths) (simp add: mod_mod_cancel)
  then have 1: "unat (c + PAGE_SIZE) mod 4096 = 0" using assms(1) by (simp only: mod_add_self2)
  have "unat c = frame_of c * 4096" using assms(1) by (auto simp: frame_of_div)
  then have "unat c \<le> 2 ^ 32 - 4096" using frame_of_less [of c] by simp
  then have "c < e" using assms(2) unfolding word_less_nat_alt by linarith
  then show ?thesis using 1 by (subst range_loop.simps) simp
qed

text \<open>
  \<^verbatim>\<open>physmm_alloc_quadframe\<close> compares the masked word with \<^verbatim>\<open>0xF\<close> instead of the shifted mask,
  so it finds four frames only at the lowest position of a word.
\<close>

lemma quadframe_missed:
  "{4, 5, 6, 7} \<subseteq> free_frames (\<lambda>n. if n = 0 then 0xFFFFFFF0 else 0)
     \<and> physmm_alloc_quadframe (\<lambda>n. if n = 0 then 0xFFFFFFF0 else 0) =
        (PHYSMM_NO_FRAME, \<lambda>n. if n = 0 then 0xFFFFFFF0 else 0)"
proof -
  have "pick_quad 0xFFFFFFF0 = None" by code_simp
  moreover have "pick_quad 0 = None" by (simp add: pick_quad_def)
  ultimately have "scan_words pick_quad (\<lambda>n. if n = 0 then 0xFFFFFFF0 else 0) 0 = None"
    by (simp add: scan_words_None)
  then show ?thesis by (simp add: physmm_alloc_quadframe_def free_frames_def bit_simps)
qed

end
