(* ===== verification/Svipc_Shm.thy ===== *)
theory Svipc_Shm
  imports Svipc Physmm
begin

text \<open>
  The shared memory segments of \<^verbatim>\<open>kernel/svipc/shm.c\<close>: objects of the table of \<open>Svipc\<close> that own
  frames of \<open>Physmm\<close>.  Attaching and detaching are in \<open>Procvmm\<close>; the counting they do on
  a segment is here.
\<close>

section \<open>State\<close>

record shm_info =
  h_key :: u32
  h_id :: u32
  h_del :: bool
  h_zero :: bool
  shm_perm :: ipc_perm
  shm_segsz :: u32
  shm_lpid :: u32
  shm_cpid :: u32
  shm_nattch :: u16
  shm_atime :: u32
  shm_dtime :: u32
  shm_ctime :: u32
  frames :: "u32 list"

record shm_st =
  shm_reg :: "shm_info registry"
  bm :: bitmap

section \<open>Operations\<close>

definition shm_init :: "bitmap \<Rightarrow> shm_st" where
  "shm_init b = \<lparr>shm_reg = \<lparr>objs = \<lambda>_. None, order = [], ctr = 0\<rparr>, bm = b\<rparr>"

definition shm_get_by_key :: "'x shm_st_scheme \<Rightarrow> u32 \<Rightarrow> addr option" where
  "shm_get_by_key st key = find_obj (\<lambda>i. h_key i = key) (shm_reg st)"

definition shm_get_by_id :: "'x shm_st_scheme \<Rightarrow> u32 \<Rightarrow> addr option" where
  "shm_get_by_id st shmid = find_obj (\<lambda>i. h_id i = shmid) (shm_reg st)"

definition shm_alloc_id :: "shm_info registry \<Rightarrow> u32 option \<times> shm_info registry" where
  "shm_alloc_id r = alloc_id r"

definition upd_shm :: "'x shm_st_scheme \<Rightarrow> addr \<Rightarrow> shm_info \<Rightarrow> 'x shm_st_scheme" where
  "upd_shm st a i = st\<lparr>shm_reg := upd_obj (shm_reg st) a i\<rparr>"

definition shm_do_delete :: "'x shm_st_scheme \<Rightarrow> addr \<Rightarrow> shm_info \<Rightarrow> 'x shm_st_scheme exec" where
  "shm_do_delete st a info =
     (let nframes = unat (shm_segsz info div PAGE_SIZE) in
      if length (frames info) < nframes then Inl Out_Of_Bounds
      else Inr (st\<lparr>shm_reg := del_obj (shm_reg st) a,
                   bm := foldl physmm_free_frame (bm st) (take nframes (frames info))\<rparr>))"

text \<open>The reference that a mapping holds: taken by \<^verbatim>\<open>procvmm_mmap_shm\<close>, given up by \<^verbatim>\<open>mmap_free\<close>.\<close>

definition shm_ref :: "'x shm_st_scheme \<Rightarrow> addr \<Rightarrow> 'x shm_st_scheme exec" where
  "shm_ref st a =
     (case objs (shm_reg st) a of
        None \<Rightarrow> Inl Use_After_Free
      | Some info \<Rightarrow> Inr (upd_shm st a (info\<lparr>shm_nattch := shm_nattch info + 1\<rparr>)))"

definition shm_unref :: "'x shm_st_scheme \<Rightarrow> addr \<Rightarrow> 'x shm_st_scheme exec" where
  "shm_unref st a =
     (case objs (shm_reg st) a of
        None \<Rightarrow> Inl Use_After_Free
      | Some info \<Rightarrow>
          let i = info\<lparr>shm_nattch := shm_nattch info - 1\<rparr>; st1 = upd_shm st a i
          in if h_del i \<and> shm_nattch i = 0 then shm_do_delete st1 a i else Inr st1)"

text \<open>
  Control; \<open>copied\<close> tells whether the copy from or to user space succeeds, \<open>uperm\<close> is the
  permission structure that the caller passes.
\<close>

definition sys_shmctl ::
    "kctx \<Rightarrow> u32 \<Rightarrow> u32 \<Rightarrow> bool \<Rightarrow> ipc_perm \<Rightarrow> 'x shm_st_scheme \<Rightarrow>
       ((errno + shm_info option) \<times> 'x shm_st_scheme) exec" where
  "sys_shmctl k shmid cmd copied uperm st =
     (case shm_get_by_id st shmid of
        None \<Rightarrow> Inr (Inl EINVAL, st)
      | Some a \<Rightarrow>
          (case objs (shm_reg st) a of
             None \<Rightarrow> Inl Use_After_Free
           | Some info \<Rightarrow>
               if cmd = IPC_STAT
               then if \<not> ipc_have_permissions (k_creds k) (shm_perm info) IPC_PERM_READ then Inr (Inl EACCES, st)
                    else if \<not> copied then Inr (Inl EFAULT, st)
                    else Inr (Inr (Some info), st)
               else if cmd = IPC_SET
               then if \<not> ipc_is_creator (k_creds k) (shm_perm info)
                       \<and> \<not> ipc_have_permissions (k_creds k) (shm_perm info) IPC_PERM_WRITE then Inr (Inl EPERM, st)
                    else if \<not> copied then Inr (Inl EFAULT, st)
                    else Inr (Inr None, upd_shm st a (info\<lparr>shm_perm := set_perm uperm (shm_perm info)\<rparr>))
               else if cmd = IPC_RMID
               then if \<not> ipc_is_creator (k_creds k) (shm_perm info)
                       \<and> \<not> ipc_have_permissions (k_creds k) (shm_perm info) IPC_PERM_WRITE then Inr (Inl EPERM, st)
                    else let i = info\<lparr>h_del := True\<rparr>; st1 = upd_shm st a i
                         in if shm_nattch i = 0
                            then (case shm_do_delete st1 a i of Inl f \<Rightarrow> Inl f | Inr st2 \<Rightarrow> Inr (Inr None, st2))
                            else Inr (Inr None, st1)
               else Inr (Inl EINVAL, st)))"

definition new_segment :: "kctx \<Rightarrow> u32 \<Rightarrow> u32 \<Rightarrow> u32 \<Rightarrow> u32 \<Rightarrow> u32 list \<Rightarrow> shm_info" where
  "new_segment k key n segsz flags fs =
     \<lparr>h_key = key, h_id = n, h_del = False, h_zero = False, shm_perm = new_perm k flags, shm_segsz = segsz,
      shm_lpid = 0, shm_cpid = k_pid k, shm_nattch = 0, shm_atime = 0, shm_dtime = 0, shm_ctime = k_time k,
      frames = fs\<rparr>"

text \<open>\<open>new\<close> and \<open>got\<close> are the results of the allocations of the descriptor and of the array of frames.\<close>

definition sys_shmget ::
    "kctx \<Rightarrow> addr option \<Rightarrow> bool \<Rightarrow> u32 \<Rightarrow> u32 \<Rightarrow> u32 \<Rightarrow> 'x shm_st_scheme \<Rightarrow> ((errno + u32) \<times> 'x shm_st_scheme) exec" where
  "sys_shmget k new got key sz flags st =
     (let found = (if key \<noteq> IPC_PRIVATE then shm_get_by_key st key else None) in
      case found of
        None \<Rightarrow>
          if key \<noteq> IPC_PRIVATE \<and> \<not> flag flags IPC_CREAT then Inr (Inl ENOENT, st)
          else let segsz = (sz + PAGE_ADDR_MASK) AND NOT PAGE_ADDR_MASK in
            (case new of
               None \<Rightarrow> Inr (Inl ENOMEM, st)
             | Some a \<Rightarrow>
                 if \<not> got then Inr (Inl ENOMEM, st)
                 else (case get_frames physmm_alloc_frame physmm_free_frame (unat (segsz div PAGE_SIZE)) [] (bm st) of
                         (None, b) \<Rightarrow> Inr (Inl ENOMEM, st\<lparr>bm := b\<rparr>)
                       | (Some fs, b) \<Rightarrow>
                           (case shm_alloc_id (shm_reg st) of
                              (None, r) \<Rightarrow> Inr (Inl ENFILE, st\<lparr>shm_reg := r, bm := foldl physmm_free_frame b fs\<rparr>)
                            | (Some n, r) \<Rightarrow>
                                Inr (Inr n, st\<lparr>shm_reg := add_obj r a (new_segment k key n segsz flags fs),
                                               bm := b\<rparr>))))
      | Some a \<Rightarrow>
          if flag flags IPC_CREAT \<and> flag flags IPC_EXCL then Inr (Inl EEXIST, st)
          else (case objs (shm_reg st) a of
                  None \<Rightarrow> Inl Use_After_Free
                | Some info \<Rightarrow>
                    if \<not> ipc_have_permissions (k_creds k) (shm_perm info) IPC_PERM_READ then Inr (Inl EACCES, st)
                    else if sz \<noteq> 0 \<and> sz < shm_segsz info then Inr (Inl EINVAL, st)
                    else if h_del info then Inr (Inl EIDRM, st)
                    else Inr (Inr (h_id info), st)))"

section \<open>Frames of the segments\<close>

definition seg_ok :: "shm_info \<Rightarrow> bool" where
  "seg_ok i \<longleftrightarrow> length (frames i) = unat (shm_segsz i div PAGE_SIZE)"

definition obj_frames :: "shm_info registry \<Rightarrow> addr \<Rightarrow> u32 list" where
  "obj_frames r a = (case objs r a of None \<Rightarrow> [] | Some i \<Rightarrow> frames i)"

definition shm_frames :: "shm_info registry \<Rightarrow> u32 list" where
  "shm_frames r = concat (map (obj_frames r) (order r))"

definition shm_ok :: "'x shm_st_scheme \<Rightarrow> bool" where
  "shm_ok st \<longleftrightarrow>
     table_ok h_id seg_ok (shm_reg st) \<and> distinct (shm_frames (shm_reg st)) \<and>
     (\<forall>f \<in> set (shm_frames (shm_reg st)). is_frame f) \<and>
     set (shm_frames (shm_reg st)) \<inter> avail_addrs (bm st) = {}"

lemma free_frames_list: "(\<And>a. a \<in> set fs \<Longrightarrow> is_frame a) \<Longrightarrow>
    avail_addrs (foldl physmm_free_frame b fs) = avail_addrs b \<union> set fs"
  by (rule pm.free_list) (simp add: is_frame_avail)

lemma shm_frames_upd:
  "objs r a = Some i \<Longrightarrow> frames j = frames i \<Longrightarrow> shm_frames (upd_obj r a j) = shm_frames r"
  by (auto simp: shm_frames_def obj_frames_def intro!: arg_cong [of _ _ concat] map_cong)

lemma shm_frames_del:
  assumes "distinct (order r)" "a \<in> set (order r)" "objs r a = Some i"
  shows "set (shm_frames r) = set (frames i) \<union> set (shm_frames (del_obj r a))"
    and "distinct (shm_frames r) \<Longrightarrow> distinct (shm_frames (del_obj r a)) \<and> set (frames i) \<inter> set (shm_frames (del_obj r a)) = {}"
proof -
  obtain xs ys where o: "order r = xs @ a # ys" "a \<notin> set xs" "a \<notin> set ys"
    using assms(1,2) by (metis distinct.simps(2) distinct_append in_set_conv_decomp not_distinct_conv_prefix split_list)
  have m: "map (obj_frames (del_obj r a)) zs = map (obj_frames r) zs" if "a \<notin> set zs" for zs
    using that by (auto simp: obj_frames_def)
  have "remove1 a (order r) = xs @ ys" using o by (simp add: remove1_append)
  then have d: "shm_frames (del_obj r a) = concat (map (obj_frames r) xs) @ concat (map (obj_frames r) ys)"
    unfolding shm_frames_def registry_simps by (simp only: map_append concat_append m [OF o(2)] m [OF o(3)])
  have f: "shm_frames r = concat (map (obj_frames r) xs) @ frames i @ concat (map (obj_frames r) ys)"
    using o assms(3) by (simp add: shm_frames_def obj_frames_def)
  show "set (shm_frames r) = set (frames i) \<union> set (shm_frames (del_obj r a))" unfolding d f by auto
  show "distinct (shm_frames r) \<Longrightarrow>
      distinct (shm_frames (del_obj r a)) \<and> set (frames i) \<inter> set (shm_frames (del_obj r a)) = {}"
    unfolding d f by auto
qed

lemma shm_frames_add:
  assumes "a \<notin> set (order r)"
  shows "shm_frames (add_obj r a i) = shm_frames r @ frames i"
proof -
  have "map (obj_frames (add_obj r a i)) (order r) = map (obj_frames r) (order r)"
    using assms by (auto simp: obj_frames_def)
  then show ?thesis unfolding shm_frames_def registry_simps by (simp only: map_append concat_append) (simp add: obj_frames_def)
qed


section \<open>Calls keep the frames together\<close>

text \<open>
  What every call does: it keeps the invariant, it is a step of the table, and the frames that
  are available or in a segment stay the same; the rest of the state is not touched.
\<close>

definition shm_keeps :: "'x shm_st_scheme \<Rightarrow> 'x shm_st_scheme \<Rightarrow> bool" where
  "shm_keeps st st' \<longleftrightarrow>
     shm_ok st' \<and> reg_step h_id (shm_reg st) (shm_reg st') \<and> shm_st.more st' = shm_st.more st \<and>
     avail_addrs (bm st') \<union> set (shm_frames (shm_reg st')) = avail_addrs (bm st) \<union> set (shm_frames (shm_reg st))"

lemma keeps_refl: "shm_ok st \<Longrightarrow> shm_keeps st st"
  by (simp add: shm_keeps_def reg_step_refl)

lemma keeps_upd:
  assumes ok: "shm_ok st" and i: "objs (shm_reg st) a = Some i"
    and j: "h_id j = h_id i" "frames j = frames i" "shm_segsz j = shm_segsz i"
  shows "shm_keeps st (upd_shm st a j)"
proof -
  have "one_obj h_id seg_ok (shm_reg st) a (upd_obj (shm_reg st) a j)"
    using i j by (intro one_obj_upd) (auto simp: seg_ok_def)
  then have "table_ok h_id seg_ok (upd_obj (shm_reg st) a j) \<and> reg_step h_id (shm_reg st) (upd_obj (shm_reg st) a j)"
    using ok by (intro one_obj_ok) (auto simp: shm_ok_def)
  then show ?thesis
    using ok shm_frames_upd [OF i j(2)] by (simp add: shm_keeps_def shm_ok_def upd_shm_def)
qed

lemma do_delete_upd:
  "frames j = frames i \<Longrightarrow> shm_segsz j = shm_segsz i \<Longrightarrow>
     shm_do_delete (upd_shm st a j) a j = shm_do_delete st a i"
  by (simp add: shm_do_delete_def upd_shm_def Let_def)

lemma do_delete_ok:
  assumes ok: "shm_ok st" and i: "objs (shm_reg st) a = Some i"
  obtains st' where "shm_do_delete st a i = Inr st'" "shm_keeps st st'"
    "objs (shm_reg st') a = None" "avail_addrs (bm st') = avail_addrs (bm st) \<union> set (frames i)"
proof -
  let ?r = "shm_reg st" and ?b = "foldl physmm_free_frame (bm st) (frames i)"
  let ?st = "st\<lparr>shm_reg := del_obj ?r a, bm := ?b\<rparr>"
  have l: "length (frames i) = unat (shm_segsz i div PAGE_SIZE)" and a: "a \<in> set (order ?r)" "distinct (order ?r)"
    using ok i by (auto simp: shm_ok_def table_ok_def seg_ok_def reg_ok_def)
  note fr = shm_frames_del [OF a(2,1) i]
  have dj: "distinct (shm_frames (del_obj ?r a))" "set (frames i) \<inter> set (shm_frames (del_obj ?r a)) = {}"
    using fr(2) ok by (auto simp: shm_ok_def)
  have "\<And>f. f \<in> set (frames i) \<Longrightarrow> is_frame f" using ok fr(1) by (auto simp: shm_ok_def)
  then have av: "avail_addrs ?b = avail_addrs (bm st) \<union> set (frames i)" by (rule free_frames_list)
  have tab: "table_ok h_id seg_ok (del_obj ?r a) \<and> reg_step h_id ?r (del_obj ?r a)"
    using ok by (intro one_obj_ok [OF _ one_obj_del [OF i]]) (simp add: shm_ok_def)
  have fr_sub: "set (shm_frames (del_obj ?r a)) \<subseteq> set (shm_frames ?r)" using fr(1) by auto
  then have "shm_ok ?st"
    using tab dj av ok unfolding shm_ok_def by (auto simp: Int_Un_distrib)
  then have "shm_keeps st ?st" using tab av fr(1) by (auto simp: shm_keeps_def)
  moreover have "shm_do_delete st a i = Inr ?st" using l by (simp add: shm_do_delete_def Let_def)
  ultimately show thesis using that [of ?st] av by simp
qed

lemma shm_ref_ok: "shm_ok st \<Longrightarrow> shm_ref st a = Inr st' \<Longrightarrow> shm_keeps st st'"
  by (auto simp: shm_ref_def split: option.splits intro!: keeps_upd)

lemma shm_unref_ok: "shm_ok st \<Longrightarrow> shm_unref st a = Inr st' \<Longrightarrow> shm_keeps st st'"
proof -
  assume ok: "shm_ok st" and u: "shm_unref st a = Inr st'"
  then obtain i where i: "objs (shm_reg st) a = Some i" by (auto simp: shm_unref_def split: option.splits)
  have e: "shm_do_delete (upd_shm st a (i\<lparr>shm_nattch := n\<rparr>)) a (i\<lparr>shm_nattch := n\<rparr>) = shm_do_delete st a i" for n
    by (rule do_delete_upd) simp_all
  obtain sd where "shm_do_delete st a i = Inr sd" "shm_keeps st sd" by (rule do_delete_ok [OF ok i])
  moreover have "shm_keeps st (upd_shm st a (i\<lparr>shm_nattch := n\<rparr>))" for n using ok i by (rule keeps_upd) simp_all
  ultimately show ?thesis using u i by (auto simp: shm_unref_def Let_def e split: if_splits)
qed

lemma shmctl_ok: "shm_ok st \<Longrightarrow> sys_shmctl k n cmd c u st = Inr (r, st') \<Longrightarrow> shm_keeps st st'"
proof -
  assume ok: "shm_ok st" and call: "sys_shmctl k n cmd c u st = Inr (r, st')"
  show ?thesis
  proof (cases "shm_get_by_id st n")
    case None
    then show ?thesis using call ok keeps_refl by (auto simp: sys_shmctl_def)
  next
    case (Some a)
    then obtain i where i: "objs (shm_reg st) a = Some i" using find_objD by (fastforce simp: shm_get_by_id_def)
    have e: "shm_do_delete (upd_shm st a (i\<lparr>h_del := True\<rparr>)) a (i\<lparr>h_del := True\<rparr>) = shm_do_delete st a i"
      by (rule do_delete_upd) simp_all
    obtain sd where sd: "shm_do_delete st a i = Inr sd" "shm_keeps st sd" by (rule do_delete_ok [OF ok i])
    have k: "shm_keeps st (upd_shm st a (i\<lparr>shm_perm := p\<rparr>))" "shm_keeps st (upd_shm st a (i\<lparr>h_del := True\<rparr>))" for p
      using ok i by (auto intro!: keeps_upd)
    have "exec_post (shm_keeps st) (sys_shmctl k n cmd c u st)"
      unfolding sys_shmctl_def Some option.case i Let_def e sd(1) sum.case
      by (intro exec_post_intros) (simp_all add: k sd(2) keeps_refl [OF ok])
    then show ?thesis using exec_postD [OF _ call] by blast
  qed
qed


lemma shm_frames_alloc: "alloc_id r = (n, r') \<Longrightarrow> shm_frames r' = shm_frames r"
  by (auto simp: alloc_id_def shm_frames_def obj_frames_def split: if_splits intro!: arg_cong [of _ _ concat] map_cong)

lemma shm_keeps_create:
  assumes ok: "shm_ok st" and fresh: "objs (shm_reg st) a = None"
    and id: "alloc_id (shm_reg st) = (Some n, r)" and l: "length fs = unat (sz div PAGE_SIZE)"
    and fs: "distinct fs" "set fs \<subseteq> avail_addrs (bm st)" "avail_addrs b = avail_addrs (bm st) - set fs"
  shows "shm_keeps st (st\<lparr>shm_reg := add_obj r a (new_segment k key n sz flags fs), bm := b\<rparr>)"
proof -
  let ?i = "new_segment k key n sz flags fs"
  have t: "table_ok h_id seg_ok (shm_reg st)" using ok by (simp add: shm_ok_def)
  have tab: "table_ok h_id seg_ok (add_obj r a ?i) \<and> reg_step h_id (shm_reg st) (add_obj r a ?i)"
    by (rule add_obj_ok [OF t id fresh]) (simp_all add: new_segment_def seg_ok_def l)
  have "order r = order (shm_reg st)" using id by (auto simp: alloc_id_def split: if_splits)
  then have "a \<notin> set (order r)" using t fresh by (force simp: table_ok_def reg_ok_def)
  then have fr: "shm_frames (add_obj r a ?i) = shm_frames (shm_reg st) @ fs"
    using shm_frames_add [of a r ?i] shm_frames_alloc [OF id] by (simp add: new_segment_def)
  have al: "\<forall>f \<in> set fs. is_frame f" using fs(2) is_frame_avail by blast
  have d: "set (shm_frames (shm_reg st)) \<inter> avail_addrs (bm st) = {}" "distinct (shm_frames (shm_reg st))"
      "\<forall>f \<in> set (shm_frames (shm_reg st)). is_frame f"
    using ok by (simp_all add: shm_ok_def)
  have "distinct (shm_frames (shm_reg st) @ fs)" "set (shm_frames (shm_reg st) @ fs) \<inter> avail_addrs b = {}"
      "avail_addrs b \<union> set (shm_frames (shm_reg st) @ fs) = avail_addrs (bm st) \<union> set (shm_frames (shm_reg st))"
    using d fs by auto
  then show ?thesis using tab fr al d(3) by (auto simp: shm_keeps_def shm_ok_def)
qed

lemma shm_keeps_bm: "shm_ok st \<Longrightarrow> avail_addrs b = avail_addrs (bm st) \<Longrightarrow> shm_keeps st (st\<lparr>bm := b\<rparr>)"
  by (simp add: shm_keeps_def shm_ok_def reg_step_refl)

text \<open>The two ways in which the allocation of the frames ends.\<close>

lemma shm_get_frames:
  "get_frames physmm_alloc_frame physmm_free_frame n [] b = (None, b') \<Longrightarrow> avail_addrs b' = avail_addrs b"
  "get_frames physmm_alloc_frame physmm_free_frame n [] b = (Some fs, b') \<Longrightarrow>
     length fs = n \<and> distinct fs \<and> set fs \<subseteq> avail_addrs b \<and> avail_addrs b' = avail_addrs b - set fs"
  using pm.get_frames_ok [of n "[]" b] by fastforce+

lemma shmget_ok:
  assumes ok: "shm_ok st" and fresh: "\<And>a. new = Some a \<Longrightarrow> objs (shm_reg st) a = None"
    and call: "sys_shmget k new got key sz flags st = Inr (r, st')"
  shows "shm_keeps st st'"
proof (cases "st' = st")
  case True
  then show ?thesis using ok keeps_refl by simp
next
  case False
  let ?sz = "(sz + PAGE_ADDR_MASK) AND NOT PAGE_ADDR_MASK"
  obtain a fs' b where a: "new = Some a"
      and g: "get_frames physmm_alloc_frame physmm_free_frame (unat (?sz div PAGE_SIZE)) [] (bm st) = (fs', b)"
    using call False by (cases new) (auto simp: sys_shmget_def Let_def split: option.splits if_splits prod.splits)
  show ?thesis
  proof (cases fs')
    case None
    then have "st' = st\<lparr>bm := b\<rparr>"
      using call False a g by (auto simp: sys_shmget_def Let_def split: option.splits if_splits)
    then show ?thesis using shm_keeps_bm [OF ok] shm_get_frames(1) g None by metis
  next
    case (Some fs)
    then have fs: "length fs = unat (?sz div PAGE_SIZE)" "distinct fs" "set fs \<subseteq> avail_addrs (bm st)"
        "avail_addrs b = avail_addrs (bm st) - set fs" using shm_get_frames(2) g by blast+
    have "avail_addrs (foldl physmm_free_frame b fs) = avail_addrs (bm st)"
      using fs free_frames_list [of fs b] is_frame_avail by blast
    note undone = shm_keeps_bm [OF ok this]
    obtain x r1 where al: "alloc_id (shm_reg st) = (x, r1)" by (cases "alloc_id (shm_reg st)")
    show ?thesis
    proof (cases x)
      case None
      then have "st' = st\<lparr>bm := foldl physmm_free_frame b fs\<rparr>"
        using call False a g Some al alloc_id_None [of "shm_reg st" r1]
        by (auto simp: sys_shmget_def Let_def shm_alloc_id_def split: option.splits if_splits)
      then show ?thesis using undone by simp
    next
      case (Some n)
      then have "st' = st\<lparr>shm_reg := add_obj r1 a (new_segment k key n ?sz flags fs), bm := b\<rparr>"
        using call False a g \<open>fs' = Some fs\<close> al
        by (auto simp: sys_shmget_def Let_def shm_alloc_id_def split: option.splits if_splits)
      then show ?thesis using shm_keeps_create [OF ok fresh [OF a] _ fs] al Some by simp
    qed
  qed
qed

text \<open>The calls on segments, and the references that mappings take and give up.\<close>

inductive shm_call :: "'x shm_st_scheme \<Rightarrow> 'x shm_st_scheme \<Rightarrow> bool" where
  get: "(\<And>a. new = Some a \<Longrightarrow> objs (shm_reg st) a = None) \<Longrightarrow>
    sys_shmget k new got key sz flags st = Inr (r, st') \<Longrightarrow> shm_call st st'"
| ctl: "sys_shmctl k n cmd copied uperm st = Inr (r', st') \<Longrightarrow> shm_call st st'"
| ref: "shm_ref st a = Inr st' \<Longrightarrow> shm_call st st'"
| unref: "shm_unref st a = Inr st' \<Longrightarrow> shm_call st st'"

lemma shm_call_keeps: "shm_call st st' \<Longrightarrow> shm_ok st \<Longrightarrow> shm_keeps st st'"
  by (induction rule: shm_call.induct) (auto intro: shmget_ok shmctl_ok shm_ref_ok shm_unref_ok)

lemma shm_calls_keep:
  "shm_call\<^sup>*\<^sup>* st st' \<Longrightarrow> shm_ok st \<Longrightarrow>
     shm_ok st' \<and> avail_addrs (bm st') \<union> set (shm_frames (shm_reg st')) = avail_addrs (bm st) \<union> set (shm_frames (shm_reg st))"
proof (induction rule: rtranclp_induct)
  case (step y z)
  then show ?case using shm_call_keeps [of y z] by (auto simp: shm_keeps_def)
qed simp


interpretation hq: ipc_objects shm_reg h_id seg_ok "\<lambda>s s'. shm_ok s \<and> shm_call s s'"
  using shm_call_keeps by unfold_locales (auto simp: shm_keeps_def shm_ok_def)

lemma shm_calls_inv:
  "shm_call\<^sup>*\<^sup>* st st' \<Longrightarrow> shm_ok st \<Longrightarrow> (\<lambda>s s'. shm_ok s \<and> shm_call s s')\<^sup>*\<^sup>* st st'"
proof (induction rule: rtranclp_induct)
  case (step y z)
  then have "shm_ok y" using shm_calls_keep by blast
  then show ?case using step by (auto intro: rtranclp.rtrancl_into_rtrancl)
qed simp

lemma shm_init_ok: "shm_ok (shm_init b)"
  by (simp add: shm_ok_def shm_init_def table_ok_empty shm_frames_def)

text \<open>
  C28. From any good state and through any sequence of calls, no frame is in two segments or in a
  segment and available, no frame is lost or made up, and an identifier whose segment is gone
  does not come back.
\<close>

theorem shm_frames_conserved:
  assumes "shm_ok st" "shm_call\<^sup>*\<^sup>* st st'"
  shows "distinct (shm_frames (shm_reg st'))
    \<and> set (shm_frames (shm_reg st')) \<inter> avail_addrs (bm st') = {}
    \<and> avail_addrs (bm st') \<union> set (shm_frames (shm_reg st')) = avail_addrs (bm st) \<union> set (shm_frames (shm_reg st))
    \<and> {n \<in> ids h_id (shm_reg st'). sint n < sint (ctr (shm_reg st))} \<subseteq> ids h_id (shm_reg st)"
  using shm_calls_keep [OF assms(2,1)] hq.id_not_reused [OF shm_calls_inv [OF assms(2,1)]] assms(1)
  by (auto simp: shm_ok_def)

section \<open>Creating and removing a segment\<close>

lemma avail_finite: "finite (avail_addrs b)"
  by (simp add: avail_addrs_def free_frames_finite)

lemma shm_pages:
  "unat sz \<le> 2 ^ 32 - 4096 \<Longrightarrow>
     unat (((sz + PAGE_ADDR_MASK) AND NOT PAGE_ADDR_MASK) div PAGE_SIZE) = (unat sz + 4095) div 4096"
  using unat_round_up [of sz] by (simp add: round_up_eq PAGE_ROUND_DOWN_def unat_div_page)

lemma creator_is_creator: "ipc_is_creator (k_creds k) (new_perm k flags)"
  by (simp add: ipc_is_creator_def new_perm_def get_perm_class_def Let_def)

lemma shm_rmid:
  assumes ok: "shm_ok st" and i: "objs (shm_reg st) a = Some i" "shm_nattch i = 0"
    and c: "ipc_is_creator (k_creds k) (shm_perm i)"
  shows "\<exists>st'. sys_shmctl k (h_id i) IPC_RMID copied u st = Inr (Inr None, st') \<and> objs (shm_reg st') a = None
    \<and> avail_addrs (bm st') = avail_addrs (bm st) \<union> set (frames i)"
proof -
  have f: "shm_get_by_id st (h_id i) = Some a"
    using find_obj_id [of h_id "shm_reg st" a i] ok i by (simp add: shm_get_by_id_def shm_ok_def table_ok_def)
  have e: "shm_do_delete (upd_shm st a (i\<lparr>h_del := True\<rparr>)) a (i\<lparr>h_del := True\<rparr>) = shm_do_delete st a i"
    by (rule do_delete_upd) simp_all
  obtain st' where "shm_do_delete st a i = Inr st'" "objs (shm_reg st') a = None"
      "avail_addrs (bm st') = avail_addrs (bm st) \<union> set (frames i)" by (rule do_delete_ok [OF ok i(1)])
  then show ?thesis
    using f e i c by (simp add: sys_shmctl_def Let_def IPC_RMID_def IPC_STAT_def IPC_SET_def)
qed



text \<open>An empty table over a memory of two frames.\<close>

definition shm_example :: shm_st where
  "shm_example = shm_init (physmm_free_frame (physmm_free_frame physmm_init 0x1000) 0x2000)"

lemma shm_example_sel: "shm_ok shm_example" "shm_reg shm_example = \<lparr>objs = \<lambda>_. None, order = [], ctr = 0\<rparr>"
  "free_frames (bm shm_example) = {1, 2}" "avail_addrs (bm shm_example) = {0x1000, 0x2000}"
proof -
  show "shm_ok shm_example" "shm_reg shm_example = \<lparr>objs = \<lambda>_. None, order = [], ctr = 0\<rparr>"
    using shm_init_ok by (simp_all add: shm_example_def shm_init_def)
  have "free_frames physmm_init = {}" by (simp add: free_frames_def physmm_init_def)
  then show f: "free_frames (bm shm_example) = {1, 2}"
    by (auto simp: shm_example_def shm_init_def physmm_free_frame_def free_set_bit frame_of_div)
  show "avail_addrs (bm shm_example) = {0x1000, 0x2000}"
    by (simp add: avail_addrs_def f addr_of_def push_bit_eq_mult)
qed

lemma shmget_private_returns:
  "\<exists>n st'. sys_shmget k (Some a) True IPC_PRIVATE sz flags st = Inr (n, st')"
  by (simp add: sys_shmget_def Let_def split: prod.split option.split)


theorem shm_frames_conserved_witness:
  "\<exists>n st'. sys_shmget \<lparr>k_creds = \<lparr>uid = 0, effective_uid = 0, gid = 0, effective_gid = 0\<rparr>, k_pid = 3, k_time = 9\<rparr>
      (Some 8) True IPC_PRIVATE 5000 448 shm_example = Inr (n, st')
      \<and> avail_addrs (bm st') \<union> set (shm_frames (shm_reg st')) = {0x1000, 0x2000}"
proof -
  let ?k = "\<lparr>k_creds = \<lparr>uid = 0, effective_uid = 0, gid = 0, effective_gid = 0\<rparr>, k_pid = 3, k_time = 9\<rparr>"
  obtain n st' where c: "sys_shmget ?k (Some 8) True IPC_PRIVATE 5000 448 shm_example = Inr (n, st')"
    using shmget_private_returns by blast
  have "shm_call shm_example st'" by (rule shm_call.get [OF _ c]) (simp add: shm_example_sel)
  then show ?thesis
    using c shm_frames_conserved [of shm_example st'] shm_example_sel by (auto simp: shm_frames_def)
qed

section \<open>Where the code departs from its intent\<close>

text \<open>
  The rounding of the size wraps around: a request for nearly four gigabytes makes a segment of
  size 0, which takes no frame.
\<close>

lemma shmget_wraps:
  assumes "shm_ok st" "sint (ctr (shm_reg st) + 1) > 0"
  shows "\<exists>st'. sys_shmget k (Some a) True IPC_PRIVATE 0xFFFFF001 flags st = Inr (Inr (ctr (shm_reg st)), st')
    \<and> map_option shm_segsz (objs (shm_reg st') a) = Some 0 \<and> bm st' = bm st"
  using assms(2)
  by (simp add: sys_shmget_def Let_def PAGE_ADDR_MASK_def PAGE_SIZE_def shm_alloc_id_def alloc_id_def new_segment_def)

text \<open>
  The test of the size of an existing segment is the wrong way round: asking for less than the segment has is
  refused, asking for more is granted.
\<close>

lemma shmget_size_test:
  assumes "key \<noteq> IPC_PRIVATE" "shm_get_by_key st key = Some a" "objs (shm_reg st) a = Some i"
    "\<not> flag flags IPC_EXCL" "ipc_have_permissions (k_creds k) (shm_perm i) IPC_PERM_READ" "\<not> h_del i"
  shows "shm_segsz i < sz \<Longrightarrow> sys_shmget k new got key sz flags st = Inr (Inr (h_id i), st)"
    "0 < sz \<Longrightarrow> sz < shm_segsz i \<Longrightarrow> sys_shmget k new got key sz flags st = Inr (Inl EINVAL, st)"
  using assms by (auto simp: sys_shmget_def)

end
