(* ===== verification/Paging.thy ===== *)
theory Paging
  imports Physmm
begin

text \<open>
  The two-level page tables of the i386 (\<^verbatim>\<open>arch/i386/paging.c\<close>) over the bytes of physical memory, and
  the operations on ranges of \<^verbatim>\<open>kernel/mm/paging.c\<close>.  Kernel code reaches directories
  and tables through virtual addresses: the tables through the window at the top of the address space,
  which exists because the last entry of a directory names the directory itself.  Every such access
  goes through the translation of the processor, so the window is proved to work and not assumed.
\<close>

section \<open>Memory and translation\<close>

text \<open>Physical memory is bytes; a 32-bit access is little endian.\<close>

type_synonym pmem = "u32 \<Rightarrow> u8"

definition rd32 :: "pmem \<Rightarrow> u32 \<Rightarrow> u32" where
  "rd32 pm a =
     ucast (pm a) OR push_bit 8 (ucast (pm (a OR 1))) OR push_bit 16 (ucast (pm (a OR 2)))
     OR push_bit 24 (ucast (pm (a OR 3)))"

definition wr32 :: "pmem \<Rightarrow> u32 \<Rightarrow> u32 \<Rightarrow> pmem" where
  "wr32 pm a v =
     pm(a := ucast v, a OR 1 := ucast (drop_bit 8 v), a OR 2 := ucast (drop_bit 16 v),
        a OR 3 := ucast (drop_bit 24 v))"

definition I386_PAGE_FLAG_PRESENT :: u32 where "I386_PAGE_FLAG_PRESENT = 0x1"
definition I386_PAGE_FLAG_RW :: u32 where "I386_PAGE_FLAG_RW = 0x2"
definition I386_PAGE_FLAG_USER :: u32 where "I386_PAGE_FLAG_USER = 0x4"
definition I386_PAGE_FLAG_NOCACHE :: u32 where "I386_PAGE_FLAG_NOCACHE = 0x10"
definition I386_PAGE_FLAG_GLOBAL :: u32 where "I386_PAGE_FLAG_GLOBAL = 0x100"

definition I386_ADDR_TO_PT_IDX :: "u32 \<Rightarrow> u32" where
  "I386_ADDR_TO_PT_IDX a = drop_bit 12 (a AND 0x003FF000)"

definition I386_ADDR_TO_PD_IDX :: "u32 \<Rightarrow> u32" where
  "I386_ADDR_TO_PD_IDX a = drop_bit 22 (a AND 0xFFC00000)"

definition I386_ADDR_TO_PTEPTR :: "u32 \<Rightarrow> u32" where
  "I386_ADDR_TO_PTEPTR a = 0xFFC00000 OR (drop_bit 10 a AND 0x3FF000) OR push_bit 2 (I386_ADDR_TO_PT_IDX a)"

definition PAGING_PAGE_FLAG_USER :: u32 where "PAGING_PAGE_FLAG_USER = 0x1"
definition PAGING_PAGE_FLAG_RW :: u32 where "PAGING_PAGE_FLAG_RW = 0x2"
definition PAGING_PAGE_FLAG_NOCACHE :: u32 where "PAGING_PAGE_FLAG_NOCACHE = 0x4"
definition PAGING_PAGE_TAG_KERNEL_DATA :: u32 where "PAGING_PAGE_TAG_KERNEL_DATA = 0"
definition PAGING_PAGE_TAG_USER_DATA :: u32 where "PAGING_PAGE_TAG_USER_DATA = 4"

abbreviation page_of :: "u32 \<Rightarrow> u32" where
  "page_of a \<equiv> a AND 0xFFFFF000"

abbreviation offset_of :: "u32 \<Rightarrow> u32" where
  "offset_of a \<equiv> a AND 0xFFF"

definition entry :: "u32 \<Rightarrow> u32 \<Rightarrow> u32" where
  "entry f i = page_of f OR push_bit 2 i"


text \<open>
  The translation of the processor, with directory \<open>c\<close>; \<^term>\<open>None\<close> is a page fault.  Kernel
  accesses ignore the user and write bits.
\<close>

definition mmu_walk :: "pmem \<Rightarrow> u32 \<Rightarrow> u32 \<Rightarrow> u32 option" where
  "mmu_walk pm c va =
     (let pde = rd32 pm (entry c (I386_ADDR_TO_PD_IDX va)) in
      if \<not> flag pde I386_PAGE_FLAG_PRESENT then None
      else let pte = rd32 pm (entry pde (I386_ADDR_TO_PT_IDX va)) in
           if \<not> flag pte I386_PAGE_FLAG_PRESENT then None
           else Some (page_of pte OR offset_of va))"

record page_dir =
  content :: u32
  content_phys :: u32

text \<open>
  \<open>dirs\<close> are the allocated directory descriptors, \<open>dir_list\<close> the list of all directories,
  \<open>active\<close> the active one and \<open>cr3\<close> the register that names its frame.
\<close>

record mmu =
  pmem :: pmem
  cr3 :: u32
  active :: addr
  dirs :: "addr \<Rightarrow> page_dir option"
  dir_list :: "addr list"

definition translate :: "mmu \<Rightarrow> u32 \<Rightarrow> u32 option" where
  "translate m va = mmu_walk (pmem m) (cr3 m) va"

definition vread :: "mmu \<Rightarrow> u32 \<Rightarrow> u32 exec" where
  "vread m va = (case translate m va of None \<Rightarrow> Inl Page_Fault | Some pa \<Rightarrow> Inr (rd32 (pmem m) pa))"

definition vwrite :: "mmu \<Rightarrow> u32 \<Rightarrow> u32 \<Rightarrow> mmu exec" where
  "vwrite m va v =
     (case translate m va of None \<Rightarrow> Inl Page_Fault | Some pa \<Rightarrow> Inr (m\<lparr>pmem := wr32 (pmem m) pa v\<rparr>))"

text \<open>Filling a whole page with zeros; its bytes share one translation.\<close>

definition vclear :: "mmu \<Rightarrow> u32 \<Rightarrow> mmu exec" where
  "vclear m va =
     (case translate m va of
        None \<Rightarrow> Inl Page_Fault
      | Some pa \<Rightarrow> Inr (m\<lparr>pmem := (\<lambda>x. if page_of x = page_of pa then 0 else pmem m x)\<rparr>))"

definition active_dir :: "mmu \<Rightarrow> page_dir exec" where
  "active_dir m =
     (if active m = NULL then Inl Null_Deref
      else case dirs m (active m) of None \<Rightarrow> Inl Use_After_Free | Some p \<Rightarrow> Inr p)"

section \<open>Operations on page tables\<close>

text \<open>The iterator that enters a kernel table in every directory.\<close>

fun paging_set_pd :: "u32 \<Rightarrow> u32 \<Rightarrow> addr list \<Rightarrow> mmu \<Rightarrow> mmu exec" where
  "paging_set_pd index v [] m = Inr m"
| "paging_set_pd index v (d # ds) m =
     (case dirs m d of
        None \<Rightarrow> Inl Use_After_Free
      | Some p \<Rightarrow>
          (case vwrite m (content p + 4 * index) v of
             Inl f \<Rightarrow> Inl f
           | Inr m' \<Rightarrow> paging_set_pd index v ds m'))"

text \<open>The branch of \<^verbatim>\<open>paging_map\<close> that makes a missing table; \<open>p\<close> is the active directory.\<close>

definition new_table :: "page_dir \<Rightarrow> u32 \<Rightarrow> u32 \<Rightarrow> mmu \<times> bitmap \<Rightarrow> (mmu \<times> bitmap) exec" where
  "new_table p va flags = (\<lambda>(m, b).
     let pd_idx = I386_ADDR_TO_PD_IDX va;
         (a1, b1) = physmm_alloc_frame b;
         (table_addr, b') = (if a1 = PHYSMM_NO_FRAME then physmm_alloc_frame b1 else (a1, b1));
         pd_entry = (I386_PAGE_FLAG_RW OR I386_PAGE_FLAG_PRESENT) OR table_addr;
         entered = (if \<not> flag flags PAGING_PAGE_FLAG_USER
                    then paging_set_pd pd_idx (pd_entry OR I386_PAGE_FLAG_GLOBAL) (dir_list m) m
                    else vwrite m (content p + 4 * pd_idx) (pd_entry OR I386_PAGE_FLAG_USER))
     in case entered of
          Inl f \<Rightarrow> Inl f
        | Inr m1 \<Rightarrow>
            (case vclear m1 (page_of (I386_ADDR_TO_PTEPTR va)) of Inl f \<Rightarrow> Inl f | Inr m2 \<Rightarrow> Inr (m2, b')))"

definition pt_entry :: "u32 \<Rightarrow> u32" where
  "pt_entry flags =
     I386_PAGE_FLAG_PRESENT
     OR (if flag flags PAGING_PAGE_FLAG_USER then I386_PAGE_FLAG_USER else I386_PAGE_FLAG_GLOBAL)
     OR (if flag flags PAGING_PAGE_FLAG_NOCACHE then I386_PAGE_FLAG_NOCACHE else 0)
     OR (if flag flags PAGING_PAGE_FLAG_RW then I386_PAGE_FLAG_RW else 0)"

text \<open>The part of \<^verbatim>\<open>paging_map\<close> that fills the entry of the table.\<close>

definition set_pte :: "u32 \<Rightarrow> u32 \<Rightarrow> u32 \<Rightarrow> mmu \<Rightarrow> mmu exec" where
  "set_pte va pa flags m =
     (let slot = page_of (I386_ADDR_TO_PTEPTR va) + 4 * I386_ADDR_TO_PT_IDX va in
      case vread m slot of
        Inl f \<Rightarrow> Inl f
      | Inr old \<Rightarrow>
          (case (if flag old I386_PAGE_FLAG_PRESENT then vwrite m slot 0 else Inr m) of
             Inl f \<Rightarrow> Inl f
           | Inr m' \<Rightarrow> vwrite m' slot (pt_entry flags OR page_of pa)))"

definition paging_map :: "u32 \<Rightarrow> u32 \<Rightarrow> u32 \<Rightarrow> mmu \<times> bitmap \<Rightarrow> (mmu \<times> bitmap) exec" where
  "paging_map va pa flags = (\<lambda>(m, b).
     case active_dir m of
       Inl f \<Rightarrow> Inl f
     | Inr p \<Rightarrow>
         (case vread m (content p + 4 * I386_ADDR_TO_PD_IDX va) of
            Inl f \<Rightarrow> Inl f
          | Inr pde \<Rightarrow>
              (case (if pde = 0 then new_table p va flags (m, b) else Inr (m, b)) of
                 Inl f \<Rightarrow> Inl f
               | Inr (m', b') \<Rightarrow>
                   (case set_pte va pa flags m' of Inl f \<Rightarrow> Inl f | Inr m2 \<Rightarrow> Inr (m2, b')))))"

definition paging_unmap :: "u32 \<Rightarrow> mmu \<Rightarrow> mmu exec" where
  "paging_unmap va m =
     (case vread m (I386_ADDR_TO_PTEPTR va) of
        Inl f \<Rightarrow> Inl f
      | Inr e \<Rightarrow> vwrite m (I386_ADDR_TO_PTEPTR va) (e AND NOT I386_PAGE_FLAG_PRESENT))"

definition paging_tag :: "u32 \<Rightarrow> u32 \<Rightarrow> mmu \<Rightarrow> mmu exec" where
  "paging_tag va tag m =
     (case vread m (I386_ADDR_TO_PTEPTR va) of
        Inl f \<Rightarrow> Inl f
      | Inr e \<Rightarrow>
          (case vwrite m (I386_ADDR_TO_PTEPTR va) (e AND NOT 0xE00) of
             Inl f \<Rightarrow> Inl f
           | Inr m' \<Rightarrow>
               (case vread m' (I386_ADDR_TO_PTEPTR va) of
                  Inl f \<Rightarrow> Inl f
                | Inr e' \<Rightarrow> vwrite m' (I386_ADDR_TO_PTEPTR va) (e' OR (push_bit 9 tag AND 0xE00)))))"

definition paging_get_tag :: "u32 \<Rightarrow> mmu \<Rightarrow> u32 exec" where
  "paging_get_tag va m =
     (case vread m (I386_ADDR_TO_PTEPTR va) of Inl f \<Rightarrow> Inl f | Inr e \<Rightarrow> Inr (drop_bit 9 (e AND 0xE00)))"

definition paging_get_physical_address :: "mmu \<Rightarrow> u32 \<Rightarrow> u32 exec" where
  "paging_get_physical_address m va =
     (if active m = NULL then Inr (0 - 0xC0000000)
      else case active_dir m of
             Inl f \<Rightarrow> Inl f
           | Inr p \<Rightarrow>
               (case vread m (content p + 4 * I386_ADDR_TO_PD_IDX va) of
                  Inl f \<Rightarrow> Inl f
                | Inr pde \<Rightarrow>
                    if flag pde I386_PAGE_FLAG_PRESENT
                    then (case vread m (I386_ADDR_TO_PTEPTR va) of
                            Inl f \<Rightarrow> Inl f
                          | Inr e \<Rightarrow>
                              Inr (if flag e I386_PAGE_FLAG_PRESENT then page_of e OR offset_of va else 0))
                    else Inr 0))"

definition paging_switch_dir :: "addr \<Rightarrow> mmu \<Rightarrow> mmu exec" where
  "paging_switch_dir new_dir m =
     (if active m = new_dir then Inr m
      else case dirs m new_dir of
             None \<Rightarrow> Inl Use_After_Free
           | Some p \<Rightarrow>
               let m1 = m\<lparr>active := new_dir\<rparr> in
               (case paging_get_physical_address m1 (content p) of
                  Inl f \<Rightarrow> Inl f
                | Inr pa \<Rightarrow> Inr (m1\<lparr>cr3 := pa\<rparr>)))"

text \<open>
  The physical address under another directory; \<open>pt\<close> is the heap page that is
  pointed at the table of that directory for a moment.
\<close>

definition paging_get_physical_address_other ::
    "addr \<Rightarrow> u32 \<Rightarrow> u32 \<Rightarrow> mmu \<times> bitmap \<Rightarrow> (u32 \<times> mmu \<times> bitmap) exec" where
  "paging_get_physical_address_other dir pt va = (\<lambda>(m, b).
     case dirs m dir of
       None \<Rightarrow> Inl Use_After_Free
     | Some p \<Rightarrow>
         (case vread m (content p + 4 * I386_ADDR_TO_PD_IDX va) of
            Inl f \<Rightarrow> Inl f
          | Inr pde \<Rightarrow>
              if \<not> flag pde I386_PAGE_FLAG_PRESENT then Inr (0, m, b)
              else case paging_get_physical_address m pt of
                     Inl f \<Rightarrow> Inl f
                   | Inr pt_o \<Rightarrow>
                       (case paging_map pt (page_of pde) (I386_PAGE_FLAG_RW OR I386_PAGE_FLAG_PRESENT) (m, b) of
                          Inl f \<Rightarrow> Inl f
                        | Inr (m1, b1) \<Rightarrow>
                            (case vread m1 (pt + 4 * I386_ADDR_TO_PT_IDX va) of
                               Inl f \<Rightarrow> Inl f
                             | Inr pt_v \<Rightarrow>
                                 (case paging_map pt pt_o (I386_PAGE_FLAG_RW OR I386_PAGE_FLAG_PRESENT) (m1, b1) of
                                    Inl f \<Rightarrow> Inl f
                                  | Inr (m2, b2) \<Rightarrow>
                                      Inr (if flag pt_v I386_PAGE_FLAG_PRESENT then page_of pt_v OR offset_of va else 0,
                                           m2, b2))))))"

text \<open>Freeing a directory gives back the frames of its user tables.\<close>

fun free_tables :: "u32 \<Rightarrow> u32 list \<Rightarrow> mmu \<Rightarrow> bitmap \<Rightarrow> bitmap exec" where
  "free_tables pdir [] m b = Inr b"
| "free_tables pdir (i # is) m b =
     (case vread m (pdir + 4 * i) of
        Inl f \<Rightarrow> Inl f
      | Inr pde \<Rightarrow>
          if flag pde I386_PAGE_FLAG_PRESENT then free_tables pdir is m (physmm_free_frame b (page_of pde))
          else free_tables pdir is m b)"

definition paging_free_dir :: "addr \<Rightarrow> mmu \<times> bitmap \<Rightarrow> (mmu \<times> bitmap) exec" where
  "paging_free_dir dir = (\<lambda>(m, b).
     case dirs m dir of
       None \<Rightarrow> Inl Use_After_Free
     | Some p \<Rightarrow>
         (case free_tables (content p) (map of_nat [1..<0x300]) m b of
            Inl f \<Rightarrow> Inl f
          | Inr b' \<Rightarrow>
              if dir \<notin> set (dir_list m) then Inl Assert_Failed
              else Inr (m\<lparr>dirs := (dirs m)(dir := None), dir_list := remove1 dir (dir_list m)\<rparr>, b')))"

section \<open>Ranges\<close>

text \<open>
  A loop over the pages \<open>p\<close>, \<open>p + PAGE_SIZE\<close>, and so on; a step ends the loop with a result or goes on with a state.
\<close>

partial_function (option) page_loop :: "(u32 \<Rightarrow> 's \<Rightarrow> 'r + 's) \<Rightarrow> u32 \<Rightarrow> 's \<Rightarrow> 'r option" where
  "page_loop step p s = (case step p s of Inl r \<Rightarrow> Some r | Inr s' \<Rightarrow> page_loop step (p + PAGE_SIZE) s')"

text \<open>Backing the kernel heap with frames; the result is the number of bytes that have been mapped.\<close>

definition core_step :: "u32 \<Rightarrow> u32 \<Rightarrow> u32 \<Rightarrow> mmu \<times> bitmap \<Rightarrow> (u32 \<times> mmu \<times> bitmap) exec + (mmu \<times> bitmap)" where
  "core_step address sz counter = (\<lambda>(m, b).
     if \<not> counter < sz then Inl (Inr (counter, m, b))
     else case physmm_alloc_frame b of
            (frame, b1) \<Rightarrow>
              if frame = PHYSMM_NO_FRAME then Inl (Inr (counter, m, b1))
              else (case paging_map (address + counter) frame PAGING_PAGE_FLAG_RW (m, b1) of
                      Inl f \<Rightarrow> Inl (Inl f)
                    | Inr (m1, b2) \<Rightarrow>
                        (case paging_tag (address + counter) PAGING_PAGE_TAG_KERNEL_DATA m1 of
                           Inl f \<Rightarrow> Inl (Inl f)
                         | Inr m2 \<Rightarrow> Inr (m2, b2))))"

definition heapmm_request_core :: "u32 \<Rightarrow> u32 \<Rightarrow> mmu \<times> bitmap \<Rightarrow> (u32 \<times> mmu \<times> bitmap) exec option" where
  "heapmm_request_core address sz s =
     (if active (fst s) = NULL then Some (Inr (0, s)) else page_loop (core_step address sz) 0 s)"

record physmap =
  pm_virt :: u32
  pm_size :: u32
  pm_phys :: u32
  pm_flags :: u32
  map_start :: u32
  map_size :: u32

text \<open>One page of \<^verbatim>\<open>paging_map_phys_range\<close>: the frame behind it is freed and \<open>phys\<close> is mapped instead.\<close>

definition replace_page :: "u32 \<Rightarrow> u32 \<Rightarrow> u32 \<Rightarrow> mmu \<times> bitmap \<Rightarrow> (mmu \<times> bitmap) exec" where
  "replace_page page_ptr phys flags = (\<lambda>(m, b).
     case paging_get_physical_address m page_ptr of
       Inl f \<Rightarrow> Inl f
     | Inr old \<Rightarrow>
         (case paging_unmap page_ptr m of
            Inl f \<Rightarrow> Inl f
          | Inr m1 \<Rightarrow> paging_map page_ptr phys flags (m1, physmm_free_frame b old)))"

definition replace_step ::
    "(u32 \<Rightarrow> bool) \<Rightarrow> physmap \<Rightarrow> u32 \<Rightarrow> mmu \<times> bitmap \<Rightarrow> (mmu \<times> bitmap) exec + (mmu \<times> bitmap)" where
  "replace_step goes mp p s =
     (if \<not> goes p then Inl (Inr s)
      else case replace_page (map_start mp + p) (pm_phys mp + p) (pm_flags mp) s of
             Inl f \<Rightarrow> Inl (Inl f)
           | Inr s' \<Rightarrow> Inr s')"

text \<open>\<open>desc\<close> and \<open>space\<close> are the results of the two heap allocations.\<close>

definition paging_map_phys_range ::
    "bool \<Rightarrow> u32 \<Rightarrow> u32 \<Rightarrow> u32 \<Rightarrow> u32 \<Rightarrow> mmu \<times> bitmap \<Rightarrow> (physmap option \<times> mmu \<times> bitmap) exec option" where
  "paging_map_phys_range desc space addr sz flags s =
     (let start = addr AND PAGE_ADDR_MASK; a = addr AND NOT PAGE_ADDR_MASK;
          mp = \<lparr>pm_virt = start + space, pm_size = sz, pm_phys = a, pm_flags = flags, map_start = space,
                 map_size = (sz + start + PAGE_SIZE - 1) AND NOT PAGE_ADDR_MASK\<rparr> in
      if \<not> desc \<or> space = 0 then Some (Inr (None, s))
      else case page_loop (replace_step (\<lambda>p. p < map_size mp) mp) 0 s of
             None \<Rightarrow> None
           | Some (Inl f) \<Rightarrow> Some (Inl f)
           | Some (Inr s') \<Rightarrow> Some (Inr (Some mp, s')))"

text \<open>A turn of \<^verbatim>\<open>paging_unmap_phys_range\<close>; the first component is the page for which no frame was left.\<close>

definition restore_step ::
    "physmap \<Rightarrow> u32 \<Rightarrow> mmu \<times> bitmap \<Rightarrow> (u32 option \<times> mmu \<times> bitmap) exec + (mmu \<times> bitmap)" where
  "restore_step mp p = (\<lambda>(m, b).
     if \<not> p < map_size mp then Inl (Inr (None, m, b))
     else case paging_unmap (map_start mp + p) m of
            Inl f \<Rightarrow> Inl (Inl f)
          | Inr m1 \<Rightarrow>
              (case physmm_alloc_frame b of
                 (frame, b1) \<Rightarrow>
                   if frame = PHYSMM_NO_FRAME then Inl (Inr (Some p, m1, b1))
                   else (case paging_map (map_start mp + p) frame PAGING_PAGE_FLAG_RW (m1, b1) of
                           Inl f \<Rightarrow> Inl (Inl f)
                         | Inr s' \<Rightarrow> Inr s')))"

definition paging_unmap_phys_range :: "physmap \<Rightarrow> mmu \<times> bitmap \<Rightarrow> ((errno + unit) \<times> mmu \<times> bitmap) exec option" where
  "paging_unmap_phys_range mp s =
     (case page_loop (restore_step mp) 0 s of
        None \<Rightarrow> None
      | Some (Inl f) \<Rightarrow> Some (Inl f)
      | Some (Inr (None, s1)) \<Rightarrow> Some (Inr (Inr (), s1))
      | Some (Inr (Some e, s1)) \<Rightarrow>
          (case page_loop (replace_step (\<lambda>p. p \<le> e) mp) 0 s1 of
             None \<Rightarrow> None
           | Some (Inl f) \<Rightarrow> Some (Inl f)
           | Some (Inr s2) \<Rightarrow> Some (Inr (Inl ENOMEM, s2))))"

section \<open>Words in memory\<close>

abbreviation aligned4 :: "u32 \<Rightarrow> bool" where
  "aligned4 a \<equiv> a AND 3 = 0"

lemma small_bits: "bit (1 :: u32) n \<longleftrightarrow> n = 0" "bit (2 :: u32) n \<longleftrightarrow> n = 1" "bit (3 :: u32) n \<longleftrightarrow> n = 0 \<or> n = 1"
  using bit_push_bit_iff [of 1 "1 :: u32" n] bit_mask_iff [where 'a = u32, of 2 n]
  by (auto simp: bit_1_iff mask_eq_exp_minus_1)

lemma aligned4_bits: "aligned4 a \<longleftrightarrow> \<not> bit a 0 \<and> \<not> bit a 1"
proof
  assume "aligned4 a"
  then have "\<not> bit (a AND 3) n" for n by simp
  from this [of 0] this [of 1] show "\<not> bit a 0 \<and> \<not> bit a 1" by (simp add: bit_and_iff small_bits del: bit_numeral_word_iff)
next
  assume "\<not> bit a 0 \<and> \<not> bit a 1"
  then have "\<not> bit (a AND 3) n" for n unfolding bit_and_iff small_bits by blast
  then show "aligned4 a" by (intro bit_word_eqI) simp
qed

lemma aligned4_offsets:
  assumes "aligned4 a" "aligned4 b" "i \<in> {0, 1, 2, 3}" "j \<in> {0, 1, 2, 3}"
  shows "a OR i = b OR j \<longleftrightarrow> a = b \<and> i = j"
proof
  assume e: "a OR i = b OR j"
  have hi: "\<not> bit k n" if "k \<in> {0, 1, 2, 3}" "2 \<le> n" for k :: u32 and n
    using that by (auto simp: small_bits simp del: bit_numeral_word_iff)
  have "bit a n = bit b n" for n
  proof (cases "2 \<le> n")
    case True
    then show ?thesis using arg_cong [OF e, of "\<lambda>w. bit w n"] hi assms(3,4) unfolding bit_or_iff by blast
  next
    case False
    then have "n = 0 \<or> n = 1" by auto
    then show ?thesis using assms(1,2) by (auto simp: aligned4_bits)
  qed
  moreover have "bit i n = bit j n" for n
  proof (cases "2 \<le> n")
    case True
    then show ?thesis using hi assms(3,4) by blast
  next
    case False
    then have "n = 0 \<or> n = 1" by auto
    then show ?thesis
      using arg_cong [OF e, of "\<lambda>w. bit w n"] assms(1,2) unfolding aligned4_bits bit_or_iff by blast
  qed
  ultimately show "a = b \<and> i = j" using bit_word_eqI by blast
qed simp

lemma word_bytes: "ucast (ucast v :: u8) OR push_bit 8 (ucast (ucast (drop_bit 8 v) :: u8)) OR
    push_bit 16 (ucast (ucast (drop_bit 16 v) :: u8)) OR push_bit 24 (ucast (ucast (drop_bit 24 v) :: u8)) = (v :: u32)"
proof (rule bit_word_eqI)
  fix n
  assume "n < LENGTH(32)"
  then consider "n < 8" | "8 \<le> n" "n < 16" | "16 \<le> n" "n < 24" | "24 \<le> n" "n < 32" by force
  then show "bit (ucast (ucast v :: u8) OR push_bit 8 (ucast (ucast (drop_bit 8 v) :: u8)) OR
    push_bit 16 (ucast (ucast (drop_bit 16 v) :: u8)) OR push_bit 24 (ucast (ucast (drop_bit 24 v) :: u8)) :: u32) n = bit v n"
    by cases (auto simp: bit_simps)
qed

lemma offsets_distinct: "aligned4 a \<Longrightarrow> i \<in> {1, 2, 3} \<Longrightarrow> a OR i \<noteq> a"
  using aligned4_offsets [of a a i 0] by auto

lemma offsets_apart:
  assumes "aligned4 a" "aligned4 b" "a \<noteq> b" "i \<in> {1, 2, 3}" "j \<in> {1, 2, 3}"
  shows "a OR i \<noteq> b OR j" "a \<noteq> b OR j" "a OR i \<noteq> b"
  using assms aligned4_offsets [of a b i j] aligned4_offsets [of a b 0 j] aligned4_offsets [of a b i 0] by auto

lemma rd32_wr32_same: "aligned4 a \<Longrightarrow> rd32 (wr32 pm a v) a = v"
proof -
  assume a: "aligned4 a"
  have "a OR 1 \<noteq> a OR 2" "a OR 1 \<noteq> a OR 3" "a OR 2 \<noteq> a OR 3"
    using aligned4_offsets [OF a a] by simp_all
  moreover have "a OR 1 \<noteq> a" "a OR 2 \<noteq> a" "a OR 3 \<noteq> a" using offsets_distinct [OF a] by simp_all
  ultimately show ?thesis by (simp add: rd32_def wr32_def word_bytes fun_upd_apply eq_commute [of a])
qed

lemma rd32_wr32_other:
  assumes "aligned4 a" "aligned4 b" "a \<noteq> b"
  shows "rd32 (wr32 pm a v) b = rd32 pm b"
proof -
  have "b \<noteq> a" using assms(3) by simp
  note o = offsets_apart [OF assms(2,1) this]
  have "wr32 pm a v b = pm b" "\<And>i. i \<in> {1, 2, 3} \<Longrightarrow> wr32 pm a v (b OR i) = pm (b OR i)"
    using o assms(3) by (auto simp: wr32_def)
  then show ?thesis by (simp add: rd32_def)
qed


section \<open>Indices\<close>

lemma masks: "(0xFFF :: u32) = mask 12" "(0xFFFFF000 :: u32) = NOT (mask 12)" "(0x3FF000 :: u32) = push_bit 12 (mask 10)"
  "(0xFFC00000 :: u32) = NOT (mask 22)"
  by (simp_all add: mask_eq_exp_minus_1 push_bit_eq_mult)

lemma mask_bits:
  "bit (0xFFF :: u32) n \<longleftrightarrow> n < 12" "bit (0xFFFFF000 :: u32) n \<longleftrightarrow> 12 \<le> n \<and> n < 32"
  "bit (0x3FF000 :: u32) n \<longleftrightarrow> 12 \<le> n \<and> n < 22" "bit (0xFFC00000 :: u32) n \<longleftrightarrow> 22 \<le> n \<and> n < 32"
  unfolding masks by (auto simp: bit_simps)

lemma word_bound: "bit (w :: u32) n \<Longrightarrow> n < 32"
  using bit_imp_le_length [of w n] by simp

lemma idx_bits:
  "bit (I386_ADDR_TO_PT_IDX a) n \<longleftrightarrow> n < 10 \<and> bit a (12 + n)"
  "bit (I386_ADDR_TO_PD_IDX a) n \<longleftrightarrow> n < 10 \<and> bit a (22 + n)"
  unfolding I386_ADDR_TO_PT_IDX_def I386_ADDR_TO_PD_IDX_def bit_drop_bit_eq o_def bit_and_iff mask_bits
  using word_bound [of a "22 + n"] by auto

lemma index_bits: "i < 1024 \<longleftrightarrow> (\<forall>n. bit i n \<longrightarrow> n < 10)" for i :: u32
proof -
  have "i < 1024 \<longleftrightarrow> take_bit 10 (unat i) = unat i"
    by (simp add: take_bit_nat_eq_self_iff word_less_nat_alt)
  also have "\<dots> \<longleftrightarrow> (\<forall>n. bit (unat i) n \<longrightarrow> n < 10)" unfolding bit_eq_iff bit_take_bit_iff by auto
  also have "\<dots> \<longleftrightarrow> (\<forall>n. bit i n \<longrightarrow> n < 10)" using word_bound by (simp add: bit_unsigned_iff)
  finally show ?thesis .
qed

lemma idx_less [simp]: "I386_ADDR_TO_PT_IDX a < 1024" "I386_ADDR_TO_PD_IDX a < 1024"
  by (simp_all add: index_bits idx_bits)

lemma entry_bits:
  "i < 1024 \<Longrightarrow> bit (entry f i) n \<longleftrightarrow> (if n < 12 then 2 \<le> n \<and> bit i (n - 2) else bit f n)"
  unfolding entry_def bit_or_iff bit_and_iff mask_bits bit_push_bit_iff index_bits
  using word_bound [of f n] by auto

lemma page_bits: "bit (page_of a) n \<longleftrightarrow> 12 \<le> n \<and> bit a n" "bit (offset_of a) n \<longleftrightarrow> n < 12 \<and> bit a n"
  unfolding bit_and_iff mask_bits using word_bound [of a n] by auto

lemma entry_aligned: "i < 1024 \<Longrightarrow> aligned4 (entry f i)"
  by (simp add: aligned4_bits entry_bits)

lemma entry_page: "i < 1024 \<Longrightarrow> page_of (entry f i) = page_of f"
  by (rule bit_word_eqI) (auto simp: page_bits entry_bits simp del: bit_and_iff)

lemma entry_eq:
  assumes "i < 1024" "j < 1024"
  shows "entry f i = entry g j \<longleftrightarrow> page_of f = page_of g \<and> i = j"
proof
  assume e: "entry f i = entry g j"
  have "page_of f = page_of g" using entry_page assms e by metis
  moreover have "bit i n = bit j n" for n
    using arg_cong [OF e, of "\<lambda>w. bit w (n + 2)"] assms
    by (cases "n < 10") (auto simp: entry_bits index_bits)
  ultimately show "page_of f = page_of g \<and> i = j" using bit_word_eqI by blast
qed (simp add: entry_def)

lemma same_page_idx:
  "page_of a = page_of b \<longleftrightarrow>
     I386_ADDR_TO_PD_IDX a = I386_ADDR_TO_PD_IDX b \<and> I386_ADDR_TO_PT_IDX a = I386_ADDR_TO_PT_IDX b"
proof
  assume e: "page_of a = page_of b"
  have h: "bit a (12 + n) = bit b (12 + n)" for n
    using arg_cong [OF e, of "\<lambda>w. bit w (12 + n)"] by (simp add: page_bits)
  have "bit a (22 + n) = bit b (22 + n)" for n using h [of "10 + n"] by (simp add: add.assoc [symmetric])
  then show "I386_ADDR_TO_PD_IDX a = I386_ADDR_TO_PD_IDX b \<and> I386_ADDR_TO_PT_IDX a = I386_ADDR_TO_PT_IDX b"
    using h by (auto intro!: bit_word_eqI simp: idx_bits)
next
  assume e: "I386_ADDR_TO_PD_IDX a = I386_ADDR_TO_PD_IDX b \<and> I386_ADDR_TO_PT_IDX a = I386_ADDR_TO_PT_IDX b"
  have h: "bit a (12 + n) = bit b (12 + n)" if "n < 20" for n
  proof (cases "n < 10")
    case True
    then show ?thesis using e idx_bits(1) [of a n] idx_bits(1) [of b n] by simp
  next
    case False
    then have "n - 10 < 10" "22 + (n - 10) = 12 + n" using that by auto
    then show ?thesis using e idx_bits(2) [of a "n - 10"] idx_bits(2) [of b "n - 10"] by metis
  qed
  have "bit a n = bit b n" if "12 \<le> n" "n < 32" for n
  proof -
    have "n = 12 + (n - 12)" "n - 12 < 20" using that by auto
    then show ?thesis using h by metis
  qed
  then show "page_of a = page_of b" by (intro bit_word_eqI) (auto simp: page_bits)
qed

text \<open>The window at the top of the address space shows the tables.\<close>

lemma pteptr_idx:
  "I386_ADDR_TO_PD_IDX (I386_ADDR_TO_PTEPTR a) = 0x3FF"
  "I386_ADDR_TO_PT_IDX (I386_ADDR_TO_PTEPTR a) = I386_ADDR_TO_PD_IDX a"
  "entry f (I386_ADDR_TO_PT_IDX a) = page_of f OR offset_of (I386_ADDR_TO_PTEPTR a)"
proof -
  have b: "bit (I386_ADDR_TO_PTEPTR a) n \<longleftrightarrow>
      22 \<le> n \<and> n < 32 \<or> 12 \<le> n \<and> n < 22 \<and> bit a (10 + n) \<or> 2 \<le> n \<and> n < 12 \<and> bit a (10 + n)" for n
    unfolding I386_ADDR_TO_PTEPTR_def bit_or_iff bit_and_iff mask_bits bit_drop_bit_eq bit_push_bit_iff o_def idx_bits
    by auto
  have m: "(0x3FF :: u32) = mask 10" by (simp add: mask_eq_exp_minus_1)
  show "I386_ADDR_TO_PD_IDX (I386_ADDR_TO_PTEPTR a) = 0x3FF"
    unfolding m by (rule bit_word_eqI) (auto simp: idx_bits b bit_mask_iff)
  show "I386_ADDR_TO_PT_IDX (I386_ADDR_TO_PTEPTR a) = I386_ADDR_TO_PD_IDX a"
    by (rule bit_word_eqI) (auto simp: idx_bits b)
  show "entry f (I386_ADDR_TO_PT_IDX a) = page_of f OR offset_of (I386_ADDR_TO_PTEPTR a)"
    by (rule bit_word_eqI) (auto simp: entry_bits bit_or_iff page_bits b idx_bits simp del: bit_and_iff)
qed



section \<open>Entries\<close>

abbreviation present :: "u32 \<Rightarrow> bool" where
  "present e \<equiv> flag e I386_PAGE_FLAG_PRESENT"

text \<open>The entries of the loaded directory, and the table entry of an address.\<close>

definition pde :: "mmu \<Rightarrow> u32 \<Rightarrow> u32" where
  "pde m i = rd32 (pmem m) (entry (cr3 m) i)"

definition pte :: "mmu \<Rightarrow> u32 \<Rightarrow> u32" where
  "pte m va = rd32 (pmem m) (entry (pde m (I386_ADDR_TO_PD_IDX va)) (I386_ADDR_TO_PT_IDX va))"

lemma translate_eq:
  "translate m va =
     (if present (pde m (I386_ADDR_TO_PD_IDX va)) \<and> present (pte m va) then Some (page_of (pte m va) OR offset_of va)
      else None)"
  by (simp add: translate_def mmu_walk_def pde_def pte_def Let_def)

lemma entry_page_of [simp]: "entry (page_of f) i = entry f i"
  by (simp add: entry_def and.assoc)

lemma entry_cong: "page_of f = page_of g \<Longrightarrow> entry f i = entry g i"
  by (simp add: entry_def)

lemma wr32_twice [simp]: "wr32 (wr32 pm a v) a w = wr32 pm a w"
  by (rule ext) (simp add: wr32_def)

lemma aligned4_page: "aligned4 a \<Longrightarrow> k \<in> {1, 2, 3} \<Longrightarrow> page_of (a OR k) = page_of a"
  by (rule bit_word_eqI)
    (auto simp: page_bits bit_or_iff small_bits simp del: bit_and_iff bit_numeral_word_iff)

text \<open>Zeroing the page \<open>t\<close>.\<close>

definition clear_page :: "pmem \<Rightarrow> u32 \<Rightarrow> pmem" where
  "clear_page pm t = (\<lambda>x. if page_of x = page_of t then 0 else pm x)"

lemma rd32_clear: "aligned4 a \<Longrightarrow> rd32 (clear_page pm t) a = (if page_of a = page_of t then 0 else rd32 pm a)"
  using aligned4_page [of a] by (simp add: rd32_def clear_page_def)

lemma rd32_wr32_entry:
  "i < 1024 \<Longrightarrow> j < 1024 \<Longrightarrow>
     rd32 (wr32 pm (entry f i) v) (entry g j) = (if page_of f = page_of g \<and> i = j then v else rd32 pm (entry g j))"
  using rd32_wr32_same [of "entry f i" pm v] rd32_wr32_other [of "entry f i" "entry g j" pm v]
    entry_aligned [of i f] entry_aligned [of j g] entry_eq [of i j f g]
  by (cases "entry f i = entry g j") auto

lemma wr32_outside: "i < 1024 \<Longrightarrow> page_of x \<noteq> page_of f \<Longrightarrow> wr32 pm (entry f i) v x = pm x"
proof -
  assume i: "i < 1024" and x: "page_of x \<noteq> page_of f"
  have "x \<noteq> entry f i" using x entry_page [OF i] by auto
  moreover have "x \<noteq> entry f i OR k" if "k \<in> {1, 2, 3}" for k
    using x entry_page [OF i] aligned4_page [OF entry_aligned [OF i] that] by metis
  ultimately show ?thesis by (simp add: wr32_def)
qed

lemma pde_write:
  "i < 1024 \<Longrightarrow> j < 1024 \<Longrightarrow>
     pde (m\<lparr>pmem := wr32 (pmem m) (entry t i) v\<rparr>) j = (if page_of t = page_of (cr3 m) \<and> i = j then v else pde m j)"
  by (simp add: pde_def rd32_wr32_entry)

lemma pde_clear:
  "j < 1024 \<Longrightarrow> pde (m\<lparr>pmem := clear_page (pmem m) t\<rparr>) j = (if page_of (cr3 m) = page_of t then 0 else pde m j)"
  by (simp add: pde_def rd32_clear entry_aligned entry_page)

section \<open>Access to directories and tables\<close>

text \<open>The last entry of the directory names the directory.\<close>

definition self_map :: "mmu \<Rightarrow> bool" where
  "self_map m \<longleftrightarrow> present (pde m 0x3FF) \<and> page_of (pde m 0x3FF) = page_of (cr3 m)"

lemma window:
  assumes "self_map m" "present (pde m (I386_ADDR_TO_PD_IDX va))"
  shows "translate m (I386_ADDR_TO_PTEPTR va) = Some (entry (pde m (I386_ADDR_TO_PD_IDX va)) (I386_ADDR_TO_PT_IDX va))"
proof -
  have "entry (pde m 0x3FF) i = entry (cr3 m) i" for i using assms(1) by (intro entry_cong) (simp add: self_map_def)
  then have "pte m (I386_ADDR_TO_PTEPTR va) = pde m (I386_ADDR_TO_PD_IDX va)"
    unfolding pte_def pteptr_idx(1,2) by (simp add: pde_def)
  then show ?thesis
    using assms pteptr_idx(3) [of "pde m (I386_ADDR_TO_PD_IDX va)" va]
    by (simp add: translate_eq pteptr_idx(1) self_map_def)
qed

lemma slot_eq: "page_of (I386_ADDR_TO_PTEPTR va) + 4 * I386_ADDR_TO_PT_IDX va = I386_ADDR_TO_PTEPTR va"
proof -
  let ?p = "page_of (I386_ADDR_TO_PTEPTR va)" and ?i = "push_bit 2 (I386_ADDR_TO_PT_IDX va)"
  have d: "\<not> bit ?p n \<or> \<not> bit ?i n" for n
    by (auto simp: page_bits bit_push_bit_iff idx_bits simp del: bit_and_iff)
  have "?p + 4 * I386_ADDR_TO_PT_IDX va = ?p + ?i" by (simp add: push_bit_eq_mult)
  also have "\<dots> = ?p OR ?i" by (rule disjunctive_add) (rule d)
  also have "\<dots> = entry (I386_ADDR_TO_PTEPTR va) (I386_ADDR_TO_PT_IDX va)" by (simp add: entry_def)
  also have "\<dots> = I386_ADDR_TO_PTEPTR va"
    unfolding pteptr_idx(3) by (rule bit_word_eqI) (auto simp: bit_or_iff page_bits simp del: bit_and_iff)
  finally show ?thesis .
qed

text \<open>A page whose address is page aligned and mapped to the frame \<open>f\<close>.\<close>

lemma in_page:
  assumes "offset_of c = 0" "translate m c = Some (page_of f)" "i < 1024"
  shows "translate m (c + 4 * i) = Some (entry f i)"
proof -
  have lo: "\<not> bit c n" if "n < 12" for n
    using arg_cong [OF assms(1), of "\<lambda>w. bit w n"] that by (simp add: page_bits del: bit_and_iff)
  have hi: "\<not> bit i n" if "10 \<le> n" for n using assms(3) that unfolding index_bits by force
  have "c + 4 * i = c + push_bit 2 i" by (simp add: push_bit_eq_mult)
  also have "\<dots> = c OR push_bit 2 i"
  proof (rule disjunctive_add)
    fix n
    show "\<not> bit c n \<or> \<not> bit (push_bit 2 i) n" using lo [of n] hi [of "n - 2"] by (cases "n < 12") (simp_all add: bit_push_bit_iff)
  qed
  also have "\<dots> = entry c i"
  proof (rule bit_word_eqI)
    fix n
    show "bit (c OR push_bit 2 i) n = bit (entry c i) n"
      using lo [of n] hi [of "n - 2"] word_bound [of i "n - 2"]
      by (cases "n < 12") (simp_all add: entry_bits [OF assms(3)] bit_or_iff bit_push_bit_iff)
  qed
  finally have e: "c + 4 * i = entry c i" .
  have p: "page_of (c + 4 * i) = page_of c" unfolding e using assms(3) by (simp add: entry_page)
  have o: "offset_of (c + 4 * i) = push_bit 2 i" unfolding e
  proof (rule bit_word_eqI)
    fix n
    show "bit (offset_of (entry c i)) n = bit (push_bit 2 i) n"
      unfolding page_bits entry_bits [OF assms(3)] bit_push_bit_iff using hi [of "n - 2"] by auto
  qed
  have "pte m (c + 4 * i) = pte m c" "I386_ADDR_TO_PD_IDX (c + 4 * i) = I386_ADDR_TO_PD_IDX c"
    using p same_page_idx [of "c + 4 * i" c] by (simp_all add: pte_def)
  then show ?thesis
    using assms(1,2) o by (auto simp: translate_eq entry_def split: if_splits)
qed


section \<open>The address space\<close>

abbreviation pd :: "u32 \<Rightarrow> u32" where "pd \<equiv> I386_ADDR_TO_PD_IDX"
abbreviation pt :: "u32 \<Rightarrow> u32" where "pt \<equiv> I386_ADDR_TO_PT_IDX"

definition user_page :: "u32 \<Rightarrow> bool" where
  "user_page va \<longleftrightarrow> 1 \<le> pd va \<and> pd va < 0x300"

text \<open>
  The active directory is loaded, reachable through its \<open>content\<close> in kernel space and through the window;
  the frames of directory and tables are not available for allocation; a
  table of user space belongs to one entry; and only the last entry names the directory.
\<close>

definition dir_ok :: "mmu \<Rightarrow> bool" where
  "dir_ok m \<longleftrightarrow>
     (\<exists>p. active_dir m = Inr p \<and> offset_of (content p) = 0 \<and> 0x300 \<le> pd (content p) \<and> pd (content p) \<noteq> 0x3FF
        \<and> translate m (content p) = Some (page_of (cr3 m)))"

definition frames_used :: "mmu \<Rightarrow> u32 set" where
  "frames_used m = insert (page_of (cr3 m)) ((\<lambda>i. page_of (pde m i)) ` {i. i < 1024 \<and> pde m i \<noteq> 0})"

definition own_tables :: "mmu \<Rightarrow> bool" where
  "own_tables m \<longleftrightarrow>
     (\<forall>i < 1024. \<forall>j < 1024. 1 \<le> i \<and> i < 0x300 \<and> i \<noteq> j \<and> pde m i \<noteq> 0 \<and> pde m j \<noteq> 0
        \<longrightarrow> page_of (pde m i) \<noteq> page_of (pde m j))
     \<and> (\<forall>j < 1024. j \<noteq> 0x3FF \<and> pde m j \<noteq> 0 \<longrightarrow> page_of (pde m j) \<noteq> page_of (cr3 m))"

definition mmu_ok :: "mmu \<times> bitmap \<Rightarrow> bool" where
  "mmu_ok s \<longleftrightarrow> (case s of (m, b) \<Rightarrow>
     self_map m \<and> dir_ok m \<and> own_tables m \<and> (\<forall>i < 1024. pde m i = 0 \<or> present (pde m i))
     \<and> frames_used m \<inter> avail_addrs b = {})"

lemma mmu_okD:
  assumes "mmu_ok (m, b)"
  shows "self_map m" "dir_ok m" "own_tables m" "\<And>i. i < 1024 \<Longrightarrow> pde m i = 0 \<or> present (pde m i)"
    "frames_used m \<inter> avail_addrs b = {}"
  using assms by (simp_all add: mmu_ok_def)

lemma own_tablesD:
  assumes "own_tables m" "i < 1024" "j < 1024" "1 \<le> i" "i < 0x300" "i \<noteq> j" "pde m i \<noteq> 0" "pde m j \<noteq> 0"
  shows "page_of (pde m i) \<noteq> page_of (pde m j)"
  using assms(1) assms(2-) unfolding own_tables_def by presburger

lemma present_nonzero: "present e \<Longrightarrow> e \<noteq> 0"
  by (auto simp: flag_def)

lemma vread_dir:
  assumes "dir_ok m" "active_dir m = Inr p" "i < 1024"
  shows "vread m (content p + 4 * i) = Inr (pde m i)"
    "vwrite m (content p + 4 * i) v = Inr (m\<lparr>pmem := wr32 (pmem m) (entry (cr3 m) i) v\<rparr>)"
  using assms in_page [of "content p" m "cr3 m" i] by (auto simp: vread_def vwrite_def dir_ok_def pde_def)

lemma vread_table:
  assumes "self_map m" "present (pde m (pd va))"
  shows "vread m (I386_ADDR_TO_PTEPTR va) = Inr (pte m va)"
    "vwrite m (I386_ADDR_TO_PTEPTR va) v = Inr (m\<lparr>pmem := wr32 (pmem m) (entry (pde m (pd va)) (pt va)) v\<rparr>)"
  using window [OF assms] by (simp_all add: vread_def vwrite_def pte_def)

text \<open>The effect of writing a table entry: only the page of the entry is translated differently.\<close>

lemma table_write:
  fixes v :: u32
  assumes sep: "page_of t \<noteq> page_of (cr3 m)" and i: "i < 1024"
  defines "m' \<equiv> m\<lparr>pmem := wr32 (pmem m) (entry t i) v\<rparr>"
  shows "j < 1024 \<Longrightarrow> pde m' j = pde m j"
    and "pte m' va = (if page_of t = page_of (pde m (pd va)) \<and> pt va = i then v else pte m va)"
proof -
  show p: "j < 1024 \<Longrightarrow> pde m' j = pde m j" for j using sep i by (simp add: m'_def pde_write)
  show "pte m' va = (if page_of t = page_of (pde m (pd va)) \<and> pt va = i then v else pte m va)"
    unfolding pte_def p [OF idx_less(2)] using rd32_wr32_entry [OF i idx_less(1)] by (auto simp: m'_def)
qed

lemma set_pte_eq:
  assumes "self_map m" "present (pde m (pd va))" "page_of (pde m (pd va)) \<noteq> page_of (cr3 m)"
  shows "set_pte va pa flags m =
    Inr (m\<lparr>pmem := wr32 (pmem m) (entry (pde m (pd va)) (pt va)) (pt_entry flags OR page_of pa)\<rparr>)"
proof -
  let ?m = "m\<lparr>pmem := wr32 (pmem m) (entry (pde m (pd va)) (pt va)) 0\<rparr>"
  have e: "pde ?m j = pde m j" if "j < 1024" for j using table_write(1) [OF assms(3) idx_less(1)] that by blast
  have "self_map ?m" "present (pde ?m (pd va))" using assms(1,2) e by (simp_all add: self_map_def)
  then show ?thesis
    using vread_table [OF assms(1,2)] vread_table(2) [of ?m va "pt_entry flags OR page_of pa"] e [OF idx_less(2)]
    by (simp add: set_pte_def slot_eq Let_def)
qed

lemma pt_entry_low: "page_of (pt_entry flags OR page_of pa) = page_of pa" "present (pt_entry flags OR page_of pa)"
proof -
  have "page_of (pt_entry flags) = 0"
    by (auto simp: pt_entry_def I386_PAGE_FLAG_PRESENT_def I386_PAGE_FLAG_USER_def I386_PAGE_FLAG_GLOBAL_def
        I386_PAGE_FLAG_NOCACHE_def I386_PAGE_FLAG_RW_def and.commute [of _ "0xFFFFF000"] bit.conj_disj_distrib)
  then show "page_of (pt_entry flags OR page_of pa) = page_of pa"
    by (simp add: bit.conj_disj_distrib2 and.assoc)
  show "present (pt_entry flags OR page_of pa)"
    by (simp add: pt_entry_def flag_def I386_PAGE_FLAG_PRESENT_def bit.conj_disj_distrib2)
qed


lemma same_dir:
  assumes "\<And>i. i < 1024 \<Longrightarrow> pde m' i = pde m i" "cr3 m' = cr3 m"
  shows "frames_used m' = frames_used m" "own_tables m' = own_tables m" "self_map m' = self_map m"
proof -
  have "{i. i < 1024 \<and> pde m' i \<noteq> 0} = {i. i < 1024 \<and> pde m i \<noteq> 0}" using assms(1) by auto
  then show "frames_used m' = frames_used m" using assms by (simp add: frames_used_def cong: image_cong_simp)
qed (use assms in \<open>simp_all add: own_tables_def self_map_def\<close>)

lemma user_idx: "user_page va \<Longrightarrow> pd va < 1024 \<and> pd va \<noteq> 0x3FF"
  by (auto simp: user_page_def)

lemma user_table:
  assumes "mmu_ok (m, b)" "user_page va" "pde m (pd va) \<noteq> 0"
  shows "present (pde m (pd va))" "page_of (pde m (pd va)) \<noteq> page_of (cr3 m)"
    "j < 1024 \<Longrightarrow> j \<noteq> pd va \<Longrightarrow> pde m j \<noteq> 0 \<Longrightarrow> page_of (pde m (pd va)) \<noteq> page_of (pde m j)"
proof -
  note ok = mmu_okD [OF assms(1)]
  show "page_of (pde m (pd va)) \<noteq> page_of (pde m j)" if "j < 1024" "j \<noteq> pd va" "pde m j \<noteq> 0" for j
    using own_tablesD [OF ok(3), of "pd va" j] assms(2,3) that by (simp add: user_page_def)
  show "page_of (pde m (pd va)) \<noteq> page_of (cr3 m)"
    using ok(3) assms(3) user_idx [OF assms(2)] unfolding own_tables_def by blast
  show "present (pde m (pd va))" using ok(4) assms(3) idx_less(2) by blast
qed

text \<open>Writing the entry of a user page keeps the address space well formed.\<close>

lemma user_write:
  fixes v :: u32
  assumes ok: "mmu_ok (m, b)" and va: "user_page va" "pde m (pd va) \<noteq> 0"
  defines "m' \<equiv> m\<lparr>pmem := wr32 (pmem m) (entry (pde m (pd va)) (pt va)) v\<rparr>"
  shows "mmu_ok (m', b)"
    and "translate m' va' = (if page_of va' = page_of va then if present v then Some (page_of v OR offset_of va') else None
                             else translate m va')"
    and "pde m' (pd va') = pde m (pd va')"
proof -
  note u = user_table [OF ok va]
  note w = table_write [OF u(2) idx_less(1) [of va], where v = v, folded m'_def]
  show "pde m' (pd va') = pde m (pd va')" by (rule w(1)) simp
  have pte: "pte m' x = (if page_of x = page_of va then v else pte m x)" if "pde m (pd x) \<noteq> 0" for x
  proof (cases "pd x = pd va")
    case True
    then have "(page_of x = page_of va) = (pt x = pt va)" using same_page_idx [of x va] by blast
    then show ?thesis using w(2) [of x] True by simp
  next
    case False
    then have "page_of x \<noteq> page_of va" using same_page_idx [of x va] by blast
    then show ?thesis using w(2) [of x] u(3) [of "pd x"] False that by simp
  qed
  show tr: "translate m' va' = (if page_of va' = page_of va then if present v then Some (page_of v OR offset_of va') else None
                             else translate m va')" for va'
  proof (cases "pde m (pd va') = 0")
    case True
    then have "page_of va' \<noteq> page_of va" using va(2) same_page_idx [of va' va] by auto
    then show ?thesis using True w(1) [of "pd va'"] by (simp add: translate_eq flag_def)
  next
    case False
    show ?thesis
    proof (cases "page_of va' = page_of va")
      case True
      then have "pd va' = pd va" using same_page_idx [of va' va] by blast
      then show ?thesis using True pte [OF False] w(1) [of "pd va'"] u(1) by (simp add: translate_eq)
    next
      case neq: False
      then show ?thesis using pte [OF False] w(1) [of "pd va'"] by (simp add: translate_eq)
    qed
  qed
  have act: "active_dir m' = active_dir m" "cr3 m' = cr3 m" by (simp_all add: active_dir_def m'_def)
  obtain p where p: "active_dir m = Inr p" "offset_of (content p) = 0" "0x300 \<le> pd (content p)" "pd (content p) \<noteq> 0x3FF"
      "translate m (content p) = Some (page_of (cr3 m))" using ok by (auto simp: mmu_ok_def dir_ok_def)
  have "page_of (content p) \<noteq> page_of va" using p(3) va(1) same_page_idx [of "content p" va] by (auto simp: user_page_def)
  then have "dir_ok m'" using p tr act by (auto simp: dir_ok_def)
  moreover have "frames_used m' = frames_used m" "own_tables m' = own_tables m" "self_map m' = self_map m"
    using same_dir [of m' m] w(1) act by blast+
  ultimately show "mmu_ok (m', b)" using ok w(1) by (simp add: mmu_ok_def)
qed

lemma window_page:
  assumes "self_map m" "pd w = 0x3FF" "present (pde m (pt w))"
  shows "translate m w = Some (page_of (pde m (pt w)) OR offset_of w)"
proof -
  have "entry (pde m 0x3FF) i = entry (cr3 m) i" for i using assms(1) by (intro entry_cong) (simp add: self_map_def)
  then have "pte m w = pde m (pt w)" using assms(2) by (simp add: pte_def pde_def)
  then show ?thesis using assms by (simp add: translate_eq self_map_def)
qed

text \<open>A new table in an empty user entry.\<close>

lemma alloc_frame_avail:
  assumes "avail_addrs b \<noteq> {}"
  obtains t b' where "physmm_alloc_frame b = (t, b')" "t \<in> avail_addrs b" "avail_addrs b' = avail_addrs b - {t}"
    "t \<noteq> PHYSMM_NO_FRAME" "page_of t = t"
proof -
  obtain t b' where t: "physmm_alloc_frame b = (t, b')" "t \<in> avail_addrs b" "avail_addrs b' = avail_addrs b - {t}"
    using pm.alloc_some [OF assms] by blast
  then obtain f where "t = push_bit 12 (of_nat f)" by (auto simp: avail_addrs_def addr_of_def)
  then have "page_of t = t" by (intro bit_word_eqI) (auto simp: page_bits bit_push_bit_iff simp del: bit_and_iff)
  then show thesis using that [OF t] pm.avail_frame [OF t(2)] by blast
qed

lemma new_table_user:
  assumes ok: "mmu_ok (m, b)" and va: "user_page va" "pde m (pd va) = 0" and fl: "flag flags PAGING_PAGE_FLAG_USER"
    and p: "active_dir m = Inr p" and av: "avail_addrs b \<noteq> {}"
  obtains m' b' t where "new_table p va flags (m, b) = Inr (m', b')" "mmu_ok (m', b')" "pde m' (pd va) \<noteq> 0"
    "\<And>va'. pd va' \<noteq> 0x3FF \<Longrightarrow> translate m' va' = translate m va'"
    "t \<in> avail_addrs b" "avail_addrs b' = avail_addrs b - {t}"
    "\<And>x. page_of x \<noteq> t \<Longrightarrow> page_of x \<noteq> page_of (cr3 m) \<Longrightarrow> pmem m' x = pmem m x"
    "frames_used m' = insert t (frames_used m)"
proof -
  obtain t b' where t: "physmm_alloc_frame b = (t, b')" "t \<in> avail_addrs b" "avail_addrs b' = avail_addrs b - {t}"
      "t \<noteq> PHYSMM_NO_FRAME" "page_of t = t" by (rule alloc_frame_avail [OF av])
  define e where "e = ((I386_PAGE_FLAG_RW OR I386_PAGE_FLAG_PRESENT) OR t) OR I386_PAGE_FLAG_USER"
  have e: "page_of e = t" "present e" "e \<noteq> 0"
  proof -
    show "page_of e = t" using t(5)
      by (simp add: e_def I386_PAGE_FLAG_RW_def I386_PAGE_FLAG_PRESENT_def I386_PAGE_FLAG_USER_def bit.conj_disj_distrib2)
    show "present e"
      by (simp add: e_def flag_def I386_PAGE_FLAG_RW_def I386_PAGE_FLAG_PRESENT_def I386_PAGE_FLAG_USER_def bit.conj_disj_distrib2)
    then show "e \<noteq> 0" by (rule present_nonzero)
  qed
  let ?D = "page_of (cr3 m)" and ?w = "page_of (I386_ADDR_TO_PTEPTR va)"
  have sm: "self_map m" and dok: "dir_ok m" and own: "own_tables m" and used: "frames_used m \<inter> avail_addrs b = {}"
      and pres: "\<forall>i < 1024. pde m i = 0 \<or> present (pde m i)"
    using ok by (simp_all add: mmu_ok_def)
  have tD: "t \<noteq> ?D" and tT: "\<And>i. i < 1024 \<Longrightarrow> pde m i \<noteq> 0 \<Longrightarrow> page_of (pde m i) \<noteq> t"
    using t(2) used by (auto simp: frames_used_def)
  have vi: "pd va < 1024" "pd va \<noteq> 0x3FF" using user_idx [OF va(1)] by auto
  define m1 where "m1 = m\<lparr>pmem := wr32 (pmem m) (entry (cr3 m) (pd va)) e\<rparr>"
  define m2 where "m2 = m1\<lparr>pmem := clear_page (pmem m1) t\<rparr>"
  have p1: "pde m1 j = (if j = pd va then e else pde m j)" if "j < 1024" for j
    using that vi by (auto simp: m1_def pde_write)
  have p2: "pde m2 j = (if j = pd va then e else pde m j)" if "j < 1024" for j
    using that p1 tD t(5) by (simp add: m2_def pde_clear) (simp add: m1_def)
  have c2: "cr3 m2 = cr3 m" by (simp add: m2_def m1_def)
  have sm1: "self_map m1" using sm vi p1 by (auto simp: self_map_def m1_def)
  have w: "pd ?w = 0x3FF" "pt ?w = pd va" "offset_of ?w = 0"
    using same_page_idx [of ?w "I386_ADDR_TO_PTEPTR va"] pteptr_idx(1,2) [of va] by (simp_all add: and.assoc)
  have tw: "translate m1 ?w = Some t"
    using window_page [OF sm1 w(1)] p1 [OF vi(1)] w e by simp
  have call: "new_table p va flags (m, b) = Inr (m2, b')"
    using vread_dir(2) [OF dok p vi(1), of e] tw t fl
    by (simp add: new_table_def Let_def e_def [symmetric] vclear_def m2_def clear_page_def m1_def cong: if_cong)
  have tr: "translate m2 x = translate m x" if "pd x \<noteq> 0x3FF" for x
  proof (cases "pde m (pd x) = 0")
    case True
    have "pte m2 x = 0" if "pd x = pd va"
      using that p2 e t(5) entry_page entry_aligned by (simp add: pte_def m2_def rd32_clear)
    then show ?thesis using True p2 [of "pd x"] by (cases "pd x = pd va") (simp_all add: translate_eq flag_def)
  next
    case False
    then have "pd x \<noteq> pd va" using va(2) by auto
    then have q: "pde m2 (pd x) = pde m (pd x)" using p2 by simp
    have "page_of (pde m (pd x)) \<noteq> ?D" using own False that by (auto simp: own_tables_def)
    then have "pte m2 x = pte m x"
      using q tT [OF idx_less(2) False] t(5) entry_page entry_aligned
      by (simp add: pte_def m2_def rd32_clear m1_def rd32_wr32_entry vi)
    then show ?thesis using q by (simp add: translate_eq)
  qed
  have fu: "frames_used m2 = insert t (frames_used m)"
  proof -
    have "{i. i < 1024 \<and> pde m2 i \<noteq> 0} = insert (pd va) {i. i < 1024 \<and> pde m i \<noteq> 0}"
      using p2 e(3) vi by (auto split: if_splits)
    moreover have "(\<lambda>i. page_of (pde m2 i)) ` {i. i < 1024 \<and> pde m i \<noteq> 0} = (\<lambda>i. page_of (pde m i)) ` {i. i < 1024 \<and> pde m i \<noteq> 0}"
      using p2 va(2) by (intro image_cong) auto
    ultimately show ?thesis using p2 [OF vi(1)] e(1) c2 by (auto simp: frames_used_def)
  qed
  have ow2: "own_tables m2"
    unfolding own_tables_def
  proof (intro conjI allI impI)
    fix i j
    assume ij: "i < 1024" "j < 1024" "1 \<le> i \<and> i < 0x300 \<and> i \<noteq> j \<and> pde m2 i \<noteq> 0 \<and> pde m2 j \<noteq> 0"
    show "page_of (pde m2 i) \<noteq> page_of (pde m2 j)"
    proof (cases "i = pd va \<or> j = pd va")
      case True
      then show ?thesis using ij p2 [OF ij(1)] p2 [OF ij(2)] e(1) tT [OF ij(1)] tT [OF ij(2)] by auto
    next
      case False
      then show ?thesis using ij p2 [OF ij(1)] p2 [OF ij(2)] own unfolding own_tables_def by auto
    qed
  next
    fix j
    assume j: "j < 1024" "j \<noteq> 0x3FF \<and> pde m2 j \<noteq> 0"
    then show "page_of (pde m2 j) \<noteq> page_of (cr3 m2)"
      using p2 [OF j(1)] e(1) tD own c2 unfolding own_tables_def by (cases "j = pd va") auto
  qed
  have "active_dir m2 = active_dir m" by (simp add: m2_def m1_def active_dir_def)
  then have "dir_ok m2" using dok tr c2 by (auto simp: dir_ok_def)
  moreover have "self_map m2" using sm vi p2 [of "0x3FF"] c2 by (simp add: self_map_def)
  moreover have "pde m2 i = 0 \<or> present (pde m2 i)" if "i < 1024" for i using p2 [OF that] pres that e(2) by auto
  moreover have "frames_used m2 \<inter> avail_addrs b' = {}" unfolding fu t(3) using used by auto
  ultimately have ok2: "mmu_ok (m2, b')" using ow2 by (simp add: mmu_ok_def)
  have mem: "pmem m2 x = pmem m x" if "page_of x \<noteq> t" "page_of x \<noteq> ?D" for x
    using that wr32_outside [OF vi(1)] t(5) by (simp add: m2_def m1_def clear_page_def)
  have nz: "pde m2 (pd va) \<noteq> 0" using p2 e(3) vi by simp
  show thesis
    by (rule that [OF call ok2 nz tr t(2,3) mem fu])
qed


lemma page_offset [simp]: "page_of (page_of x OR offset_of y) = page_of x" "offset_of (page_of x OR offset_of y) = offset_of y"
  by (rule bit_word_eqI; auto simp: page_bits bit_or_iff simp del: bit_and_iff)+

lemma user_mem:
  assumes "pde m (pd va) \<noteq> 0" "page_of x \<notin> frames_used m"
  shows "wr32 (pmem m) (entry (pde m (pd va)) (pt va)) v x = pmem m x"
  using assms by (intro wr32_outside) (auto simp: frames_used_def)

text \<open>Mapping a user page.\<close>

lemma paging_map_user:
  assumes ok: "mmu_ok (m, b)" and va: "user_page va" and fl: "flag flags PAGING_PAGE_FLAG_USER"
    and room: "pde m (pd va) \<noteq> 0 \<or> avail_addrs b \<noteq> {}"
  obtains m' b' where "paging_map va pa flags (m, b) = Inr (m', b')" "mmu_ok (m', b')" "pde m' (pd va) \<noteq> 0"
    "\<And>va'. pd va' \<noteq> 0x3FF \<Longrightarrow>
       translate m' va' = (if page_of va' = page_of va then Some (page_of pa OR offset_of va') else translate m va')"
    "avail_addrs b' \<subseteq> avail_addrs b" "frames_used m' \<union> avail_addrs b' = frames_used m \<union> avail_addrs b"
    "\<And>x. page_of x \<notin> frames_used m' \<Longrightarrow> pmem m' x = pmem m x"
proof -
  note okd = mmu_okD [OF ok]
  obtain p where p: "active_dir m = Inr p" using okd(2) by (auto simp: dir_ok_def)
  note rd = vread_dir(1) [OF okd(2) p idx_less(2) [of va]]
  let ?v = "pt_entry flags OR page_of pa"
  have "\<exists>m1 b1. (if pde m (pd va) = 0 then new_table p va flags (m, b) else Inr (m, b)) = Inr (m1, b1)
    \<and> mmu_ok (m1, b1) \<and> pde m1 (pd va) \<noteq> 0 \<and> (\<forall>va'. pd va' \<noteq> 0x3FF \<longrightarrow> translate m1 va' = translate m va')
    \<and> avail_addrs b1 \<subseteq> avail_addrs b \<and> frames_used m1 \<union> avail_addrs b1 = frames_used m \<union> avail_addrs b
    \<and> (\<forall>x. page_of x \<notin> frames_used m1 \<longrightarrow> pmem m1 x = pmem m x)"
  proof (cases "pde m (pd va) = 0")
    case True
    then have av: "avail_addrs b \<noteq> {}" using room by simp
    obtain m1 b1 t where n: "new_table p va flags (m, b) = Inr (m1, b1)" "mmu_ok (m1, b1)" "pde m1 (pd va) \<noteq> 0"
      "\<And>va'. pd va' \<noteq> 0x3FF \<Longrightarrow> translate m1 va' = translate m va'"
      "t \<in> avail_addrs b" "avail_addrs b1 = avail_addrs b - {t}"
      "\<And>x. page_of x \<noteq> t \<Longrightarrow> page_of x \<noteq> page_of (cr3 m) \<Longrightarrow> pmem m1 x = pmem m x"
      "frames_used m1 = insert t (frames_used m)"
      by (rule new_table_user [OF ok va True fl p av]) blast
    have "frames_used m1 \<union> avail_addrs b1 = frames_used m \<union> avail_addrs b" unfolding n(6,8) using n(5) by auto
    moreover have "pmem m1 x = pmem m x" if "page_of x \<notin> frames_used m1" for x
      using that n(7) [of x] unfolding n(8) by (auto simp: frames_used_def)
    moreover have "avail_addrs b1 \<subseteq> avail_addrs b" unfolding n(6) by auto
    ultimately show ?thesis using n(1-4) True by auto
  qed (use ok in auto)
  then obtain m1 b1 where t: "(if pde m (pd va) = 0 then new_table p va flags (m, b) else Inr (m, b)) = Inr (m1, b1)"
      and ok1: "mmu_ok (m1, b1)" and nz: "pde m1 (pd va) \<noteq> 0"
      and tr1: "\<And>va'. pd va' \<noteq> 0x3FF \<Longrightarrow> translate m1 va' = translate m va'"
      and av1: "avail_addrs b1 \<subseteq> avail_addrs b" "frames_used m1 \<union> avail_addrs b1 = frames_used m \<union> avail_addrs b"
      and mem1: "\<And>x. page_of x \<notin> frames_used m1 \<Longrightarrow> pmem m1 x = pmem m x" by blast
  let ?m = "m1\<lparr>pmem := wr32 (pmem m1) (entry (pde m1 (pd va)) (pt va)) ?v\<rparr>"
  note w = user_write [OF ok1 va nz, of ?v] and u = user_table [OF ok1 va nz]
  have call: "paging_map va pa flags (m, b) = Inr (?m, b1)"
    using rd p t set_pte_eq [OF mmu_okD(1) [OF ok1] u(1,2), of pa flags] by (simp add: paging_map_def)
  have used: "frames_used ?m = frames_used m1" by (rule same_dir) (use table_write(1) [OF u(2) idx_less(1)] in simp_all)
  show thesis
  proof (rule that [OF call w(1)])
    show "pde ?m (pd va) \<noteq> 0" using w(3) nz by simp
    show "translate ?m va' = (if page_of va' = page_of va then Some (page_of pa OR offset_of va') else translate m va')"
      if "pd va' \<noteq> 0x3FF" for va'
      using w(2) [of va'] tr1 [OF that] pt_entry_low by simp
    show "avail_addrs b1 \<subseteq> avail_addrs b" "frames_used ?m \<union> avail_addrs b1 = frames_used m \<union> avail_addrs b"
      using av1 used by simp_all
    show "pmem ?m x = pmem m x" if "page_of x \<notin> frames_used ?m" for x
      using that user_mem [OF nz] mem1 used by simp
  qed
qed

lemma paging_unmap_user:
  assumes ok: "mmu_ok (m, b)" and va: "user_page va" "pde m (pd va) \<noteq> 0"
  obtains m' where "paging_unmap va m = Inr m'" "mmu_ok (m', b)"
    "\<And>va'. translate m' va' = (if page_of va' = page_of va then None else translate m va')"
    "frames_used m' = frames_used m" "\<And>x. page_of x \<notin> frames_used m \<Longrightarrow> pmem m' x = pmem m x"
proof -
  let ?v = "pte m va AND NOT I386_PAGE_FLAG_PRESENT"
  let ?m = "m\<lparr>pmem := wr32 (pmem m) (entry (pde m (pd va)) (pt va)) ?v\<rparr>"
  note w = user_write [OF ok va, of ?v] and u = user_table [OF ok va]
  have "paging_unmap va m = Inr ?m"
    using vread_table [OF mmu_okD(1) [OF ok] u(1)] by (simp add: paging_unmap_def)
  moreover have "\<not> present ?v" by (simp add: flag_def and.assoc I386_PAGE_FLAG_PRESENT_def)
  moreover have "frames_used ?m = frames_used m" by (rule same_dir) (use table_write(1) [OF u(2) idx_less(1)] in simp_all)
  ultimately show thesis using that [of ?m] w user_mem [OF va(2)] by simp
qed

lemma get_physical_eq:
  assumes ok: "mmu_ok (m, b)"
  shows "paging_get_physical_address m va = Inr (case translate m va of None \<Rightarrow> 0 | Some pa \<Rightarrow> pa)"
proof -
  note okd = mmu_okD [OF ok]
  obtain p where p: "active_dir m = Inr p" using okd(2) by (auto simp: dir_ok_def)
  then have "active m \<noteq> NULL" by (auto simp: active_dir_def split: if_splits)
  then show ?thesis
    using p vread_dir(1) [OF okd(2) p idx_less(2) [of va]] vread_table(1) [OF okd(1), of va]
    by (simp add: paging_get_physical_address_def translate_eq)
qed


lemma rd32_page:
  assumes "aligned4 a" "\<And>x. page_of x = page_of a \<Longrightarrow> pm' x = pm x"
  shows "rd32 pm' a = rd32 pm a"
  using assms(2) aligned4_page [OF assms(1)] by (simp add: rd32_def)

text \<open>Memory outside of directory and tables can change without an effect on the translation.\<close>

lemma same_tables:
  assumes same: "\<And>x. page_of x \<in> frames_used m \<Longrightarrow> pm' x = pmem m x"
  shows "translate (m\<lparr>pmem := pm'\<rparr>) = translate m" "frames_used (m\<lparr>pmem := pm'\<rparr>) = frames_used m"
    "mmu_ok (m, b) \<Longrightarrow> mmu_ok (m\<lparr>pmem := pm'\<rparr>, b)"
proof -
  let ?m = "m\<lparr>pmem := pm'\<rparr>"
  have p: "pde ?m i = pde m i" if "i < 1024" for i
    unfolding pde_def using that same
    by (simp, intro rd32_page) (simp_all add: entry_aligned entry_page frames_used_def)
  have t: "pte ?m va = pte m va" if "pde m (pd va) \<noteq> 0" for va
  proof -
    have "page_of (pde m (pd va)) \<in> frames_used m" using that by (auto simp: frames_used_def)
    then show ?thesis
      unfolding pte_def p [OF idx_less(2)] using same
      by (simp, intro rd32_page) (simp_all add: entry_aligned entry_page)
  qed
  show tr: "translate ?m = translate m"
  proof
    fix va
    show "translate ?m va = translate m va"
      using p [OF idx_less(2) [of va]] t [of va] by (cases "pde m (pd va) = 0") (simp_all add: translate_eq flag_def)
  qed
  have d: "frames_used ?m = frames_used m" "own_tables ?m = own_tables m" "self_map ?m = self_map m"
    using same_dir [of ?m m] p by simp_all
  show "frames_used ?m = frames_used m" by (rule d)
  have "active_dir ?m = active_dir m" by (simp add: active_dir_def)
  then show "mmu_ok (m, b) \<Longrightarrow> mmu_ok (?m, b)" using p d tr by (simp add: mmu_ok_def dir_ok_def)
qed

lemma translate_offset: "translate m va = Some pa \<Longrightarrow> offset_of pa = offset_of va"
  by (auto simp: translate_eq split: if_splits)

lemma translate_none_page: "page_of va = page_of va' \<Longrightarrow> translate m va = None \<longleftrightarrow> translate m va' = None"
  by (simp add: translate_eq same_page_idx pte_def)

section \<open>The contract for the users of an address space\<close>

text \<open>
  \<open>tr\<close> is the translation, \<open>reserved\<close> the frames of directory and tables, \<open>avail\<close> the available
  frames and \<open>mem\<close> the physical memory.
\<close>

locale address_space =
  fixes ok :: "'s \<Rightarrow> bool" and tr :: "'s \<Rightarrow> u32 \<Rightarrow> u32 option" and reserved avail :: "'s \<Rightarrow> u32 set"
    and mem :: "'s \<Rightarrow> pmem" and map_page :: "u32 \<Rightarrow> u32 \<Rightarrow> u32 \<Rightarrow> 's \<Rightarrow> 's exec"
    and unmap_page :: "u32 \<Rightarrow> 's \<Rightarrow> 's exec" and phys :: "'s \<Rightarrow> u32 \<Rightarrow> u32 exec" and free :: "'s \<Rightarrow> u32 \<Rightarrow> 's"
  assumes map_ok: "ok s \<Longrightarrow> user_page va \<Longrightarrow> flag fl PAGING_PAGE_FLAG_USER \<Longrightarrow> avail s \<noteq> {} \<or> tr s va \<noteq> None \<Longrightarrow>
      \<exists>s'. map_page va pa fl s = Inr s' \<and> ok s'
        \<and> (\<forall>va'. pd va' \<noteq> 0x3FF \<longrightarrow>
              tr s' va' = (if page_of va' = page_of va then Some (page_of pa OR offset_of va') else tr s va'))
        \<and> avail s' \<subseteq> avail s \<and> reserved s' \<union> avail s' = reserved s \<union> avail s
        \<and> (\<forall>x. page_of x \<notin> reserved s' \<longrightarrow> mem s' x = mem s x)"
    and unmap_ok: "ok s \<Longrightarrow> user_page va \<Longrightarrow> tr s va \<noteq> None \<Longrightarrow>
      \<exists>s'. unmap_page va s = Inr s' \<and> ok s' \<and> (\<forall>va'. tr s' va' = (if page_of va' = page_of va then None else tr s va'))
        \<and> avail s' = avail s \<and> reserved s' = reserved s \<and> (\<forall>x. page_of x \<notin> reserved s \<longrightarrow> mem s' x = mem s x)"
    and phys_ok: "ok s \<Longrightarrow> phys s va = Inr (case tr s va of None \<Rightarrow> 0 | Some pa \<Rightarrow> pa)"
    and free_ok: "ok s \<Longrightarrow> unat f mod 4096 = 0 \<Longrightarrow> f \<notin> reserved s \<Longrightarrow>
      ok (free s f) \<and> tr (free s f) = tr s \<and> avail (free s f) = insert f (avail s)
        \<and> reserved (free s f) = reserved s \<and> mem (free s f) = mem s"
    and disjoint: "ok s \<Longrightarrow> reserved s \<inter> avail s = {}"
    and tr_page: "page_of va = page_of va' \<Longrightarrow> tr s va = None \<longleftrightarrow> tr s va' = None"
begin

text \<open>A page that was mapped is looked up as mapped; after it was unmapped it is not found.\<close>

lemma map_phys_unmap:
  assumes "ok s" "user_page va" "flag fl PAGING_PAGE_FLAG_USER" "avail s \<noteq> {} \<or> tr s va \<noteq> None"
  shows "\<exists>s' s''. map_page va pa fl s = Inr s' \<and> phys s' va = Inr (page_of pa OR offset_of va)
    \<and> unmap_page va s' = Inr s'' \<and> phys s'' va = Inr 0
    \<and> (\<forall>va'. pd va' \<noteq> 0x3FF \<and> page_of va' \<noteq> page_of va \<longrightarrow> tr s' va' = tr s va' \<and> tr s'' va' = tr s va')
    \<and> reserved s'' \<union> avail s'' = reserved s \<union> avail s \<and> ok s''"
proof -
  have v: "pd va \<noteq> 0x3FF" using assms(2) by (auto simp: user_page_def)
  obtain s' where s': "map_page va pa fl s = Inr s'" "ok s'"
      "\<forall>va'. pd va' \<noteq> 0x3FF \<longrightarrow> tr s' va' = (if page_of va' = page_of va then Some (page_of pa OR offset_of va') else tr s va')"
      "reserved s' \<union> avail s' = reserved s \<union> avail s"
    using map_ok [OF assms, of pa] by blast
  have t: "tr s' va = Some (page_of pa OR offset_of va)" using s'(3) v by simp
  obtain s'' where s'': "unmap_page va s' = Inr s''" "ok s''"
      "\<forall>va'. tr s'' va' = (if page_of va' = page_of va then None else tr s' va')" "avail s'' = avail s'" "reserved s'' = reserved s'"
    using unmap_ok [OF s'(2) assms(2)] t by auto
  show ?thesis using s' s'' t phys_ok [OF s'(2), of va] phys_ok [OF s''(2), of va] by auto
qed

end

lemma tr_table: "translate m va \<noteq> None \<Longrightarrow> pde m (pd va) \<noteq> 0"
  using present_nonzero by (auto simp: translate_eq split: if_splits)

interpretation vm: address_space mmu_ok "\<lambda>s. translate (fst s)" "\<lambda>s. frames_used (fst s)" "\<lambda>s. avail_addrs (snd s)"
  "\<lambda>s. pmem (fst s)" paging_map "\<lambda>va s. case paging_unmap va (fst s) of Inl f \<Rightarrow> Inl f | Inr m \<Rightarrow> Inr (m, snd s)"
  "\<lambda>s. paging_get_physical_address (fst s)" "\<lambda>s f. (fst s, physmm_free_frame (snd s) f)"
proof
  fix s :: "mmu \<times> bitmap" and va fl pa
  assume h: "mmu_ok s" "user_page va" "flag fl PAGING_PAGE_FLAG_USER" "avail_addrs (snd s) \<noteq> {} \<or> translate (fst s) va \<noteq> None"
  obtain m b where s: "s = (m, b)" by (cases s)
  have "pde m (pd va) \<noteq> 0 \<or> avail_addrs b \<noteq> {}" using h(4) tr_table s by auto
  from paging_map_user [OF h(1) [unfolded s] h(2,3) this, of pa]
  obtain m' b' where "paging_map va pa fl (m, b) = Inr (m', b')" "mmu_ok (m', b')"
    "\<And>va'. pd va' \<noteq> 0x3FF \<Longrightarrow>
       translate m' va' = (if page_of va' = page_of va then Some (page_of pa OR offset_of va') else translate m va')"
    "avail_addrs b' \<subseteq> avail_addrs b" "frames_used m' \<union> avail_addrs b' = frames_used m \<union> avail_addrs b"
    "\<And>x. page_of x \<notin> frames_used m' \<Longrightarrow> pmem m' x = pmem m x" by metis
  then show "\<exists>s'. paging_map va pa fl s = Inr s' \<and> mmu_ok s'
        \<and> (\<forall>va'. pd va' \<noteq> 0x3FF \<longrightarrow>
              translate (fst s') va' = (if page_of va' = page_of va then Some (page_of pa OR offset_of va') else translate (fst s) va'))
        \<and> avail_addrs (snd s') \<subseteq> avail_addrs (snd s)
        \<and> frames_used (fst s') \<union> avail_addrs (snd s') = frames_used (fst s) \<union> avail_addrs (snd s)
        \<and> (\<forall>x. page_of x \<notin> frames_used (fst s') \<longrightarrow> pmem (fst s') x = pmem (fst s) x)"
    using s by (intro exI [of _ "(m', b')"]) simp
next
  fix s :: "mmu \<times> bitmap" and va
  assume h: "mmu_ok s" "user_page va" "translate (fst s) va \<noteq> None"
  obtain m b where s: "s = (m, b)" by (cases s)
  obtain m' where "paging_unmap va m = Inr m'" "mmu_ok (m', b)"
    "\<And>va'. translate m' va' = (if page_of va' = page_of va then None else translate m va')"
    "frames_used m' = frames_used m" "\<And>x. page_of x \<notin> frames_used m \<Longrightarrow> pmem m' x = pmem m x"
    using paging_unmap_user [of m b va] h tr_table [of m va] s by (metis fst_conv)
  then show "\<exists>s'. (case paging_unmap va (fst s) of Inl f \<Rightarrow> Inl f | Inr m \<Rightarrow> Inr (m, snd s)) = Inr s' \<and> mmu_ok s'
        \<and> (\<forall>va'. translate (fst s') va' = (if page_of va' = page_of va then None else translate (fst s) va'))
        \<and> avail_addrs (snd s') = avail_addrs (snd s) \<and> frames_used (fst s') = frames_used (fst s)
        \<and> (\<forall>x. page_of x \<notin> frames_used (fst s) \<longrightarrow> pmem (fst s') x = pmem (fst s) x)"
    using s by (intro exI [of _ "(m', b)"]) simp
next
  fix s :: "mmu \<times> bitmap" and va
  assume "mmu_ok s"
  then show "paging_get_physical_address (fst s) va = Inr (case translate (fst s) va of None \<Rightarrow> 0 | Some pa \<Rightarrow> pa)"
    using get_physical_eq [of "fst s" "snd s"] by simp
next
  fix s :: "mmu \<times> bitmap" and f
  assume h: "mmu_ok s" "unat f mod 4096 = 0" "f \<notin> frames_used (fst s)"
  have a: "avail_addrs (physmm_free_frame (snd s) f) = insert f (avail_addrs (snd s))"
    using pm.free_list [of "[f]" "snd s"] is_frame_avail h(2) by simp
  then show "mmu_ok (fst s, physmm_free_frame (snd s) f)
        \<and> translate (fst (fst s, physmm_free_frame (snd s) f)) = translate (fst s)
        \<and> avail_addrs (snd (fst s, physmm_free_frame (snd s) f)) = insert f (avail_addrs (snd s))
        \<and> frames_used (fst (fst s, physmm_free_frame (snd s) f)) = frames_used (fst s)
        \<and> pmem (fst (fst s, physmm_free_frame (snd s) f)) = pmem (fst s)"
    using h(1,3) by (cases s) (simp add: mmu_ok_def)
next
  fix s :: "mmu \<times> bitmap"
  assume "mmu_ok s"
  then show "frames_used (fst s) \<inter> avail_addrs (snd s) = {}" by (cases s) (simp add: mmu_ok_def)
qed (rule translate_none_page)


section \<open>Properties\<close>

text \<open>
  C32.  Mapping a user page while a frame is available never faults.  Afterwards the page is translated to the given
  frame, every other page outside the window of the tables is translated as before, and no frame
  is lost: the frames of the tables and the available ones are the same taken together.  Unmapping the page
  removes it again and nothing else.
\<close>

theorem paging_map_correct:
  assumes "mmu_ok (m, b)" "user_page va" "flag flags PAGING_PAGE_FLAG_USER" "avail_addrs b \<noteq> {}"
  shows "\<exists>m' b' m''. paging_map va pa flags (m, b) = Inr (m', b')
    \<and> paging_get_physical_address m' va = Inr (page_of pa OR offset_of va)
    \<and> paging_unmap va m' = Inr m'' \<and> paging_get_physical_address m'' va = Inr 0
    \<and> (\<forall>va'. pd va' \<noteq> 0x3FF \<and> page_of va' \<noteq> page_of va \<longrightarrow>
           translate m' va' = translate m va' \<and> translate m'' va' = translate m va')
    \<and> frames_used m'' \<union> avail_addrs b' = frames_used m \<union> avail_addrs b \<and> mmu_ok (m'', b')"
proof -
  have "avail_addrs (snd (m, b)) \<noteq> {} \<or> translate (fst (m, b)) va \<noteq> None" using assms(4) by simp
  note h = vm.map_phys_unmap [OF assms(1-3) this, of pa, unfolded fst_conv snd_conv]
  obtain s' s'' where h: "paging_map va pa flags (m, b) = Inr s'"
    "paging_get_physical_address (fst s') va = Inr (page_of pa OR offset_of va)"
    "(case paging_unmap va (fst s') of Inl f \<Rightarrow> Inl f | Inr m \<Rightarrow> Inr (m, snd s')) = Inr s''"
    "paging_get_physical_address (fst s'') va = Inr 0"
    "\<forall>va'. pd va' \<noteq> 0x3FF \<and> page_of va' \<noteq> page_of va \<longrightarrow>
       translate (fst s') va' = translate m va' \<and> translate (fst s'') va' = translate m va'"
    "frames_used (fst s'') \<union> avail_addrs (snd s'') = frames_used m \<union> avail_addrs b" "mmu_ok s''"
    using h by blast
  obtain m'' where "paging_unmap va (fst s') = Inr m''" "s'' = (m'', snd s')" using h(3) by (auto split: sum.splits)
  then show ?thesis using h by (intro exI [of _ "fst s'"] exI [of _ "snd s'"] exI [of _ m'']) simp
qed

lemma tag_bits:
  fixes e tag :: u32
  defines "v \<equiv> (e AND NOT 0xE00) OR (push_bit 9 tag AND 0xE00)"
  shows "drop_bit 9 (v AND 0xE00) = tag AND 7" "page_of v = page_of e" "present v = present e"
proof -
  have m: "(0xE00 :: u32) = push_bit 9 (mask 3)" "(7 :: u32) = mask 3" "(1 :: u32) = push_bit 0 1"
    by (simp_all add: mask_eq_exp_minus_1 push_bit_eq_mult)
  have b: "bit (0xE00 :: u32) n \<longleftrightarrow> 9 \<le> n \<and> n < 12" "bit (7 :: u32) n \<longleftrightarrow> n < 3" for n
    unfolding m(1,2) by (auto simp: bit_simps)
  have v: "bit v n \<longleftrightarrow> (if 9 \<le> n \<and> n < 12 then bit tag (n - 9) else bit e n)" for n
    unfolding v_def bit_or_iff bit_and_iff bit_not_iff b bit_push_bit_iff using word_bound [of e n] by auto
  show "drop_bit 9 (v AND 0xE00) = tag AND 7"
    by (rule bit_word_eqI) (unfold bit_drop_bit_eq o_def bit_and_iff v b, auto)
  show "page_of v = page_of e" by (rule bit_word_eqI) (unfold page_bits v, auto)
  have "flag w I386_PAGE_FLAG_PRESENT = bit w 0" for w
    using flag_bit [of w 0] by (simp add: I386_PAGE_FLAG_PRESENT_def)
  then show "present v = present e" by (simp add: v)
qed

text \<open>
  C39.  A tag that is put on a mapped user page is read back, three bits of it, and no translation is changed by it.
\<close>

theorem paging_tag_round_trip:
  assumes ok: "mmu_ok (m, b)" and va: "user_page va" "translate m va \<noteq> None"
  shows "\<exists>m'. paging_tag va tag m = Inr m' \<and> paging_get_tag va m' = Inr (tag AND 7) \<and> translate m' = translate m"
proof -
  have nz: "pde m (pd va) \<noteq> 0" using va(2) by (rule tr_table)
  note u = user_table [OF ok va(1) nz]
  let ?a = "entry (pde m (pd va)) (pt va)" and ?e = "pte m va AND NOT 0xE00"
  let ?v = "?e OR (push_bit 9 tag AND 0xE00)"
  let ?m1 = "m\<lparr>pmem := wr32 (pmem m) ?a ?e\<rparr>" and ?m2 = "m\<lparr>pmem := wr32 (pmem m) ?a ?v\<rparr>"
  have w: "pde (m\<lparr>pmem := wr32 (pmem m) ?a v\<rparr>) (pd va) = pde m (pd va)" "pte (m\<lparr>pmem := wr32 (pmem m) ?a v\<rparr>) va = v"
      "self_map (m\<lparr>pmem := wr32 (pmem m) ?a v\<rparr>)" for v
    using table_write [OF u(2) idx_less(1) [of va], of "pd va" v] table_write(2) [OF u(2) idx_less(1) [of va], of v va]
      mmu_okD(1) [OF user_write(1) [OF ok va(1) nz]] by auto
  note r0 = vread_table [OF mmu_okD(1) [OF ok] u(1)]
  have r: "vread (m\<lparr>pmem := wr32 (pmem m) ?a v\<rparr>) (I386_ADDR_TO_PTEPTR va) = Inr v"
    "vwrite (m\<lparr>pmem := wr32 (pmem m) ?a v\<rparr>) (I386_ADDR_TO_PTEPTR va) x = Inr (m\<lparr>pmem := wr32 (pmem m) ?a x\<rparr>)" for v x
    using vread_table [OF w(3), where va = va] w(1,2) u(1) by simp_all
  have "paging_tag va tag m = Inr ?m2" using r0 r by (simp add: paging_tag_def)
  moreover have "paging_get_tag va ?m2 = Inr (tag AND 7)" using r(1) tag_bits(1) by (simp add: paging_get_tag_def)
  moreover have "translate ?m2 x = translate m x" for x
  proof (cases "page_of x = page_of va")
    case True
    then have "pte m x = pte m va" "pd x = pd va" using same_page_idx [of x va] by (auto simp: pte_def)
    moreover have "present (pte m va)" using va(2) by (auto simp: translate_eq split: if_splits)
    ultimately show ?thesis
      using True user_write(2) [OF ok va(1) nz, of ?v x] tag_bits(2,3) [of "pte m va" tag] u(1)
      by (simp add: translate_eq [of m])
  qed (use user_write(2) [OF ok va(1) nz, of ?v x] in simp)
  ultimately show ?thesis by blast
qed

section \<open>An example\<close>

text \<open>A directory in the frame 1, mapped at the start of kernel space by the table in the frame 2.\<close>

definition mmu_example :: mmu where
  "mmu_example =
     \<lparr>pmem = wr32 (wr32 (wr32 (\<lambda>_. 0) (entry 0x1000 0x3FF) 0x1003) (entry 0x1000 0x300) 0x2003) (entry 0x2000 0) 0x1003,
      cr3 = 0x1000, active = 8, dirs = [8 \<mapsto> \<lparr>content = 0xC0000000, content_phys = 0x1000\<rparr>], dir_list = [8]\<rparr>"

definition bm_example :: bitmap where
  "bm_example = physmm_free_frame (physmm_free_frame physmm_init 0x4000) 0x5000"

lemma bm_example_avail: "avail_addrs bm_example = {0x4000, 0x5000}"
proof -
  have "free_frames physmm_init = {}" by (simp add: free_frames_def physmm_init_def)
  then have "free_frames bm_example = {4, 5}"
    by (auto simp: bm_example_def physmm_free_frame_def free_set_bit frame_of_div)
  then show ?thesis by (simp add: avail_addrs_def addr_of_def push_bit_eq_mult)
qed

lemma rd32_zero: "rd32 (\<lambda>_. 0) a = 0"
  by (simp add: rd32_def)

lemma mmu_example_pde:
  "i < 1024 \<Longrightarrow> pde mmu_example i = (if i = 0x300 then 0x2003 else if i = 0x3FF then 0x1003 else 0)"
  by (auto simp: pde_def mmu_example_def rd32_wr32_entry rd32_zero)

lemma mmu_example_ok: "mmu_ok (mmu_example, bm_example)"
proof -
  have pr: "present 0x2003" "present 0x1003" by (simp_all add: flag_def I386_PAGE_FLAG_PRESENT_def)
  have i: "pd 0xC0000000 = 0x300" "pt 0xC0000000 = 0"
    by (simp_all add: I386_ADDR_TO_PD_IDX_def I386_ADDR_TO_PT_IDX_def drop_bit_eq_div)
  have c: "cr3 mmu_example = 0x1000" by (simp add: mmu_example_def)
  have "pte mmu_example 0xC0000000 = 0x1003"
    unfolding pte_def i mmu_example_pde [of "0x300", simplified]
    using entry_cong [of "0x2003" "0x2000" 0] by (simp add: mmu_example_def rd32_wr32_entry)
  then have t: "translate mmu_example 0xC0000000 = Some 0x1000"
    using pr by (simp add: translate_eq i mmu_example_pde)
  have "active_dir mmu_example = Inr \<lparr>content = 0xC0000000, content_phys = 0x1000\<rparr>"
    by (simp add: active_dir_def mmu_example_def)
  then have "dir_ok mmu_example" using t i c by (simp add: dir_ok_def)
  moreover have "self_map mmu_example" using pr c by (simp add: self_map_def mmu_example_pde)
  moreover have "own_tables mmu_example" using c by (simp add: own_tables_def mmu_example_pde)
  moreover have "frames_used mmu_example \<subseteq> {0x1000, 0x2000}" using c by (auto simp: frames_used_def mmu_example_pde split: if_splits)
  then have "frames_used mmu_example \<inter> avail_addrs bm_example = {}" unfolding bm_example_avail by auto
  ultimately show ?thesis using pr by (simp add: mmu_ok_def mmu_example_pde)
qed

lemma example_user: "user_page 0x40000000" "flag 3 PAGING_PAGE_FLAG_USER"
  by (simp_all add: user_page_def I386_ADDR_TO_PD_IDX_def drop_bit_eq_div flag_def PAGING_PAGE_FLAG_USER_def)

theorem paging_map_correct_witness:
  "\<exists>m' b'. paging_map 0x40000000 0x5000 3 (mmu_example, bm_example) = Inr (m', b')
     \<and> paging_get_physical_address m' 0x40000000 = Inr 0x5000"
  using paging_map_correct [OF mmu_example_ok example_user, of "0x5000"] bm_example_avail by auto

theorem paging_tag_round_trip_witness:
  "\<exists>m m'. paging_tag 0x40000000 PAGING_PAGE_TAG_USER_DATA m = Inr m' \<and> paging_get_tag 0x40000000 m' = Inr 4"
proof -
  have "pde mmu_example (pd 0x40000000) \<noteq> 0 \<or> avail_addrs bm_example \<noteq> {}" using bm_example_avail by simp
  then obtain m' b' where ok: "mmu_ok (m', b')" and t: "\<And>va. pd va \<noteq> 0x3FF \<Longrightarrow> translate m' va =
      (if page_of va = page_of 0x40000000 then Some (page_of 0x5000 OR offset_of va) else translate mmu_example va)"
    by (rule paging_map_user [OF mmu_example_ok example_user, of "0x5000"]) blast
  have "translate m' 0x40000000 \<noteq> None" using t [of "0x40000000"] user_idx [OF example_user(1)] by simp
  with ok show ?thesis
    using paging_tag_round_trip [of m' b' "0x40000000" 4] example_user by (auto simp: PAGING_PAGE_TAG_USER_DATA_def)
qed

section \<open>Where the code departs from its intent\<close>

text \<open>
  The temporary mapping of a foreign table passes the flags of the hardware to a function that
  expects those of \<^verbatim>\<open>kernel/paging.h\<close>: the kernel page becomes accessible to user code.
\<close>

lemma temporary_mapping_user:
  "flag (I386_PAGE_FLAG_RW OR I386_PAGE_FLAG_PRESENT) PAGING_PAGE_FLAG_USER"
  "flag (pt_entry (I386_PAGE_FLAG_RW OR I386_PAGE_FLAG_PRESENT)) I386_PAGE_FLAG_USER"
  by (simp_all add: flag_def pt_entry_def I386_PAGE_FLAG_RW_def I386_PAGE_FLAG_PRESENT_def PAGING_PAGE_FLAG_USER_def
      I386_PAGE_FLAG_USER_def PAGING_PAGE_FLAG_NOCACHE_def PAGING_PAGE_FLAG_RW_def)

text \<open>
  Before paging is active the physical address does not depend on the virtual one.
\<close>

lemma early_physical_address: "active m = NULL \<Longrightarrow> paging_get_physical_address m va = Inr 0x40000000"
  by (simp add: paging_get_physical_address_def)

text \<open>
  A range that no frame is left for: the page is unmapped by then, so the roll-back finds the address 0 behind it and
  makes the frame 0 available.
\<close>

lemma failed_restore_frees_zero:
  assumes ok: "mmu_ok (m, b)" and va: "user_page va" "pde m (pd va) \<noteq> 0" "translate m va = None"
    and z: "0 \<notin> frames_used m"
  shows "\<exists>m' b'. replace_page va pa flags (m, b) = paging_map va pa flags (m', b') \<and> 0 \<in> avail_addrs b'"
proof -
  obtain m' where "paging_unmap va m = Inr m'" by (rule paging_unmap_user [OF ok va(1,2)])
  moreover have "0 \<in> avail_addrs (physmm_free_frame b 0)"
    using pm.free_list [of "[0]" b] is_frame_avail [of 0] by simp
  ultimately show ?thesis using get_physical_eq [OF ok, of va] va(3) by (auto simp: replace_page_def)
qed

end
