(* ===== verification/Procvmm.thy ===== *)
theory Procvmm
  imports Svipc_Shm Paging Icache
begin

text \<open>
  The memory maps of a process (\<^verbatim>\<open>kernel/proc/procvmm.c\<close>) with the attachment of
  shared memory (\<^verbatim>\<open>kernel/svipc/shm.c\<close>) and the page fault handler (\<^verbatim>\<open>kernel/mm/paging.c\<close>).  The
  state puts together the segments and frames of \<open>Svipc_Shm\<close>, the page tables of \<open>Paging\<close> and the
  inodes of \<open>Icache\<close>.  The memory map of the current process is the contract of the list that the code
  keeps: the addresses of the region descriptors in order.
\<close>

section \<open>State\<close>

definition PROCESS_MMAP_FLAG_WRITE :: u32 where "PROCESS_MMAP_FLAG_WRITE = push_bit 1 1"
definition PROCESS_MMAP_FLAG_FILE :: u32 where "PROCESS_MMAP_FLAG_FILE = push_bit 2 1"
definition PROCESS_MMAP_FLAG_PUBLIC :: u32 where "PROCESS_MMAP_FLAG_PUBLIC = push_bit 3 1"
definition PROCESS_MMAP_FLAG_STACK :: u32 where "PROCESS_MMAP_FLAG_STACK = push_bit 4 1"
definition PROCESS_MMAP_FLAG_DEVICE :: u32 where "PROCESS_MMAP_FLAG_DEVICE = push_bit 6 1"
definition PROCESS_MMAP_FLAG_STREAM :: u32 where "PROCESS_MMAP_FLAG_STREAM = push_bit 7 1"
definition PROCESS_MMAP_FLAG_SHM :: u32 where "PROCESS_MMAP_FLAG_SHM = push_bit 8 1"
definition PROCVMM_TOO_LARGE :: int where "PROCVMM_TOO_LARGE = - 2"
definition PROCVMM_INV_MAPPING :: int where "PROCVMM_INV_MAPPING = - 1"
definition SHM_RDONLY :: u32 where "SHM_RDONLY = push_bit 0 1"
definition PROT_WRITE :: u32 where "PROT_WRITE = push_bit 1 1"
definition MAP_SHARED :: u32 where "MAP_SHARED = push_bit 0 1"
definition MAP_FIXED :: u32 where "MAP_FIXED = push_bit 2 1"

record process_mmap =
  mm_start :: u32
  mm_size :: u32
  mm_flags :: u32
  mm_file :: addr
  mm_fd :: u32
  mm_offset :: u32
  mm_file_sz :: u32
  mm_shm :: addr

text \<open>
  \<open>maps\<close> are the allocated descriptors, \<open>memory_map\<close> the list of the current process; \<open>has_proc\<close> tells whether
  the current task belongs to a process.
\<close>

record vm_st = shm_st +
  mmu :: mmu
  inodes :: icache_st
  i_size :: "addr \<Rightarrow> u32"
  i_mode :: "addr \<Rightarrow> u32"
  maps :: "addr \<Rightarrow> process_mmap option"
  memory_map :: "addr list"
  has_proc :: bool
  proc_pid :: u32
  image_end :: u32
  heap_start :: u32
  heap_end :: u32
  heap_max :: u32
  stack_bottom :: u32
  stack_top :: u32

abbreviation space :: "vm_st \<Rightarrow> mmu \<times> bitmap" where
  "space st \<equiv> (mmu st, bm st)"

definition set_space :: "vm_st \<Rightarrow> mmu \<times> bitmap \<Rightarrow> vm_st" where
  "set_space st s = st\<lparr>mmu := fst s, bm := snd s\<rparr>"

section \<open>Looking up regions\<close>

definition get_mmap_iter :: "process_mmap \<Rightarrow> u32 \<Rightarrow> bool" where
  "get_mmap_iter m p \<longleftrightarrow> p \<ge> mm_start m \<and> p < mm_start m + mm_size m"

definition procvmm_get_memory_region :: "vm_st \<Rightarrow> u32 \<Rightarrow> addr option" where
  "procvmm_get_memory_region st address =
     (if \<not> has_proc st \<or> proc_pid st = 0 then None
      else find (\<lambda>n. case maps st n of None \<Rightarrow> False | Some m \<Rightarrow> get_mmap_iter m address) (memory_map st))"

definition check_step :: "vm_st \<Rightarrow> u32 \<Rightarrow> u32 \<Rightarrow> u32 \<Rightarrow> unit \<Rightarrow> bool + unit" where
  "check_step st b sz p u =
     (if \<not> p < sz then Inl True
      else if procvmm_get_memory_region st (b + p) = None then Inl False
      else Inr ())"

definition procvmm_check :: "vm_st \<Rightarrow> u32 \<Rightarrow> u32 \<Rightarrow> bool option" where
  "procvmm_check st dest sz =
     (if \<not> has_proc st \<or> proc_pid st = 0 then Some True
      else page_loop (check_step st (dest AND NOT PAGE_ADDR_MASK) sz) 0 ())"

text \<open>
  The scan of a string in user memory: \<open>mem\<close> are its bytes, \<open>n\<close> what is left of the maximal size, \<open>lp\<close> the
  last value of \<^verbatim>\<open>cp\<close>.
\<close>

fun check_string_loop :: "vm_st \<Rightarrow> (u32 \<Rightarrow> u8) \<Rightarrow> u32 \<Rightarrow> nat \<Rightarrow> u32 \<Rightarrow> u32 \<Rightarrow> int" where
  "check_string_loop st mem b 0 p lp = PROCVMM_TOO_LARGE"
| "check_string_loop st mem b (Suc n) p lp =
     (let cp = (b + p) AND PAGE_ADDR_MASK in
      if lp \<noteq> cp \<and> procvmm_get_memory_region st (b + p) = None then PROCVMM_INV_MAPPING
      else if mem (b + p) = 0 then sint (p + 1)
      else check_string_loop st mem b n (p + 1) cp)"

definition procvmm_check_string :: "vm_st \<Rightarrow> (u32 \<Rightarrow> u8) \<Rightarrow> int \<Rightarrow> u32 \<Rightarrow> u32 \<Rightarrow> int" where
  "procvmm_check_string st mem klen str size_max =
     (if \<not> has_proc st \<or> proc_pid st = 0 then klen + 1
      else check_string_loop st mem str (unat size_max) 0 1)"

fun check_list_loop :: "vm_st \<Rightarrow> (u32 \<Rightarrow> u32) \<Rightarrow> u32 \<Rightarrow> nat \<Rightarrow> u32 \<Rightarrow> u32 \<Rightarrow> int" where
  "check_list_loop st mem b 0 p lp = PROCVMM_TOO_LARGE"
| "check_list_loop st mem b (Suc n) p lp =
     (let cp = (b + 4 * p) AND PAGE_ADDR_MASK in
      if lp \<noteq> cp \<and> procvmm_get_memory_region st (b + 4 * p) = None then PROCVMM_INV_MAPPING
      else if mem (b + 4 * p) = 0 then sint (p + 1)
      else check_list_loop st mem b n (p + 1) cp)"

definition procvmm_check_stringlist :: "vm_st \<Rightarrow> (u32 \<Rightarrow> u32) \<Rightarrow> int \<Rightarrow> u32 \<Rightarrow> u32 \<Rightarrow> int" where
  "procvmm_check_stringlist st mem klen dest len_max =
     (if \<not> has_proc st \<or> proc_pid st = 0 then klen + 1
      else check_list_loop st mem dest (unat len_max) 0 1)"

section \<open>Descriptors\<close>

definition mmap_zero :: process_mmap where
  "mmap_zero = \<lparr>mm_start = 0, mm_size = 0, mm_flags = 0, mm_file = NULL, mm_fd = 0, mm_offset = 0,
                mm_file_sz = 0, mm_shm = NULL\<rparr>"

text \<open>Freeing a descriptor gives up its references; \<open>drv\<close> stores inodes that leave the cache.\<close>

definition mmap_free :: "store_op \<Rightarrow> vm_st \<Rightarrow> addr \<Rightarrow> vm_st exec" where
  "mmap_free drv st region =
     (case maps st region of
        None \<Rightarrow> Inl Use_After_Free
      | Some m \<Rightarrow>
          (case (if flag (mm_flags m) PROCESS_MMAP_FLAG_FILE
                 then case vfs_inode_release drv (inodes st) (mm_file m) of
                        Inl f \<Rightarrow> Inl f
                      | Inr i \<Rightarrow> Inr (st\<lparr>inodes := i\<rparr>)
                 else Inr st) of
             Inl f \<Rightarrow> Inl f
           | Inr st1 \<Rightarrow>
               (case (if flag (mm_flags m) PROCESS_MMAP_FLAG_SHM then shm_unref st1 (mm_shm m) else Inr st1) of
                  Inl f \<Rightarrow> Inl f
                | Inr st2 \<Rightarrow> Inr (st2\<lparr>maps := (maps st2)(region := None)\<rparr>))))"

text \<open>Copying the descriptor \<open>src\<close> to the new one at \<open>dst\<close>, for a child process.\<close>

definition mmap_copy_iter :: "vm_st \<Rightarrow> addr \<Rightarrow> addr \<Rightarrow> vm_st exec" where
  "mmap_copy_iter st src dst =
     (case maps st src of
        None \<Rightarrow> Inl Use_After_Free
      | Some m \<Rightarrow>
          let d = mmap_zero\<lparr>mm_flags := mm_flags m, mm_start := mm_start m, mm_size := mm_size m,
                            mm_offset := mm_offset m, mm_shm := mm_shm m,
                            mm_fd := (if flag (mm_flags m) PROCESS_MMAP_FLAG_STREAM then mm_fd m else 0)\<rparr>
          in if flag (mm_flags m) PROCESS_MMAP_FLAG_FILE \<and> mm_file m \<noteq> NULL
             then case vfs_inode_ref (inodes st) (mm_file m) of
                    Inl f \<Rightarrow> Inl f
                  | Inr (i, ino) \<Rightarrow>
                      Inr (st\<lparr>inodes := ino,
                              maps := (maps st)(dst \<mapsto> d\<lparr>mm_file := i, mm_file_sz := mm_file_sz m\<rparr>)\<rparr>)
             else Inr (st\<lparr>maps := (maps st)(dst \<mapsto> d)\<rparr>))"

text \<open>
  The copy of a whole map: \<open>news\<close> are the results of the allocations, \<open>target\<close> is the list of the child.  The last
  component tells whether an allocation failed.
\<close>

fun copy_loop :: "vm_st \<Rightarrow> addr list \<Rightarrow> addr option list \<Rightarrow> addr list \<Rightarrow> (vm_st \<times> addr list \<times> bool) exec" where
  "copy_loop st [] news target = Inr (st, target, False)"
| "copy_loop st (src # rest) [] target = Inr (st, target, True)"
| "copy_loop st (src # rest) (None # news) target = Inr (st, target, True)"
| "copy_loop st (src # rest) (Some dst # news) target =
     (case mmap_copy_iter st src dst of
        Inl f \<Rightarrow> Inl f
      | Inr st' \<Rightarrow> copy_loop st' rest news (target @ [dst]))"

definition procvmm_copy_memory_map :: "vm_st \<Rightarrow> addr option list \<Rightarrow> addr list \<Rightarrow> (vm_st \<times> addr list \<times> bool) exec" where
  "procvmm_copy_memory_map st news target =
     (if \<not> has_proc st then Inl Null_Deref else copy_loop st (memory_map st) news target)"

section \<open>Collisions and free addresses\<close>

text \<open>\<open>same\<close> tells whether the two descriptors are the same object.\<close>

definition coll_check_iter :: "bool \<Rightarrow> process_mmap \<Rightarrow> process_mmap \<Rightarrow> bool" where
  "coll_check_iter same b c =
     (let b_s = mm_start b; b_e = mm_start b + mm_size b; c_s = mm_start c; c_e = mm_start c + mm_size c in
      if same then False
      else if c_s \<ge> b_s \<and> c_s < b_e then True
      else if c_e > b_s \<and> c_e < b_e then True
      else if b_s \<ge> c_s \<and> b_s < c_e then True
      else b_e > c_s \<and> b_e < c_e)"

text \<open>\<open>a\<close> is the address of the descriptor \<open>c\<close>; \<^term>\<open>None\<close> for one on the stack.\<close>

definition find_collide :: "vm_st \<Rightarrow> addr option \<Rightarrow> process_mmap \<Rightarrow> addr option" where
  "find_collide st a c =
     find (\<lambda>n. case maps st n of None \<Rightarrow> False | Some b \<Rightarrow> coll_check_iter (Some n = a) b c) (memory_map st)"

definition does_collide :: "vm_st \<Rightarrow> addr \<Rightarrow> process_mmap \<Rightarrow> bool" where
  "does_collide st a c \<longleftrightarrow> find_collide st (Some a) c \<noteq> None"

text \<open>A turn of the search: an address (0 is \<^verbatim>\<open>NULL\<close>) or the next candidate.\<close>

definition find_step :: "vm_st \<Rightarrow> u32 \<Rightarrow> u32 \<Rightarrow> u32 + u32" where
  "find_step st sz start =
     (case find_collide st None (mmap_zero\<lparr>mm_start := start, mm_size := sz\<rparr>) of
        None \<Rightarrow> Inl start
      | Some n \<Rightarrow>
          (case maps st n of
             None \<Rightarrow> Inl start
           | Some r \<Rightarrow>
               let next_start = PAGE_ROUND_UP (mm_start r + mm_size r) in
               if next_start \<ge> stack_top st then Inl 0 else Inr next_start))"

partial_function (option) find_loop :: "vm_st \<Rightarrow> u32 \<Rightarrow> u32 \<Rightarrow> u32 option" where
  "find_loop st sz start = (case find_step st sz start of Inl a \<Rightarrow> Some a | Inr s \<Rightarrow> find_loop st sz s)"

definition find_address :: "vm_st \<Rightarrow> u32 \<Rightarrow> u32 option" where
  "find_address st sz = find_loop st sz (heap_max st)"

definition mmap_add :: "store_op \<Rightarrow> vm_st \<Rightarrow> addr \<Rightarrow> (errno option \<times> vm_st) exec" where
  "mmap_add drv st region =
     (if \<not> has_proc st then Inl Null_Deref
      else case maps st region of
             None \<Rightarrow> Inl Use_After_Free
           | Some m \<Rightarrow>
               if does_collide st region m
               then (case mmap_free drv st region of Inl f \<Rightarrow> Inl f | Inr st' \<Rightarrow> Inr (Some EINVAL, st'))
               else Inr (None, st\<lparr>memory_map := memory_map st @ [region]\<rparr>))"

text \<open>An unknown start is reported as 1, which is \<^verbatim>\<open>EPERM\<close>.\<close>

definition procvmm_resize_map :: "vm_st \<Rightarrow> u32 \<Rightarrow> u32 \<Rightarrow> (errno option \<times> vm_st) exec" where
  "procvmm_resize_map st start newsize =
     (case procvmm_get_memory_region st start of
        None \<Rightarrow> Inr (Some EPERM, st)
      | Some n \<Rightarrow>
          (case maps st n of
             None \<Rightarrow> Inl Use_After_Free
           | Some m \<Rightarrow>
               let m' = m\<lparr>mm_size := newsize\<rparr> in
               if does_collide (st\<lparr>maps := (maps st)(n \<mapsto> m')\<rparr>) n m' then Inr (Some EINVAL, st)
               else Inr (None, st\<lparr>maps := (maps st)(n \<mapsto> m')\<rparr>)))"

section \<open>Mapping\<close>

definition procvmm_mmap_anon ::
    "store_op \<Rightarrow> addr option \<Rightarrow> u32 \<Rightarrow> u32 \<Rightarrow> u32 \<Rightarrow> vm_st \<Rightarrow> (errno option \<times> vm_st) exec" where
  "procvmm_mmap_anon drv new start sz flags st =
     (let in_page = start AND PAGE_ADDR_MASK; start' = start - in_page; sz' = sz + in_page in
      case procvmm_get_memory_region st start' of
        Some n \<Rightarrow> Inr (Some EINVAL, st)
      | None \<Rightarrow>
          (case new of
             None \<Rightarrow> Inr (Some ENOMEM, st)
           | Some region \<Rightarrow>
               mmap_add drv
                 (st\<lparr>maps := (maps st)(region \<mapsto> mmap_zero\<lparr>mm_start := start', mm_size := sz',
                       mm_flags := flags AND NOT PROCESS_MMAP_FLAG_FILE\<rparr>)\<rparr>) region))"

text \<open>
  The driver of a character device maps its memory: it gets descriptor, flags, base, offset and size, may change the
  address space, and reports an error or none.
\<close>

type_synonym dev_mmap = "addr \<Rightarrow> u32 \<Rightarrow> u32 \<Rightarrow> u32 \<Rightarrow> u32 \<Rightarrow> u32 \<Rightarrow> mmu \<times> bitmap \<Rightarrow> errno option \<times> mmu \<times> bitmap"

definition int_mmap_file ::
    "store_op \<Rightarrow> dev_mmap \<Rightarrow> addr option \<Rightarrow> u32 \<Rightarrow> u32 \<Rightarrow> addr \<Rightarrow> u32 \<Rightarrow> u32 \<Rightarrow> u32 \<Rightarrow> u32 \<Rightarrow> vm_st \<Rightarrow>
       (errno option \<times> vm_st) exec" where
  "int_mmap_file drv dev new start sz file offset file_sz flags fd st =
     (if file = NULL then Inl Assert_Failed
      else if procvmm_get_memory_region st start \<noteq> None then Inr (Some EINVAL, st)
      else let file_sz' = (if file_sz = 0 then i_size st file else file_sz);
               in_page = start AND PAGE_ADDR_MASK in
           if sint offset < sint in_page then Inr (Some EINVAL, st)
           else case new of
                  None \<Rightarrow> Inr (Some ENOMEM, st)
                | Some region \<Rightarrow>
                    (case vfs_inode_ref (inodes st) file of
                       Inl f \<Rightarrow> Inl f
                     | Inr (i, ino) \<Rightarrow>
                         let m = mmap_zero\<lparr>mm_start := start - in_page, mm_size := sz + in_page,
                                   mm_flags := flags OR PROCESS_MMAP_FLAG_FILE, mm_file := i,
                                   mm_offset := offset - in_page, mm_file_sz := file_sz' + in_page\<rparr>;
                             m' = (if sint fd \<ge> 0
                                   then m\<lparr>mm_fd := fd, mm_flags := mm_flags m OR PROCESS_MMAP_FLAG_STREAM\<rparr> else m);
                             st1 = st\<lparr>inodes := ino, maps := (maps st)(region \<mapsto> m')\<rparr>
                         in if sint fd \<ge> 0 \<and> S_ISCHR (i_mode st file)
                            then if \<not> has_proc st1 then Inl Null_Deref
                                 else if does_collide st1 region m'
                                 then (case mmap_free drv st1 region of
                                         Inl f \<Rightarrow> Inl f
                                       | Inr st2 \<Rightarrow> Inr (Some EINVAL, st2))
                                 else (case dev file fd (flags OR PROCESS_MMAP_FLAG_DEVICE) (start - in_page)
                                              (offset - in_page) (file_sz' + in_page) (space st1) of
                                         (Some e, s) \<Rightarrow>
                                           (case mmap_free drv (set_space st1 s) region of
                                              Inl f \<Rightarrow> Inl f
                                            | Inr st2 \<Rightarrow> Inr (Some e, st2))
                                       | (None, s) \<Rightarrow> mmap_add drv (set_space st1 s) region)
                            else mmap_add drv st1 region))"

definition procvmm_mmap_file ::
    "store_op \<Rightarrow> dev_mmap \<Rightarrow> addr option \<Rightarrow> u32 \<Rightarrow> u32 \<Rightarrow> addr \<Rightarrow> u32 \<Rightarrow> u32 \<Rightarrow> u32 \<Rightarrow> vm_st \<Rightarrow>
       (errno option \<times> vm_st) exec" where
  "procvmm_mmap_file drv dev new start sz file offset file_sz flags st =
     int_mmap_file drv dev new start sz file offset file_sz flags (- 1) st"

text \<open>\<open>ptr\<close> is the stream behind the descriptor: its type and its inode.\<close>

definition procvmm_mmap_stream ::
    "store_op \<Rightarrow> dev_mmap \<Rightarrow> addr option \<Rightarrow> (u32 \<times> addr) option \<Rightarrow> u32 \<Rightarrow> u32 \<Rightarrow> u32 \<Rightarrow> u32 \<Rightarrow> u32 \<Rightarrow> u32 \<Rightarrow> vm_st \<Rightarrow>
       (errno option \<times> vm_st) exec" where
  "procvmm_mmap_stream drv dev new ptr start sz fd offset file_sz flags st =
     (case ptr of
        None \<Rightarrow> Inr (Some EBADF, st)
      | Some (type, file) \<Rightarrow>
          if type \<noteq> STREAM_TYPE_FILE then Inr (Some ENODEV, st)
          else if file = NULL then Inl Assert_Failed
          else int_mmap_file drv dev new start sz file offset file_sz flags fd st)"

definition procvmm_mmap_shm ::
    "store_op \<Rightarrow> addr option \<Rightarrow> u32 \<Rightarrow> addr \<Rightarrow> u32 \<Rightarrow> vm_st \<Rightarrow> (errno option \<times> vm_st) exec" where
  "procvmm_mmap_shm drv new start shm flags st =
     (if shm = NULL then Inl Assert_Failed
      else case procvmm_get_memory_region st start of
             Some n \<Rightarrow> Inr (Some EINVAL, st)
           | None \<Rightarrow>
               (case new of
                  None \<Rightarrow> Inr (Some ENOMEM, st)
                | Some region \<Rightarrow>
                    (case objs (shm_reg st) shm of
                       None \<Rightarrow> Inl Use_After_Free
                     | Some info \<Rightarrow>
                         (case shm_ref (st\<lparr>maps := (maps st)(region \<mapsto> mmap_zero\<lparr>mm_start := start,
                                  mm_size := shm_segsz info,
                                  mm_flags := flags OR (PROCESS_MMAP_FLAG_SHM OR PROCESS_MMAP_FLAG_PUBLIC),
                                  mm_shm := shm\<rparr>)\<rparr>) shm of
                            Inl f \<Rightarrow> Inl f
                          | Inr st1 \<Rightarrow> mmap_add drv st1 region))))"

section \<open>Unmapping\<close>

text \<open>
  A turn of the loop over the pages of a region: the frame behind the page is given back unless
  it belongs to a segment, and the page is unmapped.
\<close>

definition unmap_step ::
    "('s \<Rightarrow> u32 \<Rightarrow> u32 exec) \<Rightarrow> (u32 \<Rightarrow> 's \<Rightarrow> 's exec) \<Rightarrow> ('s \<Rightarrow> u32 \<Rightarrow> 's) \<Rightarrow> bool \<Rightarrow> u32 \<Rightarrow> u32 \<Rightarrow> 's \<Rightarrow> 's exec + 's" where
  "unmap_step phys unmap free shm end page s =
     (if \<not> page < end then Inl (Inr s)
      else case phys s page of
             Inl f \<Rightarrow> Inl (Inl f)
           | Inr frame \<Rightarrow>
               if frame = 0 then Inr s
               else case unmap page (if shm then s else free s frame) of Inl f \<Rightarrow> Inl (Inl f) | Inr s' \<Rightarrow> Inr s')"

abbreviation space_unmap :: "u32 \<Rightarrow> mmu \<times> bitmap \<Rightarrow> (mmu \<times> bitmap) exec" where
  "space_unmap \<equiv> \<lambda>va s. case paging_unmap va (fst s) of Inl f \<Rightarrow> Inl f | Inr m \<Rightarrow> Inr (m, snd s)"

abbreviation space_phys :: "mmu \<times> bitmap \<Rightarrow> u32 \<Rightarrow> u32 exec" where
  "space_phys \<equiv> \<lambda>s. paging_get_physical_address (fst s)"

abbreviation space_free :: "mmu \<times> bitmap \<Rightarrow> u32 \<Rightarrow> mmu \<times> bitmap" where
  "space_free \<equiv> \<lambda>s f. (fst s, physmm_free_frame (snd s) f)"

text \<open>\<open>dunmap\<close> is what the driver of a device does to the address space.\<close>

definition procvmm_unmmap :: "store_op \<Rightarrow> (mmu \<times> bitmap \<Rightarrow> mmu \<times> bitmap) \<Rightarrow> addr \<Rightarrow> vm_st \<Rightarrow> vm_st exec option" where
  "procvmm_unmmap drv dunmap region st =
     (case maps st region of
        None \<Rightarrow> Some (Inl Use_After_Free)
      | Some m \<Rightarrow>
          let st1 = st\<lparr>memory_map := remove1 region (memory_map st)\<rparr> in
          if flag (mm_flags m) PROCESS_MMAP_FLAG_DEVICE
          then Some (mmap_free drv (set_space st1 (dunmap (space st1))) region)
          else case page_loop (unmap_step space_phys space_unmap space_free (flag (mm_flags m) PROCESS_MMAP_FLAG_SHM)
                      (mm_start m + mm_size m)) (mm_start m) (space st1) of
                 None \<Rightarrow> None
               | Some (Inl f) \<Rightarrow> Some (Inl f)
               | Some (Inr s) \<Rightarrow> Some (mmap_free drv (set_space st1 s) region))"

text \<open>
  The same for a process that is not running: its tables are read through the heap page \<open>tp\<close>, and the pages stay mapped
  in its directory \<open>dir\<close>.
\<close>

definition other_step ::
    "addr \<Rightarrow> u32 \<Rightarrow> bool \<Rightarrow> u32 \<Rightarrow> u32 \<Rightarrow> mmu \<times> bitmap \<Rightarrow> (mmu \<times> bitmap) exec + (mmu \<times> bitmap)" where
  "other_step dir tp shm end page s =
     (if \<not> page < end then Inl (Inr s)
      else case paging_get_physical_address_other dir tp page s of
             Inl f \<Rightarrow> Inl (Inl f)
           | Inr (frame, s') \<Rightarrow> Inr (if frame = 0 \<or> shm then s' else space_free s' frame))"

definition procvmm_unmmap_other :: "store_op \<Rightarrow> addr \<Rightarrow> u32 \<Rightarrow> addr \<Rightarrow> vm_st \<Rightarrow> vm_st exec option" where
  "procvmm_unmmap_other drv dir tp region st =
     (case maps st region of
        None \<Rightarrow> Some (Inl Use_After_Free)
      | Some m \<Rightarrow>
          if flag (mm_flags m) PROCESS_MMAP_FLAG_DEVICE then Some (mmap_free drv st region)
          else case page_loop (other_step dir tp (flag (mm_flags m) PROCESS_MMAP_FLAG_SHM) (mm_start m + mm_size m))
                      (mm_start m) (space st) of
                 None \<Rightarrow> None
               | Some (Inl f) \<Rightarrow> Some (Inl f)
               | Some (Inr s) \<Rightarrow> Some (mmap_free drv (set_space st s) region))"

text \<open>Unmapping everything, last region first; the list of another process is an argument.\<close>

fun clear_loop :: "(addr \<Rightarrow> vm_st \<Rightarrow> vm_st exec option) \<Rightarrow> addr list \<Rightarrow> vm_st \<Rightarrow> vm_st exec option" where
  "clear_loop unmmap [] st = Some (Inr st)"
| "clear_loop unmmap (region # rest) st =
     (case unmmap region st of
        None \<Rightarrow> None
      | Some (Inl f) \<Rightarrow> Some (Inl f)
      | Some (Inr st') \<Rightarrow> clear_loop unmmap rest st')"

definition procvmm_clear_mmaps :: "store_op \<Rightarrow> (mmu \<times> bitmap \<Rightarrow> mmu \<times> bitmap) \<Rightarrow> vm_st \<Rightarrow> vm_st exec option" where
  "procvmm_clear_mmaps drv dunmap st = clear_loop (procvmm_unmmap drv dunmap) (rev (memory_map st)) st"

definition procvmm_clear_mmaps_other :: "store_op \<Rightarrow> addr \<Rightarrow> u32 \<Rightarrow> addr list \<Rightarrow> vm_st \<Rightarrow> vm_st exec option" where
  "procvmm_clear_mmaps_other drv dir tp regions st = clear_loop (procvmm_unmmap_other drv dir tp) (rev regions) st"

definition procvmm_do_exec_mmaps ::
    "store_op \<Rightarrow> addr option \<Rightarrow> addr option \<Rightarrow> vm_st \<Rightarrow> (errno option \<times> vm_st) exec" where
  "procvmm_do_exec_mmaps drv new1 new2 st =
     (let st1 = st\<lparr>heap_start := image_end st, heap_end := image_end st, heap_max := 0x40000000,
                   stack_bottom := 0xBFBFF000, stack_top := 0xBF400000\<rparr> in
      case procvmm_mmap_anon drv new1 (stack_bottom st1) 0x1000
             (PROCESS_MMAP_FLAG_WRITE OR PROCESS_MMAP_FLAG_STACK) st1 of
        Inl f \<Rightarrow> Inl f
      | Inr (Some e, st2) \<Rightarrow> Inr (Some e, st2)
      | Inr (None, st2) \<Rightarrow>
          procvmm_mmap_anon drv new2 (stack_top st2) (stack_bottom st2 - stack_top st2)
            (PROCESS_MMAP_FLAG_WRITE OR PROCESS_MMAP_FLAG_STACK) st2)"

section \<open>Page faults\<close>

text \<open>Bytes that are stored at a page, through its translation.\<close>

definition store_bytes :: "pmem \<Rightarrow> u32 \<Rightarrow> u8 list \<Rightarrow> pmem" where
  "store_bytes mem f bs = (\<lambda>x. if page_of x = page_of f \<and> unat (offset_of x) < length bs then bs ! unat (offset_of x) else mem x)"

definition vstore_bytes :: "mmu \<Rightarrow> u32 \<Rightarrow> u8 list \<Rightarrow> mmu exec" where
  "vstore_bytes m va bs =
     (case translate m va of None \<Rightarrow> Inl Page_Fault | Some pa \<Rightarrow> Inr (m\<lparr>pmem := store_bytes (pmem m) pa bs\<rparr>))"

text \<open>
  \<open>read_file file offset count\<close> is \<^verbatim>\<open>vfs_read\<close>: an error or none, and the bytes that were read.
\<close>

type_synonym read_op = "addr \<Rightarrow> u32 \<Rightarrow> u32 \<Rightarrow> errno option \<times> u8 list"

text \<open>The part of a file that a page shows: the offset and the number of bytes, if there are any.\<close>

definition fault_read :: "vm_st \<Rightarrow> process_mmap \<Rightarrow> u32 \<Rightarrow> (u32 \<times> u32) option" where
  "fault_read st m in_region =
     (let file_off = mm_offset m + in_region in
      if in_region < mm_file_sz m \<and> file_off < i_size st (mm_file m)
      then Some (file_off, if in_region + PAGE_SIZE > mm_file_sz m then mm_file_sz m - in_region else PAGE_SIZE)
      else None)"

text \<open>The page at \<open>address\<close> is mapped to \<open>frame\<close>; it is zeroed and, in a file mapping, read; a failed read undoes the mapping.\<close>

definition fill_page ::
    "read_op \<Rightarrow> vm_st \<Rightarrow> process_mmap \<Rightarrow> u32 \<Rightarrow> u32 \<Rightarrow> mmu \<times> bitmap \<Rightarrow> (bool \<times> mmu \<times> bitmap) exec" where
  "fill_page read_file st m address frame s =
     (case vclear (fst s) address of
        Inl f \<Rightarrow> Inl f
      | Inr m2 \<Rightarrow>
          if \<not> flag (mm_flags m) PROCESS_MMAP_FLAG_FILE then Inr (True, m2, snd s)
          else if mm_file m = NULL then Inl Assert_Failed
          else case fault_read st m (address - mm_start m) of
                 None \<Rightarrow> Inr (True, m2, snd s)
               | Some (file_off, read_size) \<Rightarrow>
                   (case read_file (mm_file m) file_off read_size of
                      (status, bs) \<Rightarrow>
                        (case vstore_bytes m2 address bs of
                           Inl f \<Rightarrow> Inl f
                         | Inr m3 \<Rightarrow>
                             if status \<noteq> None \<or> length bs \<noteq> unat read_size
                             then (case paging_unmap address m3 of
                                     Inl f \<Rightarrow> Inl f
                                   | Inr m4 \<Rightarrow> Inr (False, m4, physmm_free_frame (snd s) frame))
                             else Inr (True, m3, snd s))))"

definition fault_flags :: "process_mmap \<Rightarrow> u32" where
  "fault_flags m =
     (if flag (mm_flags m) PROCESS_MMAP_FLAG_WRITE then PAGING_PAGE_FLAG_USER OR PAGING_PAGE_FLAG_RW
      else PAGING_PAGE_FLAG_USER)"

definition procvmm_handle_fault :: "read_op \<Rightarrow> u32 \<Rightarrow> vm_st \<Rightarrow> (bool \<times> vm_st) exec" where
  "procvmm_handle_fault read_file va st =
     (case procvmm_get_memory_region st va of
        None \<Rightarrow> Inr (False, st)
      | Some n \<Rightarrow>
          (case maps st n of
             None \<Rightarrow> Inl Use_After_Free
           | Some m \<Rightarrow>
               if flag (mm_flags m) PROCESS_MMAP_FLAG_DEVICE then Inr (False, st)
               else let address = PAGE_ROUND_DOWN va; i = unat ((address - mm_start m) div PAGE_SIZE) in
                 if flag (mm_flags m) PROCESS_MMAP_FLAG_SHM
                 then if mm_shm m = NULL then Inl Assert_Failed
                      else (case objs (shm_reg st) (mm_shm m) of
                              None \<Rightarrow> Inl Use_After_Free
                            | Some info \<Rightarrow>
                                if length (frames info) \<le> i then Inl Out_Of_Bounds
                                else case paging_map address (frames info ! i) (fault_flags m) (space st) of
                                       Inl f \<Rightarrow> Inl f
                                     | Inr s \<Rightarrow> Inr (True, set_space st s))
                 else (case physmm_alloc_frame (bm st) of
                         (frame, b1) \<Rightarrow>
                           if frame = PHYSMM_NO_FRAME then Inr (False, st\<lparr>bm := b1\<rparr>)
                           else (case paging_map address frame (fault_flags m) (mmu st, b1) of
                                   Inl f \<Rightarrow> Inl f
                                 | Inr s \<Rightarrow>
                                     (case fill_page read_file st m address frame s of
                                        Inl f \<Rightarrow> Inl f
                                      | Inr (ok, s') \<Rightarrow> Inr (ok, set_space st s'))))))"

datatype fault_end = Resolved | Segv_Maperr | Segv_Accerr

definition paging_handle_fault :: "read_op \<Rightarrow> u32 \<Rightarrow> bool \<Rightarrow> bool \<Rightarrow> bool \<Rightarrow> vm_st \<Rightarrow> (fault_end \<times> vm_st) exec" where
  "paging_handle_fault read_file va pres write user st =
     (let fail = (if pres then Segv_Accerr else Segv_Maperr) in
      if user \<and> va > 0xC0000000 then Inr (fail, st)
      else if pres then Inr (fail, st)
      else if va \<ge> 0xBFFF0000 \<and> va < 0xBFFFB000
      then (case physmm_alloc_frame (bm st) of
              (a1, b1) \<Rightarrow>
                (case (if a1 = PHYSMM_NO_FRAME then physmm_alloc_frame b1 else (a1, b1)) of
                   (phys, b2) \<Rightarrow>
                     (case paging_map (va AND NOT PAGE_ADDR_MASK) phys (PAGING_PAGE_FLAG_RW OR PAGING_PAGE_FLAG_USER)
                             (mmu st, b2) of
                        Inl f \<Rightarrow> Inl f
                      | Inr (m1, b3) \<Rightarrow>
                          (case paging_tag (va AND NOT PAGE_ADDR_MASK) PAGING_PAGE_TAG_USER_DATA m1 of
                             Inl f \<Rightarrow> Inl f
                           | Inr m2 \<Rightarrow> Inr (Resolved, set_space st (m2, b3))))))
      else if va \<ge> 0xE0000000 \<and> va < 0xFFC00000 then Inr (fail, st)
      else if va < 0xC0000000
      then (case procvmm_handle_fault read_file va st of
              Inl f \<Rightarrow> Inl f
            | Inr (ok, st') \<Rightarrow> Inr (if ok then Resolved else fail, st'))
      else Inr (fail, st))"

section \<open>System calls\<close>

definition sys_mmap ::
    "store_op \<Rightarrow> dev_mmap \<Rightarrow> addr option \<Rightarrow> (u32 \<times> addr) option \<Rightarrow> u32 \<Rightarrow> u32 \<Rightarrow> u32 \<Rightarrow> u32 \<Rightarrow> u32 \<Rightarrow> u32 \<Rightarrow> vm_st \<Rightarrow>
       ((errno + u32) \<times> vm_st) exec option" where
  "sys_mmap drv dev new ptr addr len prot flags fd offset st =
     (case (if flag (NOT flags) MAP_FIXED then find_address st len else Some addr) of
        None \<Rightarrow> None
      | Some a \<Rightarrow>
          let fl = (if flag flags MAP_SHARED then PROCESS_MMAP_FLAG_PUBLIC else 0)
                   OR (if flag prot PROT_WRITE then PROCESS_MMAP_FLAG_WRITE else 0)
          in Some (case procvmm_mmap_stream drv dev new ptr a len fd offset len fl st of
                     Inl f \<Rightarrow> Inl f
                   | Inr (Some e, st') \<Rightarrow> Inr (Inl e, st')
                   | Inr (None, st') \<Rightarrow> Inr (Inr a, st')))"

definition procvmm_attach_shm ::
    "store_op \<Rightarrow> addr option \<Rightarrow> u32 \<Rightarrow> addr \<Rightarrow> u32 \<Rightarrow> vm_st \<Rightarrow> ((errno + u32) \<times> vm_st) exec option" where
  "procvmm_attach_shm drv new addr shm flags st =
     (case objs (shm_reg st) shm of
        None \<Rightarrow> Some (Inl Use_After_Free)
      | Some info \<Rightarrow>
          (case (if addr = 0 then find_address st (shm_segsz info) else Some addr) of
             None \<Rightarrow> None
           | Some a \<Rightarrow>
               Some (case procvmm_mmap_shm drv new (PAGE_ROUND_DOWN a) shm flags st of
                       Inl f \<Rightarrow> Inl f
                     | Inr (Some e, st') \<Rightarrow> Inr (Inl e, st')
                     | Inr (None, st') \<Rightarrow> Inr (Inr (PAGE_ROUND_DOWN a), st'))))"

definition procvmm_detach_shm ::
    "store_op \<Rightarrow> (mmu \<times> bitmap \<Rightarrow> mmu \<times> bitmap) \<Rightarrow> u32 \<Rightarrow> vm_st \<Rightarrow> ((errno + unit) \<times> vm_st) exec option" where
  "procvmm_detach_shm drv dunmap shmaddr st =
     (case procvmm_get_memory_region st shmaddr of
        None \<Rightarrow> Some (Inr (Inl EINVAL, st))
      | Some region \<Rightarrow>
          (case procvmm_unmmap drv dunmap region st of
             None \<Rightarrow> None
           | Some (Inl f) \<Rightarrow> Some (Inl f)
           | Some (Inr st') \<Rightarrow> Some (Inr (Inr (), st'))))"

text \<open>
  The first writer of a segment clears it: each of its pages is touched, which a page fault maps, and zeroed.
\<close>

definition clear_step :: "read_op \<Rightarrow> u32 \<Rightarrow> u32 \<Rightarrow> u32 \<Rightarrow> vm_st \<Rightarrow> vm_st exec + vm_st" where
  "clear_step read_file base sz p st =
     (if \<not> p < sz then Inl (Inr st)
      else case (if translate (mmu st) (base + p) = None
                 then procvmm_handle_fault read_file (base + p) st else Inr (True, st)) of
             Inl f \<Rightarrow> Inl (Inl f)
           | Inr (False, st') \<Rightarrow> Inl (Inl Page_Fault)
           | Inr (True, st') \<Rightarrow>
               (case vclear (mmu st') (base + p) of
                  Inl f \<Rightarrow> Inl (Inl f)
                | Inr m \<Rightarrow> Inr (st'\<lparr>mmu := m\<rparr>)))"

definition sys_shmat ::
    "store_op \<Rightarrow> read_op \<Rightarrow> kctx \<Rightarrow> addr option \<Rightarrow> u32 \<Rightarrow> u32 \<Rightarrow> u32 \<Rightarrow> vm_st \<Rightarrow> ((errno + u32) \<times> vm_st) exec option" where
  "sys_shmat drv read_file k new shmid shmaddr shmflg st =
     (case shm_get_by_id st shmid of
        None \<Rightarrow> Some (Inr (Inl EINVAL, st))
      | Some a \<Rightarrow>
          (case objs (shm_reg st) a of
             None \<Rightarrow> Some (Inl Use_After_Free)
           | Some info \<Rightarrow>
               let rd = flag shmflg SHM_RDONLY; flags = (if rd then 0 else PROCESS_MMAP_FLAG_WRITE) in
               if h_del info then Some (Inr (Inl EIDRM, st))
               else if \<not> ipc_have_permissions (k_creds k) (shm_perm info)
                          (if rd then IPC_PERM_READ else IPC_PERM_READ OR IPC_PERM_WRITE)
               then Some (Inr (Inl EACCES, st))
               else case procvmm_attach_shm drv new shmaddr a flags st of
                      None \<Rightarrow> None
                    | Some (Inl f) \<Rightarrow> Some (Inl f)
                    | Some (Inr (Inl e, st1)) \<Rightarrow> Some (Inr (Inl e, st1))
                    | Some (Inr (Inr base, st1)) \<Rightarrow>
                        if h_zero info \<or> rd then Some (Inr (Inr base, st1))
                        else (case page_loop (clear_step read_file base (shm_segsz info)) 0 st1 of
                                None \<Rightarrow> None
                              | Some (Inl f) \<Rightarrow> Some (Inl f)
                              | Some (Inr st2) \<Rightarrow>
                                  (case objs (shm_reg st2) a of
                                     None \<Rightarrow> Some (Inl Use_After_Free)
                                   | Some i \<Rightarrow> Some (Inr (Inr base, upd_shm st2 a (i\<lparr>h_zero := True\<rparr>)))))))"

definition sys_shmdt ::
    "store_op \<Rightarrow> (mmu \<times> bitmap \<Rightarrow> mmu \<times> bitmap) \<Rightarrow> u32 \<Rightarrow> vm_st \<Rightarrow> ((errno + unit) \<times> vm_st) exec option" where
  "sys_shmdt drv dunmap shmaddr st = procvmm_detach_shm drv dunmap shmaddr st"


section \<open>Regions do not overlap\<close>

definition region :: "process_mmap \<Rightarrow> nat set" where
  "region m = {unat (mm_start m)..<unat (mm_start m) + unat (mm_size m)}"

text \<open>The end of the region is an address.\<close>

definition fits :: "process_mmap \<Rightarrow> bool" where
  "fits m \<longleftrightarrow> unat (mm_start m) + unat (mm_size m) < 2 ^ 32"

lemma fits_end: "fits m \<Longrightarrow> unat (mm_start m + mm_size m) = unat (mm_start m) + unat (mm_size m)"
  by (simp add: fits_def unat_word_ariths)

lemma get_mmap_iter_iff: "fits m \<Longrightarrow> get_mmap_iter m p \<longleftrightarrow> unat p \<in> region m"
  by (auto simp: get_mmap_iter_def region_def word_le_nat_alt word_less_nat_alt fits_end)

text \<open>The test of the code finds every overlap, and only overlaps when both regions have bytes.\<close>

lemma coll_check_overlap:
  assumes "fits b" "fits c"
  shows "coll_check_iter False b c \<longleftrightarrow>
    region b \<inter> region c \<noteq> {} \<or> mm_size c = 0 \<and> unat (mm_start c) \<in> region b
      \<or> mm_size b = 0 \<and> unat (mm_start b) \<in> region c"
proof -
  have z: "mm_size c = 0 \<longleftrightarrow> unat (mm_size c) = 0" "mm_size b = 0 \<longleftrightarrow> unat (mm_size b) = 0"
    by (simp_all add: unat_eq_0)
  have i: "{x..<x + n} \<inter> {y..<y + m} = {} \<longleftrightarrow> n = 0 \<or> m = 0 \<or> x + n \<le> y \<or> y + m \<le> x" for x n y m :: nat
    by (auto simp: disjoint_iff not_less)
  show ?thesis
    unfolding coll_check_iter_def Let_def region_def z i
    using assms by (auto simp: word_le_nat_alt word_less_nat_alt fits_end split: if_splits)
qed


definition regions_ok :: "vm_st \<Rightarrow> bool" where
  "regions_ok st \<longleftrightarrow>
     distinct (memory_map st) \<and>
     (\<forall>n \<in> set (memory_map st). \<exists>m. maps st n = Some m \<and> fits m) \<and>
     (\<forall>n \<in> set (memory_map st). \<forall>k \<in> set (memory_map st). \<forall>a b. n \<noteq> k \<longrightarrow> maps st n = Some a \<longrightarrow> maps st k = Some b
        \<longrightarrow> region a \<inter> region b = {})"

lemma regions_okD:
  assumes "regions_ok st"
  shows "distinct (memory_map st)" "n \<in> set (memory_map st) \<Longrightarrow> \<exists>m. maps st n = Some m \<and> fits m"
    "n \<in> set (memory_map st) \<Longrightarrow> k \<in> set (memory_map st) \<Longrightarrow> n \<noteq> k \<Longrightarrow> maps st n = Some a \<Longrightarrow> maps st k = Some b
       \<Longrightarrow> region a \<inter> region b = {}"
  using assms unfolding regions_ok_def by blast+

text \<open>Only the list and its descriptors matter.\<close>

lemma regions_ok_sub:
  assumes "regions_ok st" "distinct (memory_map st')" "set (memory_map st') \<subseteq> set (memory_map st)"
    "\<And>n. n \<in> set (memory_map st') \<Longrightarrow> maps st' n = maps st n"
  shows "regions_ok st'"
  unfolding regions_ok_def
proof (intro conjI ballI allI impI)
  show "\<exists>m. maps st' n = Some m \<and> fits m" if "n \<in> set (memory_map st')" for n
    using that assms(3,4) regions_okD(2) [OF assms(1), of n] by auto
  show "region a \<inter> region b = {}"
    if "n \<in> set (memory_map st')" "k \<in> set (memory_map st')" "n \<noteq> k" "maps st' n = Some a" "maps st' k = Some b" for n k a b
    using that assms(3,4) regions_okD(3) [OF assms(1), of n k a b] by auto
qed (rule assms(2))

lemma no_collision:
  assumes ok: "regions_ok st" and c: "fits c" and free: "\<not> does_collide st r c"
    and n: "n \<in> set (memory_map st)" "n \<noteq> r" "maps st n = Some b"
  shows "region b \<inter> region c = {}"
proof -
  have "\<not> coll_check_iter False b c"
    using free n by (auto simp: does_collide_def find_collide_def find_None_iff split: option.splits)
  moreover have "fits b" using regions_okD(2) [OF ok n(1)] n(3) by simp
  ultimately show ?thesis using coll_check_overlap c by blast
qed

lemma regions_ok_add:
  assumes ok: "regions_ok st" and m: "maps st r = Some m" "fits m" "\<not> does_collide st r m" and r: "r \<notin> set (memory_map st)"
  shows "regions_ok (st\<lparr>memory_map := memory_map st @ [r]\<rparr>)"
proof -
  have d: "region b \<inter> region m = {}" if "n \<in> set (memory_map st)" "maps st n = Some b" for n b
    using no_collision [OF ok m(2,3) that(1) _ that(2)] that(1) r by blast
  then have "region m \<inter> region b = {}" if "n \<in> set (memory_map st)" "maps st n = Some b" for n b
    using that by blast
  then show ?thesis
    unfolding regions_ok_def using d regions_okD [OF ok] m r by auto
qed

lemma mmap_free_fields:
  assumes "mmap_free drv st r = Inr st'"
  shows "memory_map st' = memory_map st \<and> maps st' = (maps st)(r := None) \<and> has_proc st' = has_proc st
    \<and> proc_pid st' = proc_pid st \<and> mmu st' = mmu st"
  using assms
  by (auto simp: mmap_free_def shm_unref_def shm_do_delete_def upd_shm_def Let_def split: option.splits if_splits sum.splits)

lemma mmap_add_ok:
  assumes ok: "regions_ok st" and r: "r \<notin> set (memory_map st)" and m: "maps st r = Some m" "fits m"
    and call: "mmap_add drv st r = Inr (e, st')"
  shows "regions_ok st'"
proof (cases "does_collide st r m")
  case True
  then have "mmap_free drv st r = Inr st'" using call m by (auto simp: mmap_add_def split: if_splits sum.splits)
  from mmap_free_fields [OF this] show ?thesis using ok r by (intro regions_ok_sub [OF ok]) (auto simp: regions_ok_def)
next
  case False
  then have "st' = st\<lparr>memory_map := memory_map st @ [r]\<rparr>" using call m by (auto simp: mmap_add_def split: if_splits)
  then show ?thesis using regions_ok_add [OF ok m False r] by simp
qed

lemma round_no_wrap:
  fixes start sz :: u32
  assumes "unat start + unat sz < 2 ^ 32"
  shows "unat (start - (start AND PAGE_ADDR_MASK)) + unat (sz + (start AND PAGE_ADDR_MASK)) < 2 ^ 32"
proof -
  have "start AND PAGE_ADDR_MASK \<le> start" by (rule word_and_le2)
  then have l: "unat (start AND PAGE_ADDR_MASK) \<le> unat start" by (simp add: word_le_nat_alt)
  then have "unat (start - (start AND PAGE_ADDR_MASK)) = unat start - unat (start AND PAGE_ADDR_MASK)"
    by (simp add: unat_sub word_le_nat_alt)
  moreover have "unat (sz + (start AND PAGE_ADDR_MASK)) \<le> unat sz + unat (start AND PAGE_ADDR_MASK)"
    by (simp add: unat_word_ariths)
  ultimately show ?thesis using assms l by linarith
qed

text \<open>Calls of the memory manager; a request does not run past the end of the address space.\<close>

inductive vm_call :: "vm_st \<Rightarrow> vm_st \<Rightarrow> bool" where
  anon: "maps st r = None \<Longrightarrow> unat start + unat sz < 2 ^ 32 \<Longrightarrow>
    procvmm_mmap_anon drv (Some r) start sz flags st = Inr (e, st') \<Longrightarrow> vm_call st st'"
| file_map: "maps st r = None \<Longrightarrow> unat start + unat sz < 2 ^ 32 \<Longrightarrow>
    int_mmap_file drv dev (Some r) start sz file offset file_sz flags fd st = Inr (e, st') \<Longrightarrow> vm_call st st'"
| shm: "maps st r = None \<Longrightarrow> objs (shm_reg st) shm = Some info \<Longrightarrow> unat start + unat (shm_segsz info) < 2 ^ 32 \<Longrightarrow>
    procvmm_mmap_shm drv (Some r) start shm flags st = Inr (e, st') \<Longrightarrow> vm_call st st'"
| resize: "procvmm_get_memory_region st start = Some n \<Longrightarrow> maps st n = Some m \<Longrightarrow>
    unat (mm_start m) + unat newsize < 2 ^ 32 \<Longrightarrow> procvmm_resize_map st start newsize = Inr (e, st') \<Longrightarrow> vm_call st st'"
| unmmap: "procvmm_unmmap drv dunmap r st = Some (Inr st') \<Longrightarrow> vm_call st st'"
| fault: "procvmm_handle_fault read_file va st = Inr (ok, st') \<Longrightarrow> vm_call st st'"

lemma add_region_ok:
  assumes ok: "regions_ok st" and r: "maps st r = None" and m: "fits m"
    and st1: "memory_map st1 = memory_map st" "maps st1 = (maps st)(r \<mapsto> m)"
    and call: "mmap_add drv st1 r = Inr (e, st')"
  shows "regions_ok st'"
proof -
  have nr: "r \<notin> set (memory_map st)" using regions_okD(2) [OF ok] r by force
  then have "regions_ok st1" using ok st1 by (intro regions_ok_sub [OF ok]) (auto simp: regions_ok_def)
  then show ?thesis using mmap_add_ok [OF _ _ _ m call] st1 nr by simp
qed

lemma free_region_ok:
  assumes ok: "regions_ok st" and r: "maps st r = None"
    and st1: "memory_map st1 = memory_map st" "maps st1 = (maps st)(r \<mapsto> m)"
    and call: "mmap_free drv st1 r = Inr st'"
  shows "regions_ok st'"
proof -
  have nr: "r \<notin> set (memory_map st)" using regions_okD(2) [OF ok] r by force
  show ?thesis
    using mmap_free_fields [OF call] st1 nr ok by (intro regions_ok_sub [OF ok]) (auto simp: regions_ok_def)
qed


lemma set_space_fields [simp]:
  "memory_map (set_space st s) = memory_map st" "maps (set_space st s) = maps st" "has_proc (set_space st s) = has_proc st"
  "proc_pid (set_space st s) = proc_pid st" "mmu (set_space st s) = fst s" "bm (set_space st s) = snd s"
  "shm_reg (set_space st s) = shm_reg st" "inodes (set_space st s) = inodes st" "i_size (set_space st s) = i_size st"
  by (simp_all add: set_space_def)

lemma mmap_anon_ok:
  assumes ok: "regions_ok st" and r: "maps st r = None" and w: "unat start + unat sz < 2 ^ 32"
    and call: "procvmm_mmap_anon drv (Some r) start sz flags st = Inr (e, st')"
  shows "regions_ok st'"
proof (cases "procvmm_get_memory_region st (start - (start AND PAGE_ADDR_MASK))")
  case None
  let ?m = "mmap_zero\<lparr>mm_start := start - (start AND PAGE_ADDR_MASK), mm_size := sz + (start AND PAGE_ADDR_MASK),
                       mm_flags := flags AND NOT PROCESS_MMAP_FLAG_FILE\<rparr>"
  have "mmap_add drv (st\<lparr>maps := (maps st)(r \<mapsto> ?m)\<rparr>) r = Inr (e, st')"
    using call None by (simp add: procvmm_mmap_anon_def Let_def)
  moreover have "fits ?m" using round_no_wrap [OF w] by (simp add: fits_def)
  ultimately show ?thesis by (intro add_region_ok [OF ok r, of ?m]) simp_all
next
  case Some
  then show ?thesis using call ok by (simp add: procvmm_mmap_anon_def Let_def)
qed

lemma mmap_file_ok:
  assumes ok: "regions_ok st" and r: "maps st r = None" and w: "unat start + unat sz < 2 ^ 32"
    and call: "int_mmap_file drv dev (Some r) start sz file offset file_sz flags fd st = Inr (e, st')"
  shows "regions_ok st'"
proof (cases "st' = st")
  case False
  let ?ip = "start AND PAGE_ADDR_MASK"
  obtain i ino where i: "vfs_inode_ref (inodes st) file = Inr (i, ino)"
    using call False by (auto simp: int_mmap_file_def Let_def split: if_splits sum.splits prod.splits)
  define m where "m = mmap_zero\<lparr>mm_start := start - ?ip, mm_size := sz + ?ip, mm_flags := flags OR PROCESS_MMAP_FLAG_FILE,
      mm_file := i, mm_offset := offset - ?ip, mm_file_sz := (if file_sz = 0 then i_size st file else file_sz) + ?ip\<rparr>"
  define m' where "m' = (if sint fd \<ge> 0 then m\<lparr>mm_fd := fd, mm_flags := mm_flags m OR PROCESS_MMAP_FLAG_STREAM\<rparr> else m)"
  define st1 where "st1 = st\<lparr>inodes := ino, maps := (maps st)(r \<mapsto> m')\<rparr>"
  have f: "fits m'" using round_no_wrap [OF w] by (simp add: fits_def m'_def m_def)
  have st1: "memory_map (set_space st1 s) = memory_map st" "maps (set_space st1 s) = (maps st)(r \<mapsto> m')"
      "memory_map st1 = memory_map st" "maps st1 = (maps st)(r \<mapsto> m')" for s by (simp_all add: st1_def)
  note add = add_region_ok [OF ok r f] and free = free_region_ok [OF ok r]
  have "(\<exists>s. mmap_add drv (set_space st1 s) r = Inr (e, st')) \<or> mmap_add drv st1 r = Inr (e, st')
      \<or> mmap_free drv st1 r = Inr st' \<or> (\<exists>s. mmap_free drv (set_space st1 s) r = Inr st')"
    using call False
    unfolding int_mmap_file_def Let_def i option.case sum.case prod.case m_def [symmetric] m'_def [symmetric] st1_def [symmetric]
    by (auto split: if_splits sum.splits prod.splits option.splits)
  then show ?thesis using add st1 free by blast
qed (use ok in simp)

lemma mmap_shm_ok:
  assumes ok: "regions_ok st" and r: "maps st r = None" and w: "objs (shm_reg st) shm = Some info"
      "unat start + unat (shm_segsz info) < 2 ^ 32"
    and call: "procvmm_mmap_shm drv (Some r) start shm flags st = Inr (e, st')"
  shows "regions_ok st'"
proof (cases "st' = st")
  case False
  let ?m = "mmap_zero\<lparr>mm_start := start, mm_size := shm_segsz info,
      mm_flags := flags OR (PROCESS_MMAP_FLAG_SHM OR PROCESS_MMAP_FLAG_PUBLIC), mm_shm := shm\<rparr>"
  obtain st1 where s: "shm_ref (st\<lparr>maps := (maps st)(r \<mapsto> ?m)\<rparr>) shm = Inr st1" "mmap_add drv st1 r = Inr (e, st')"
    using call False w(1) by (auto simp: procvmm_mmap_shm_def split: if_splits option.splits sum.splits)
  have "memory_map st1 = memory_map st" "maps st1 = (maps st)(r \<mapsto> ?m)"
    using s(1) by (auto simp: shm_ref_def upd_shm_def split: option.splits)
  moreover have "fits ?m" using w(2) by (simp add: fits_def)
  ultimately show ?thesis using add_region_ok [OF ok r _ _ _ s(2)] by blast
qed (use ok in simp)

lemma resize_ok:
  assumes ok: "regions_ok st" and n: "procvmm_get_memory_region st start = Some n" "maps st n = Some m"
    and w: "unat (mm_start m) + unat newsize < 2 ^ 32" and call: "procvmm_resize_map st start newsize = Inr (e, st')"
  shows "regions_ok st'"
proof (cases "st' = st")
  case False
  let ?m = "m\<lparr>mm_size := newsize\<rparr>"
  let ?st = "st\<lparr>maps := (maps st)(n \<mapsto> ?m)\<rparr>"
  have s: "st' = ?st" "\<not> does_collide ?st n ?m"
    using call n False by (auto simp: procvmm_resize_map_def Let_def split: if_splits)
  have f: "fits ?m" using w by (simp add: fits_def)
  have nm: "n \<in> set (memory_map st)" using n(1) find_SomeD by (fastforce simp: procvmm_get_memory_region_def split: if_splits)
  have d: "region b \<inter> region ?m = {}" if "k \<in> set (memory_map st)" "k \<noteq> n" "maps st k = Some b" for k b
  proof -
    have "\<not> coll_check_iter False b ?m"
      using s(2) that by (auto simp: does_collide_def find_collide_def find_None_iff split: option.splits if_splits)
    moreover have "fits b" using regions_okD(2) [OF ok that(1)] that(3) by simp
    ultimately show ?thesis using coll_check_overlap f by blast
  qed
  then have d': "region ?m \<inter> region b = {}" if "k \<in> set (memory_map st)" "k \<noteq> n" "maps st k = Some b" for k b
    using that by blast
  show ?thesis unfolding s(1) regions_ok_def using d d' f regions_okD [OF ok] by auto
qed (use ok in simp)

lemma unmmap_fields:
  assumes "procvmm_unmmap drv dunmap r st = Some (Inr st')"
  shows "memory_map st' = remove1 r (memory_map st) \<and> maps st' = (maps st)(r := None) \<and> has_proc st' = has_proc st
    \<and> proc_pid st' = proc_pid st"
  using assms mmap_free_fields [of drv _ r st']
  by (fastforce simp: procvmm_unmmap_def Let_def split: option.splits if_splits sum.splits)

lemma unmmap_ok:
  assumes ok: "regions_ok st" and call: "procvmm_unmmap drv dunmap r st = Some (Inr st')"
  shows "regions_ok st'"
  using unmmap_fields [OF call] regions_okD(1) [OF ok]
  by (intro regions_ok_sub [OF ok]) (auto simp: set_remove1_eq dest: notin_set_remove1)

lemma fault_fields:
  assumes "procvmm_handle_fault read_file va st = Inr (r, st')"
  shows "memory_map st' = memory_map st" "maps st' = maps st" "has_proc st' = has_proc st" "proc_pid st' = proc_pid st"
  using assms
  by (auto simp: procvmm_handle_fault_def Let_def split: option.splits if_splits sum.splits prod.splits)

lemma fault_ok: "regions_ok st \<Longrightarrow> procvmm_handle_fault read_file va st = Inr (r, st') \<Longrightarrow> regions_ok st'"
  using fault_fields [of read_file va st r st'] by (simp add: regions_ok_def)

lemma vm_call_ok: "vm_call st st' \<Longrightarrow> regions_ok st \<Longrightarrow> regions_ok st'"
  by (induction rule: vm_call.induct)
    (blast intro: mmap_anon_ok mmap_file_ok mmap_shm_ok resize_ok unmmap_ok fault_ok)+


lemma vm_calls_ok: "vm_call\<^sup>*\<^sup>* st st' \<Longrightarrow> regions_ok st \<Longrightarrow> regions_ok st'"
  by (induction rule: rtranclp_induct) (auto intro: vm_call_ok)

lemma region_lookup:
  assumes ok: "regions_ok st" and p: "has_proc st" "proc_pid st \<noteq> 0"
  shows "procvmm_get_memory_region st a = Some n \<longleftrightarrow>
    n \<in> set (memory_map st) \<and> (\<exists>m. maps st n = Some m \<and> unat a \<in> region m)"
proof -
  let ?P = "\<lambda>n. case maps st n of None \<Rightarrow> False | Some m \<Rightarrow> get_mmap_iter m a"
  have P: "?P k \<longleftrightarrow> (\<exists>m. maps st k = Some m \<and> unat a \<in> region m)" if "k \<in> set (memory_map st)" for k
    using regions_okD(2) [OF ok that] get_mmap_iter_iff by auto
  have f: "procvmm_get_memory_region st a = find ?P (memory_map st)" using p by (simp add: procvmm_get_memory_region_def)
  show ?thesis
  proof
    assume "procvmm_get_memory_region st a = Some n"
    then show "n \<in> set (memory_map st) \<and> (\<exists>m. maps st n = Some m \<and> unat a \<in> region m)"
      using find_SomeD [of ?P "memory_map st" n] P f by auto
  next
    assume n: "n \<in> set (memory_map st) \<and> (\<exists>m. maps st n = Some m \<and> unat a \<in> region m)"
    then have "find ?P (memory_map st) \<noteq> None" using P by (auto simp: find_None_iff)
    then obtain k where k: "find ?P (memory_map st) = Some k" by auto
    then have "k \<in> set (memory_map st)" "\<exists>m. maps st k = Some m \<and> unat a \<in> region m"
      using find_SomeD [of ?P "memory_map st" k] P by auto
    then have "k = n" using n regions_okD(3) [OF ok, of k n] by blast
    then show "procvmm_get_memory_region st a = Some n" using f k by simp
  qed
qed


section \<open>Search for an address\<close>

text \<open>Regions have bytes and end before the last page, so that rounding up an end does not wrap around.\<close>

definition solid :: "vm_st \<Rightarrow> bool" where
  "solid st \<longleftrightarrow> (\<forall>n \<in> set (memory_map st). \<exists>m. maps st n = Some m \<and> mm_size m \<noteq> 0
     \<and> unat (mm_start m) + unat (mm_size m) \<le> 2 ^ 32 - 4096)"

lemma find_step_cases:
  assumes so: "solid st" and c: "unat start + unat sz < 2 ^ 32"
  shows "case find_step st sz start of
      Inl a \<Rightarrow> a = 0 \<or> a = start \<and> (\<forall>n \<in> set (memory_map st). \<forall>m. maps st n = Some m \<longrightarrow>
                 region m \<inter> {unat start..<unat start + unat sz} = {})
    | Inr s \<Rightarrow> unat start < unat s \<and> s < stack_top st"
proof -
  let ?c = "mmap_zero\<lparr>mm_start := start, mm_size := sz\<rparr>"
  have fc: "fits ?c" using c by (simp add: fits_def)
  have rc: "region ?c = {unat start..<unat start + unat sz}" by (simp add: region_def)
  have fm: "fits m" "unat (mm_start m) + unat (mm_size m) \<le> 2 ^ 32 - 4096" "mm_size m \<noteq> 0"
    if "n \<in> set (memory_map st)" "maps st n = Some m" for n m
    using so that by (fastforce simp: solid_def fits_def)+
  show ?thesis
  proof (cases "find_collide st None ?c")
    case None
    have "region m \<inter> region ?c = {}" if "n \<in> set (memory_map st)" "maps st n = Some m" for n m
    proof -
      have "\<not> coll_check_iter False m ?c"
        using None that by (auto simp: find_collide_def find_None_iff split: option.splits)
      then show ?thesis using coll_check_overlap [OF fm(1) [OF that] fc] by blast
    qed
    then show ?thesis using None by (simp add: find_step_def rc)
  next
    case (Some n)
    then obtain m where n: "n \<in> set (memory_map st)" "maps st n = Some m" "coll_check_iter False m ?c"
      using find_SomeD unfolding find_collide_def by (fastforce split: option.splits)
    note f = fm [OF n(1,2)]
    have e: "unat (mm_start m + mm_size m) = unat (mm_start m) + unat (mm_size m)" by (rule fits_end [OF f(1)])
    have "unat start < unat (mm_start m + mm_size m)"
      using n(3) coll_check_overlap [OF f(1) fc] f(3) e by (auto simp: region_def)
    also have "\<dots> \<le> unat (PAGE_ROUND_UP (mm_start m + mm_size m))"
      using unat_round_up [of "mm_start m + mm_size m"] f(2) e by simp
    finally show ?thesis using Some n(2) by (simp add: find_step_def Let_def not_le)
  qed
qed



section \<open>Checking strings of user space\<close>

lemma next_offset: "(a + 1) AND PAGE_ADDR_MASK \<noteq> a AND PAGE_ADDR_MASK" for a :: u32
proof
  assume "(a + 1) AND PAGE_ADDR_MASK = a AND PAGE_ADDR_MASK"
  then have "bit ((a + 1) AND PAGE_ADDR_MASK) 0 \<longleftrightarrow> bit (a AND PAGE_ADDR_MASK) 0" by simp
  moreover have "bit PAGE_ADDR_MASK 0" by (simp add: page_mask bit_simps)
  ultimately show False by (simp add: bit_0 even_and_iff)
qed

text \<open>The offset in the page changes with every byte, so every byte is looked up, the first one if its offset is not that of \<open>lp\<close>.\<close>

lemma check_string_loop_sound:
  assumes "check_string_loop st mem b n (of_nat q) lp = r" "0 < r" "q + n < 2 ^ 31" "lp \<noteq> (b + of_nat q) AND PAGE_ADDR_MASK"
  shows "\<exists>k < n. r = int (q + k + 1) \<and> mem (b + of_nat (q + k)) = 0
    \<and> (\<forall>i \<le> k. procvmm_get_memory_region st (b + of_nat (q + i)) \<noteq> None) \<and> (\<forall>i < k. mem (b + of_nat (q + i)) \<noteq> 0)"
  using assms
proof (induction n arbitrary: q lp)
  case 0
  then show ?case by (simp add: PROCVMM_TOO_LARGE_def)
next
  case (Suc n)
  have reg: "procvmm_get_memory_region st (b + of_nat q) \<noteq> None"
    using Suc.prems(1,2,4) by (auto simp: PROCVMM_INV_MAPPING_def split: if_splits)
  show ?case
  proof (cases "mem (b + of_nat q) = 0")
    case True
    have "sint (of_nat (q + 1) :: u32) = int (q + 1)"
      using Suc.prems(3) by (simp only: signed_of_nat) (simp add: signed_take_bit_int_eq_self)
    then have "sint (of_nat q + 1 :: u32) = int (q + 1)" by (simp add: add.commute)
    then show ?thesis using True reg Suc.prems(1) by (intro exI [of _ 0]) (auto simp: Let_def)
  next
    case False
    have "check_string_loop st mem b n (of_nat (Suc q)) ((b + of_nat q) AND PAGE_ADDR_MASK) = r"
      using Suc.prems(1) False reg by (simp add: Let_def add.commute)
    from Suc.IH [OF this Suc.prems(2)] Suc.prems(3) next_offset [of "b + of_nat q"]
    obtain k where k: "k < n" "r = int (Suc q + k + 1)" "mem (b + of_nat (Suc q + k)) = 0"
        "\<forall>i \<le> k. procvmm_get_memory_region st (b + of_nat (Suc q + i)) \<noteq> None" "\<forall>i < k. mem (b + of_nat (Suc q + i)) \<noteq> 0"
      by (auto simp: ac_simps)
    have split: "(\<forall>i \<le> Suc k. P i) \<longleftrightarrow> P 0 \<and> (\<forall>i \<le> k. P (Suc i))" for P
      using All_less_Suc2 [of "Suc k" P] by (simp add: less_Suc_eq_le)
    show ?thesis using k reg False by (intro exI [of _ "Suc k"]) (simp add: split All_less_Suc2 ac_simps)
  qed
qed


section \<open>Where the code departs from its intent\<close>

text \<open>The check of a string at the second byte of a page does not look at its first byte.\<close>

lemma check_string_skips_first:
  assumes "has_proc st" "proc_pid st \<noteq> 0" "str AND PAGE_ADDR_MASK = 1" "mem str = 0" "0 < size_max"
  shows "procvmm_check_string st mem klen str size_max = 1"
proof -
  obtain n where "unat size_max = Suc n" using assms(5) by (metis unat_gt_0 gr0_implies_Suc word_gt_0)
  then show ?thesis using assms(1-4) by (simp add: procvmm_check_string_def)
qed

text \<open>A region of size 0 at the candidate stops the search for an address: it never returns.\<close>

lemma find_address_stuck:
  assumes "find_step st sz start = Inr start"
  shows "find_loop st sz start = None"
proof (rule ccontr)
  assume "find_loop st sz start \<noteq> None"
  then obtain a where "find_loop st sz start = Some a" by blast
  moreover have "find_loop st' sz' s' = Some a \<Longrightarrow> (st', sz', s') \<noteq> (st, sz, start)" for st' sz' s'
    by (erule find_loop.raw_induct [rotated]) (use assms in \<open>auto split: sum.splits\<close>)
  ultimately show False by blast
qed

lemma empty_region_stuck:
  assumes "memory_map st = [r]" "maps st r = Some (mmap_zero\<lparr>mm_start := heap_max st, mm_size := 0\<rparr>)"
    and "PAGE_ROUND_UP (heap_max st) = heap_max st" "heap_max st < stack_top st" "heap_max st < heap_max st + sz"
  shows "find_address st sz = None"
  unfolding find_address_def
  by (rule find_address_stuck) (use assms in \<open>simp add: find_step_def find_collide_def coll_check_iter_def Let_def not_le\<close>)

text \<open>A child gets the attachments of its parent, and the number of attachments of the segment stays the same.\<close>

lemma fork_keeps_nattch: "mmap_copy_iter st src dst = Inr st' \<Longrightarrow> shm_reg st' = shm_reg st"
  by (auto simp: mmap_copy_iter_def Let_def split: option.splits sum.splits if_splits)

section \<open>Witnesses\<close>

definition vm_example :: vm_st where
  "vm_example =
     \<lparr>shm_reg = \<lparr>objs = \<lambda>_. None, order = [], ctr = 0\<rparr>, bm = bm_example, mmu = mmu_example, inodes = ic_blank,
      i_size = \<lambda>_. 100, i_mode = \<lambda>_. 0, maps = \<lambda>_. None, memory_map = [], has_proc = True, proc_pid = 1, image_end = 0,
      heap_start = 0, heap_end = 0, heap_max = 0x50000000, stack_bottom = 0, stack_top = 0xB0000000\<rparr>"

lemma vm_example_sel:
  "maps vm_example = (\<lambda>_. None)" "memory_map vm_example = []" "has_proc vm_example" "proc_pid vm_example = 1" "bm vm_example = bm_example"
  "mmu vm_example = mmu_example" "i_size vm_example = (\<lambda>_. 100)" "heap_max vm_example = 0x50000000" "stack_top vm_example = 0xB0000000"
  by (simp_all add: vm_example_def)

definition file_region :: process_mmap where
  "file_region =
     \<lparr>mm_start = 0x40000000, mm_size = 0x2000, mm_flags = PROCESS_MMAP_FLAG_FILE, mm_file = 5, mm_fd = 0, mm_offset = 10,
      mm_file_sz = 3, mm_shm = NULL\<rparr>"

definition vm_example_file :: vm_st where
  "vm_example_file = vm_example\<lparr>maps := (\<lambda>_. None)(8 := Some file_region), memory_map := [8]\<rparr>"




lemma example_region: "a \<in> {0x40000000, 0x40000001, 0x40000002, 0x40000003} \<Longrightarrow> procvmm_get_memory_region vm_example_file a = Some 8"
  by (auto simp: procvmm_get_memory_region_def get_mmap_iter_def vm_example_file_def vm_example_sel file_region_def)


end
