(* ===== verification/Demand_Paging.thy ===== *)
theory Demand_Paging
  imports Procvmm
begin

unbundle bit_operations_syntax

text \<open>
  What the regions of a process mean for its pages: resolving a page fault in a region (\<^verbatim>\<open>procvmm_handle_fault\<close>
  in \<^verbatim>\<open>src/kernel/proc/procvmm.c\<close>), and taking the pages of a region away (\<^verbatim>\<open>procvmm_unmmap\<close>). Both are clients
  of the contract \<open>address_space\<close> of the theory \<^verbatim>\<open>Paging\<close>.
\<close>

section \<open>Demand paging\<close>

text \<open>A new frame behind a user page.\<close>

lemma map_fresh:
  assumes ok: "mmu_ok (m, b)" and va: "user_page va" "flag fl PAGING_PAGE_FLAG_USER" and two: "2 \<le> card (avail_addrs b)"
  obtains f b1 m1 b2 where "physmm_alloc_frame b = (f, b1)" "f \<noteq> PHYSMM_NO_FRAME" "f \<in> avail_addrs b" "page_of f = f"
    "paging_map va f fl (m, b1) = Inr (m1, b2)" "mmu_ok (m1, b2)" "f \<notin> frames_used m1" "f \<notin> avail_addrs b2"
    "\<forall>va'. pd va' \<noteq> 0x3FF \<longrightarrow> translate m1 va' = (if page_of va' = page_of va then Some (f OR offset_of va') else translate m va')"
    "insert f (frames_used m1 \<union> avail_addrs b2) = frames_used m \<union> avail_addrs b"
    "\<forall>x. page_of x \<notin> frames_used m1 \<longrightarrow> pmem m1 x = pmem m x"
proof -
  have "avail_addrs b \<noteq> {}" using two by auto
  then obtain f b1 where f: "physmm_alloc_frame b = (f, b1)" "f \<in> avail_addrs b" "avail_addrs b1 = avail_addrs b - {f}"
      "f \<noteq> PHYSMM_NO_FRAME" "page_of f = f" by (rule alloc_frame_avail)
  have ok1: "mmu_ok (m, b1)" using ok f(3) by (auto simp: mmu_ok_def)
  have "card (avail_addrs b1) \<noteq> 0" using f(2,3) two by (simp add: avail_finite)
  then have "avail_addrs b1 \<noteq> {}" by auto
  from vm.map_ok [OF ok1 va, of f] this obtain s1 where s1: "paging_map va f fl (m, b1) = Inr s1" "mmu_ok s1"
      "\<forall>va'. pd va' \<noteq> 0x3FF \<longrightarrow>
         translate (fst s1) va' = (if page_of va' = page_of va then Some (page_of f OR offset_of va') else translate m va')"
      "avail_addrs (snd s1) \<subseteq> avail_addrs b1" "frames_used (fst s1) \<union> avail_addrs (snd s1) = frames_used m \<union> avail_addrs b1"
      "\<forall>x. page_of x \<notin> frames_used (fst s1) \<longrightarrow> pmem (fst s1) x = pmem m x" unfolding fst_conv snd_conv by blast
  have nf: "f \<notin> frames_used m" using mmu_okD(5) [OF ok] f(2) by blast
  show thesis
  proof (rule that [OF f(1,4,2,5), of "fst s1" "snd s1"])
    show "f \<notin> frames_used (fst s1)" "f \<notin> avail_addrs (snd s1)" using s1(4,5) nf f(3) by blast+
    show "insert f (frames_used (fst s1) \<union> avail_addrs (snd s1)) = frames_used m \<union> avail_addrs b"
      using s1(5) f(2,3) by auto
  qed (use s1 f(5) in auto)
qed

text \<open>What a fresh page of a region shows, and whether reading it succeeds.\<close>

definition page_part :: "vm_st \<Rightarrow> process_mmap \<Rightarrow> u32 \<Rightarrow> (u32 \<times> u32) option" where
  "page_part st m in_region = (if flag (mm_flags m) PROCESS_MMAP_FLAG_FILE then fault_read st m in_region else None)"

definition page_bytes :: "read_op \<Rightarrow> vm_st \<Rightarrow> process_mmap \<Rightarrow> u32 \<Rightarrow> nat \<Rightarrow> u8" where
  "page_bytes read_file st m in_region i =
     (case page_part st m in_region of
        None \<Rightarrow> 0
      | Some (off, cnt) \<Rightarrow> let bs = snd (read_file (mm_file m) off cnt) in if i < length bs then bs ! i else 0)"

definition read_ok :: "read_op \<Rightarrow> vm_st \<Rightarrow> process_mmap \<Rightarrow> u32 \<Rightarrow> bool" where
  "read_ok read_file st m in_region \<longleftrightarrow>
     (case page_part st m in_region of
        None \<Rightarrow> True
      | Some (off, cnt) \<Rightarrow> fst (read_file (mm_file m) off cnt) = None \<and> length (snd (read_file (mm_file m) off cnt)) = unat cnt)"

definition file_ok :: "process_mmap \<Rightarrow> bool" where
  "file_ok m \<longleftrightarrow> flag (mm_flags m) PROCESS_MMAP_FLAG_FILE \<longrightarrow> mm_file m \<noteq> NULL"

lemma outside_tables:
  assumes "f \<notin> frames_used m" "\<And>x. page_of x \<noteq> f \<Longrightarrow> q x = pmem m x"
  shows "translate (m\<lparr>pmem := q\<rparr>) = translate m" "frames_used (m\<lparr>pmem := q\<rparr>) = frames_used m"
    "mmu_ok (m, b) \<Longrightarrow> mmu_ok (m\<lparr>pmem := q\<rparr>, b)"
proof -
  have same: "q x = pmem m x" if "page_of x \<in> frames_used m" for x using assms(2) [of x] that assms(1) by blast
  show "translate (m\<lparr>pmem := q\<rparr>) = translate m" by (rule same_tables(1)) (rule same)
  show "frames_used (m\<lparr>pmem := q\<rparr>) = frames_used m" by (rule same_tables(2)) (rule same)
  show "mmu_ok (m\<lparr>pmem := q\<rparr>, b)" if "mmu_ok (m, b)" by (rule same_tables(3) [OF _ that]) (rule same)
qed

lemma fill_page_eq:
  fixes read_file :: read_op and st :: vm_st
  assumes ok: "mmu_ok (m1, b2)" and f: "translate m1 address = Some f" "page_of f = f" "f \<notin> frames_used m1"
    and fo: "file_ok m" and va: "user_page address"
  defines "pm' \<equiv> (\<lambda>x. if page_of x = f then page_bytes read_file st m (address - mm_start m) (unat (offset_of x)) else pmem m1 x)"
  shows "read_ok read_file st m (address - mm_start m) \<Longrightarrow>
      fill_page read_file st m address f (m1, b2) = Inr (True, m1\<lparr>pmem := pm'\<rparr>, b2)"
    "\<not> read_ok read_file st m (address - mm_start m) \<Longrightarrow>
      \<exists>m4. fill_page read_file st m address f (m1, b2) = Inr (False, m4, physmm_free_frame b2 f) \<and> mmu_ok (m4, b2)
        \<and> (\<forall>va'. translate m4 va' = (if page_of va' = page_of address then None else translate m1 va'))
        \<and> frames_used m4 = frames_used m1 \<and> (\<forall>x. page_of x \<notin> insert f (frames_used m1) \<longrightarrow> pmem m4 x = pmem m1 x)"
proof -
  let ?m2 = "m1\<lparr>pmem := clear_page (pmem m1) f\<rparr>"
  have c: "vclear m1 address = Inr ?m2" using f by (simp add: vclear_def clear_page_def)
  have t: "translate (m1\<lparr>pmem := q\<rparr>) = translate m1" "mmu_ok (m1\<lparr>pmem := q\<rparr>, b2)" "frames_used (m1\<lparr>pmem := q\<rparr>) = frames_used m1"
    if "\<And>x. page_of x \<noteq> f \<Longrightarrow> q x = pmem m1 x" for q
    using outside_tables [OF f(3) that] ok by auto
  have w: "vstore_bytes ?m2 address bs = Inr (m1\<lparr>pmem := store_bytes (clear_page (pmem m1) f) f bs\<rparr>)" for bs
    using t(1) [of "clear_page (pmem m1) f"] f by (simp add: vstore_bytes_def clear_page_def)
  have part: "clear_page (pmem m1) f = pm'" if "page_part st m (address - mm_start m) = None"
    using that f(2) by (auto simp: pm'_def clear_page_def page_bytes_def)
  have bytes: "store_bytes (clear_page (pmem m1) f) f bs = pm'"
    if "page_part st m (address - mm_start m) = Some (off, cnt)" "read_file (mm_file m) off cnt = (e, bs)" for off cnt e bs
    using that f(2) by (auto simp: pm'_def clear_page_def page_bytes_def store_bytes_def)
  have none: "fill_page read_file st m address f (m1, b2) = Inr (True, m1\<lparr>pmem := pm'\<rparr>, b2)"
    if "page_part st m (address - mm_start m) = None"
  proof (cases "flag (mm_flags m) PROCESS_MMAP_FLAG_FILE")
    case True
    then show ?thesis using that c part [OF that] fo by (simp add: fill_page_def page_part_def file_ok_def)
  qed (use c part [OF that] in \<open>simp add: fill_page_def\<close>)
  have some: "flag (mm_flags m) PROCESS_MMAP_FLAG_FILE" "fault_read st m (address - mm_start m) = Some (off, cnt)" "0 < mm_file m"
    if "page_part st m (address - mm_start m) = Some (off, cnt)" for off cnt
    using that fo by (auto simp: page_part_def file_ok_def split: if_splits)
  show "fill_page read_file st m address f (m1, b2) = Inr (True, m1\<lparr>pmem := pm'\<rparr>, b2)"
    if rd: "read_ok read_file st m (address - mm_start m)"
  proof (cases "page_part st m (address - mm_start m)")
    case (Some oc)
    obtain off cnt where oc: "oc = (off, cnt)" by (cases oc)
    obtain status bs where r: "read_file (mm_file m) off cnt = (status, bs)" by (cases "read_file (mm_file m) off cnt")
    show ?thesis using rd Some oc r some [of off cnt] c w bytes [of off cnt, OF _ r] by (simp add: fill_page_def read_ok_def)
  qed (rule none)
  assume nr: "\<not> read_ok read_file st m (address - mm_start m)"
  then obtain off cnt where pp: "page_part st m (address - mm_start m) = Some (off, cnt)" by (auto simp: read_ok_def split: option.splits)
  obtain status bs where r: "read_file (mm_file m) off cnt = (status, bs)" by (cases "read_file (mm_file m) off cnt")
  let ?m3 = "m1\<lparr>pmem := store_bytes (clear_page (pmem m1) f) f bs\<rparr>"
  have q: "page_of x \<noteq> f \<Longrightarrow> store_bytes (clear_page (pmem m1) f) f bs x = pmem m1 x" for x
    using f(2) by (simp add: store_bytes_def clear_page_def)
  note t3 = t [OF q]
  have "translate ?m3 address \<noteq> None" using t3(1) f(1) by simp
  then obtain m4 where m4: "paging_unmap address ?m3 = Inr m4" "mmu_ok (m4, b2)"
      "\<And>va'. translate m4 va' = (if page_of va' = page_of address then None else translate ?m3 va')"
      "frames_used m4 = frames_used ?m3" "\<And>x. page_of x \<notin> frames_used ?m3 \<Longrightarrow> pmem m4 x = pmem ?m3 x"
    using paging_unmap_user [OF t3(2) va tr_table] by blast
  have "fill_page read_file st m address f (m1, b2) = Inr (False, m4, physmm_free_frame b2 f)"
    using nr pp r some [OF pp] c w m4(1) by (simp add: fill_page_def read_ok_def)
  then show "\<exists>m4. fill_page read_file st m address f (m1, b2) = Inr (False, m4, physmm_free_frame b2 f) \<and> mmu_ok (m4, b2)
        \<and> (\<forall>va'. translate m4 va' = (if page_of va' = page_of address then None else translate m1 va'))
        \<and> frames_used m4 = frames_used m1 \<and> (\<forall>x. page_of x \<notin> insert f (frames_used m1) \<longrightarrow> pmem m4 x = pmem m1 x)"
    using m4 t3 q by (intro exI [of _ m4]) simp
qed


lemma page_round: "PAGE_ROUND_DOWN va = page_of va"
proof -
  have "NOT PAGE_ADDR_MASK = 0xFFFFF000" by code_simp
  then show ?thesis by (simp add: PAGE_ROUND_DOWN_def)
qed

lemma user_page_of: "user_page (page_of va) \<longleftrightarrow> user_page va"
  using same_page_idx [of "page_of va" va] by (simp add: user_page_def and.assoc)

lemma fault_flags_user: "flag (fault_flags m) PAGING_PAGE_FLAG_USER"
  by (simp add: fault_flags_def flag_def PAGING_PAGE_FLAG_USER_def PAGING_PAGE_FLAG_RW_def)

lemma user_not_window: "user_page va \<Longrightarrow> pd va \<noteq> 0x3FF"
  by (auto simp: user_page_def)

lemma translate_page: "page_of f = f \<Longrightarrow> f OR offset_of (page_of va) = f"
  by (simp add: and.assoc)

lemma fresh_page:
  assumes "mmu_ok (m, b)" "user_page va" "2 \<le> card (avail_addrs b)"
  obtains f b1 m1 b2 where "physmm_alloc_frame b = (f, b1)" "f \<noteq> PHYSMM_NO_FRAME" "f \<in> avail_addrs b" "page_of f = f"
    "paging_map (page_of va) f (fault_flags mm) (m, b1) = Inr (m1, b2)" "mmu_ok (m1, b2)" "f \<notin> frames_used m1" "f \<notin> avail_addrs b2"
    "\<forall>va'. pd va' \<noteq> 0x3FF \<longrightarrow> translate m1 va' = (if page_of va' = page_of va then Some (f OR offset_of va') else translate m va')"
    "insert f (frames_used m1 \<union> avail_addrs b2) = frames_used m \<union> avail_addrs b"
    "\<forall>x. page_of x \<notin> frames_used m1 \<longrightarrow> pmem m1 x = pmem m x" "translate m1 (page_of va) = Some f"
proof -
  have v: "user_page (page_of va)" using assms(2) by (simp add: user_page_of)
  have e: "page_of (page_of va) = page_of va" by (simp add: and.assoc)
  show thesis
    by (rule map_fresh [OF assms(1) v fault_flags_user [of mm] assms(3)], rule that)
      (use user_not_window [OF v] translate_page in \<open>auto simp: e\<close>)
qed




section \<open>Unmapping a region\<close>

definition pages_of :: "u32 \<Rightarrow> u32 \<Rightarrow> u32 set" where
  "pages_of start end = {q. 4096 dvd unat q \<and> start \<le> q \<and> q < end}"

lemma page_aligned: "page_of p = p \<longleftrightarrow> 4096 dvd unat p"
proof -
  have "page_of p = p \<longleftrightarrow> 4096 * (unat p div 4096) = unat p"
    using unat_round_down [of p] by (simp only: page_round word_unat_eq_iff)
  also have "\<dots> \<longleftrightarrow> 4096 dvd unat p" by (metis dvd_mult_div_cancel dvd_triv_left)
  finally show ?thesis .
qed

lemma aligned_offset: "offset_of p = 0 \<longleftrightarrow> 4096 dvd unat p"
proof -
  have "page_of p OR offset_of p = p" by (rule bit_word_eqI) (auto simp: bit_or_iff page_bits)
  moreover have "offset_of (page_of p) = 0" by (simp add: and.assoc)
  ultimately have "offset_of p = 0 \<longleftrightarrow> page_of p = p" by (metis or.right_neutral)
  then show ?thesis unfolding page_aligned .
qed

lemma user_page_less: "user_page q \<Longrightarrow> unat q < 0xC0000000"
proof -
  assume "user_page q"
  moreover have "pd q = drop_bit 22 q"
    by (rule bit_word_eqI) (auto simp: idx_bits bit_drop_bit_eq dest: word_bound)
  ultimately have "drop_bit 22 q < 0x300" by (simp add: user_page_def)
  then have "unat (drop_bit 22 q) < 0x300" by (simp add: word_less_nat_alt)
  then show "unat q < 0xC0000000" by (simp add: drop_bit_eq_div unat_div)
qed

lemma pages_of_step:
  assumes p: "4096 dvd unat p" "p < end" "unat p < 0xC0000000"
  shows "pages_of p end = insert p (pages_of (p + PAGE_SIZE) end)" "p \<notin> pages_of (p + PAGE_SIZE) end"
    "4096 dvd unat (p + PAGE_SIZE)" "unat (p + PAGE_SIZE) = unat p + 4096"
proof -
  show s: "unat (p + PAGE_SIZE) = unat p + 4096"
    using p(3) by (simp add: unat_word_ariths PAGE_SIZE_def)
  then show "4096 dvd unat (p + PAGE_SIZE)" using p(1) by simp
  show "p \<notin> pages_of (p + PAGE_SIZE) end" using s by (simp add: pages_of_def word_le_nat_alt)
  have next_page: "q = p \<or> p + PAGE_SIZE \<le> q" if q: "4096 dvd unat q" "p \<le> q" for q
  proof (rule ccontr)
    assume "\<not> ?thesis"
    then have "unat q < unat p + 4096" "unat q \<noteq> unat p" using s by (auto simp: word_le_nat_alt word_unat_eq_iff)
    moreover have "unat p \<le> unat q" using q by (simp add: word_le_nat_alt)
    moreover obtain i j where "unat p = 4096 * i" "unat q = 4096 * j" using p(1) q(1) by (auto simp: dvd_def)
    ultimately show False by simp
  qed
  have below: "p + PAGE_SIZE \<le> q \<Longrightarrow> p \<le> q" for q using s by (simp add: word_le_nat_alt)
  show "pages_of p end = insert p (pages_of (p + PAGE_SIZE) end)"
  proof (rule set_eqI)
    fix q
    show "q \<in> pages_of p end \<longleftrightarrow> q \<in> insert p (pages_of (p + PAGE_SIZE) end)"
      using next_page [of q] below [of q] p(1,2) by (auto simp: pages_of_def)
  qed
qed

context address_space
begin

text \<open>
  The loop over the pages of a region: it ends, no page of the region is translated any more, every other address is as
  before, and the frames behind the pages are free unless they belong to a shared memory object.
\<close>

lemma unmap_loop:
  assumes "ok s" "4096 dvd unat p" "\<forall>q \<in> pages_of p end. user_page q \<and> unat q < 0xC0000000"
    and "\<forall>q \<in> pages_of p end. \<forall>pa. tr s q = Some pa \<longrightarrow> pa \<noteq> 0 \<and> pa \<notin> reserved s \<and> 4096 dvd unat pa"
  shows "\<exists>s'. page_loop (unmap_step phys unmap_page free shm end) p s = Some (Inr s') \<and> ok s' \<and> reserved s' = reserved s
    \<and> (\<forall>va. tr s' va = (if page_of va \<in> pages_of p end then None else tr s va))
    \<and> avail s' = avail s \<union> (if shm then {} else {pa. \<exists>q \<in> pages_of p end. tr s q = Some pa})
    \<and> (\<forall>x. page_of x \<notin> reserved s \<longrightarrow> mem s' x = mem s x)"
  using assms
proof (induction "unat end - unat p" arbitrary: p s rule: less_induct)
  case less
  let ?loop = "page_loop (unmap_step phys unmap_page free shm end)"
  show ?case
  proof (cases "p < end")
    case False
    then have "pages_of p end = {}" by (auto simp: pages_of_def)
    then show ?thesis using False less.prems(1) by (subst page_loop.simps) (simp add: unmap_step_def)
  next
    case True
    then have "p \<in> pages_of p end" using less.prems(2) by (simp add: pages_of_def)
    with less.prems(3,4) have p: "user_page p \<and> unat p < 0xC0000000"
      and fr: "tr s p = Some pa \<Longrightarrow> pa \<noteq> 0 \<and> pa \<notin> reserved s \<and> 4096 dvd unat pa" for pa by blast+
    note st = pages_of_step [OF less.prems(2) True conjunct2 [OF p]]
    have pp: "page_of p = p" using less.prems(2) by (simp add: page_aligned)
    have "\<exists>s1. unmap_step phys unmap_page free shm end p s = Inr s1 \<and> ok s1 \<and> reserved s1 = reserved s
      \<and> (\<forall>va. tr s1 va = (if page_of va = p then None else tr s va))
      \<and> avail s1 = avail s \<union> (if shm then {} else {pa. tr s p = Some pa})
      \<and> (\<forall>x. page_of x \<notin> reserved s \<longrightarrow> mem s1 x = mem s x)"
    proof (cases "tr s p")
      case None
      then have "unmap_step phys unmap_page free shm end p s = Inr s"
        using True phys_ok [OF less.prems(1), of p] by (simp add: unmap_step_def)
      moreover have "tr s va = None" if "page_of va = p" for va using None that tr_page [of va p s] pp by simp
      ultimately show ?thesis using None less.prems(1) by (intro exI [of _ s]) simp
    next
      case (Some pa)
      note f = fr [OF Some]
      define s0 where "s0 = (if shm then s else free s pa)"
      have s0: "ok s0" "tr s0 = tr s" "reserved s0 = reserved s" "mem s0 = mem s"
          "avail s0 = avail s \<union> (if shm then {} else {pa. tr s p = Some pa})"
        using free_ok [OF less.prems(1), of pa] f less.prems(1) Some by (auto simp: s0_def)
      have "tr s0 p \<noteq> None" using Some s0(2) by simp
      from unmap_ok [OF s0(1) conjunct1 [OF p] this] obtain s1 where s1: "unmap_page p s0 = Inr s1" "ok s1"
          "\<forall>va'. tr s1 va' = (if page_of va' = page_of p then None else tr s va')"
          "avail s1 = avail s0" "reserved s1 = reserved s" "\<forall>x. page_of x \<notin> reserved s \<longrightarrow> mem s1 x = mem s x"
        unfolding s0(2-4) by blast
      have "unmap_step phys unmap_page free shm end p s = Inr s1"
        using True phys_ok [OF less.prems(1), of p] Some f s1(1) by (simp add: unmap_step_def s0_def)
      moreover have "avail s1 = avail s \<union> (if shm then {} else {pa. tr s p = Some pa})" using s1(4) s0(5) by simp
      ultimately show ?thesis using s1(2,3,5,6) unfolding pp by blast
    qed
    then obtain s1 where s1: "unmap_step phys unmap_page free shm end p s = Inr s1" "ok s1" "reserved s1 = reserved s"
        "\<forall>va. tr s1 va = (if page_of va = p then None else tr s va)"
        "avail s1 = avail s \<union> (if shm then {} else {pa. tr s p = Some pa})"
        "\<forall>x. page_of x \<notin> reserved s \<longrightarrow> mem s1 x = mem s x" by blast
    have t: "tr s1 q = tr s q" if "q \<in> pages_of (p + PAGE_SIZE) end" for q
      using s1(4) that st(2) page_aligned [of q] by (auto simp: pages_of_def)
    have later: "\<forall>q \<in> pages_of (p + PAGE_SIZE) end. user_page q \<and> unat q < 0xC0000000"
        "\<forall>q \<in> pages_of (p + PAGE_SIZE) end. \<forall>pa. tr s1 q = Some pa \<longrightarrow> pa \<noteq> 0 \<and> pa \<notin> reserved s1 \<and> 4096 dvd unat pa"
      using less.prems(3,4) t unfolding st(1) s1(3) by simp_all
    have "unat end - unat (p + PAGE_SIZE) < unat end - unat p" using st(4) True by (simp add: word_less_nat_alt)
    from less.hyps [OF this s1(2) st(3) later]
    obtain s' where s': "?loop (p + PAGE_SIZE) s1 = Some (Inr s')" "ok s'" "reserved s' = reserved s"
        "\<forall>va. tr s' va = (if page_of va \<in> pages_of (p + PAGE_SIZE) end then None else tr s1 va)"
        "avail s' = avail s1 \<union> (if shm then {} else {pa. \<exists>q \<in> pages_of (p + PAGE_SIZE) end. tr s1 q = Some pa})"
        "\<forall>x. page_of x \<notin> reserved s \<longrightarrow> mem s' x = mem s1 x" unfolding s1(3) by blast
    have "{pa. \<exists>q \<in> pages_of (p + PAGE_SIZE) end. tr s1 q = Some pa} = {pa. \<exists>q \<in> pages_of (p + PAGE_SIZE) end. tr s q = Some pa}"
      using t by auto
    then have "avail s' = avail s \<union> (if shm then {} else {pa. \<exists>q \<in> pages_of p end. tr s q = Some pa})"
      unfolding s'(5) s1(5) st(1) by (simp add: Collect_disj_eq Un_assoc)
    moreover have "tr s' va = (if page_of va \<in> pages_of p end then None else tr s va)" for va
      using s'(4) s1(4) unfolding st(1) by simp
    moreover have "page_of x \<notin> reserved s \<Longrightarrow> mem s' x = mem s x" for x using s'(6) s1(6) by simp
    moreover have "?loop p s = Some (Inr s')" using s1(1) s'(1) by (subst page_loop.simps) simp
    ultimately show ?thesis using s'(2,3) by blast
  qed
qed

end



section \<open>Witnesses\<close>

lemma example_file:
  "procvmm_get_memory_region vm_example_file 0x40000010 = Some 8" "maps vm_example_file 8 = Some file_region"
  "\<not> flag (mm_flags file_region) PROCESS_MMAP_FLAG_DEVICE" "\<not> flag (mm_flags file_region) PROCESS_MMAP_FLAG_SHM" "file_ok file_region"
  "mmu_ok (space vm_example_file)" "card (avail_addrs (bm vm_example_file)) = 2" "user_page 0x40000010"
  "PAGE_ROUND_DOWN 0x40000010 - mm_start file_region = 0"
  "page_part vm_example_file file_region 0 = Some (10, 3)" "translate (mmu vm_example_file) 0x40000010 = None"
proof -
  show "user_page 0x40000010" by (simp add: user_page_def I386_ADDR_TO_PD_IDX_def drop_bit_eq_div)
  show "mmu_ok (space vm_example_file)" using mmu_example_ok by (simp add: vm_example_file_def vm_example_sel)
  show "translate (mmu vm_example_file) 0x40000010 = None"
    by (simp add: vm_example_file_def vm_example_sel translate_eq mmu_example_pde idx_less I386_ADDR_TO_PD_IDX_def drop_bit_eq_div flag_def)
qed (simp_all add: procvmm_get_memory_region_def get_mmap_iter_def vm_example_file_def vm_example_sel file_region_def flag_def
       PROCESS_MMAP_FLAG_DEVICE_def PROCESS_MMAP_FLAG_SHM_def PROCESS_MMAP_FLAG_FILE_def file_ok_def bm_example_avail page_round
       page_part_def fault_read_def PAGE_SIZE_def)



lemma example_pages:
  "pages_of 0x40000000 0x40002000 = {0x40000000, 0x40001000}" "user_page 0x40000000" "user_page 0x40001000"
  "translate mmu_example 0x40001000 = None" "pd 0x40001000 \<noteq> 0x3FF"
proof -
  have "pages_of 0x40000000 0x40002000 = insert 0x40000000 (insert 0x40001000 (pages_of 0x40002000 0x40002000))"
    using pages_of_step(1) [of "0x40000000" "0x40002000"] pages_of_step(1) [of "0x40001000" "0x40002000"]
    by (simp add: PAGE_SIZE_def)
  moreover have "pages_of 0x40002000 0x40002000 = {}" by (auto simp: pages_of_def)
  ultimately show "pages_of 0x40000000 0x40002000 = {0x40000000, 0x40001000}" by simp
qed (simp_all add: user_page_def I386_ADDR_TO_PD_IDX_def drop_bit_eq_div translate_eq mmu_example_pde flag_def)


end
