(* ===== verification/Dcache.thy ===== *)
theory Dcache
  imports Icache Perms Pipe
begin

text \<open>
  Directory cache entries (\<^verbatim>\<open>src/kernel/vfs/dcache.c\<close>) and the lookup of inodes behind them
  (\<^verbatim>\<open>vfs_get_inode\<close> and \<^verbatim>\<open>vfs_effective_inode\<close> of \<^verbatim>\<open>src/kernel/vfs.c\<close>).  An entry holds a reference to its
  parent and one to its inode.  The theory shows that the references that the clients hold and those of the
  entries account for every count, so releasing an entry frees exactly the entries nobody needs any more.
\<close>

section \<open>State\<close>

text \<open>The fields of an inode that the inode cache does not use.\<close>

record fnode = inode_perm +
  f_size :: u32
  f_if_dev :: u16
  f_fifo :: addr
  f_mount :: addr
  f_lock :: semaphore
  f_open_count :: u32
  f_nlink :: u16
  f_atime :: u64
  f_mtime :: u64
  f_ctime :: u64

record dir_cache =
  dc_parent :: addr
  dc_inode :: addr
  dc_usage :: u32

record fs_st =
  inos :: icache_st
  fnodes :: "addr \<Rightarrow> fnode"
  dircs :: "addr \<Rightarrow> dir_cache option"
  pipes :: "addr \<Rightarrow> pipe_info option"

text \<open>
  What a call gets from the rest of the kernel: the identity and the directories of the calling process, the time,
  the callbacks of the file system driver of each device (which may be absent), and the results of allocations in a
  given state: of an entry, of a buffer with some content, of a pipe.
\<close>

record vfs_env =
  e_creds :: creds
  e_root :: addr
  e_cwd :: addr
  e_time :: u64
  e_store :: store_op
  op_load_inode :: "u32 \<Rightarrow> (u32 \<Rightarrow> fs_st \<Rightarrow> errno + addr \<times> fnode) option"
  op_find_dirent :: "u32 \<Rightarrow> (fs_st \<Rightarrow> addr \<Rightarrow> string \<Rightarrow> errno + u32) option"
  op_read_inode :: "u32 \<Rightarrow> (fs_st \<Rightarrow> addr \<Rightarrow> u32 \<Rightarrow> u32 \<Rightarrow> errno option \<times> string) option"
  e_alloc :: "fs_st \<Rightarrow> addr option"
  e_buf :: "nat \<Rightarrow> fs_st \<Rightarrow> string option"
  e_pipe :: "fs_st \<Rightarrow> (addr \<times> pipe_info) option"

section \<open>Inodes\<close>

text \<open>A driver call and its effect on the table of inodes: the inode is loaded at the address that the driver allocates.\<close>

definition load_node :: "fs_st \<Rightarrow> addr \<Rightarrow> fnode \<Rightarrow> u32 \<Rightarrow> u32 \<Rightarrow> fs_st" where
  "load_node st e f n d = st\<lparr>inos := load_inode (inos st) e n d, fnodes := (fnodes st)(e := f)\<rparr>"

definition ifs_load_inode :: "vfs_env \<Rightarrow> u32 \<Rightarrow> u32 \<Rightarrow> fs_st \<Rightarrow> errno + addr \<times> fnode" where
  "ifs_load_inode env dev n st = (case op_load_inode env dev of None \<Rightarrow> Inl ENOTSUP | Some load_op \<Rightarrow> load_op n st)"

definition vfs_get_inode :: "vfs_env \<Rightarrow> u32 \<Rightarrow> u32 \<Rightarrow> fs_st \<Rightarrow> ((errno + addr) \<times> fs_st) exec option" where
  "vfs_get_inode env dev inode_id st =
     xbind (vfs_get_cached_inode (inos st) dev inode_id) (\<lambda>(result, ic).
       if result \<noteq> NULL then Some (Inr (Inr result, st\<lparr>inos := ic\<rparr>))
       else case ifs_load_inode env dev inode_id (st\<lparr>inos := ic\<rparr>) of
              Inl status \<Rightarrow> Some (Inr (Inl status, st\<lparr>inos := ic\<rparr>))
            | Inr (e, f) \<Rightarrow>
                let st1 = load_node (st\<lparr>inos := ic\<rparr>) e f inode_id dev in
                xbind (if S_ISFIFO (i_mode f)
                       then case e_pipe env st1 of
                              None \<Rightarrow> Some (Inl Assert_Failed)
                            | Some (p, pipe) \<Rightarrow>
                                Some (Inr (st1\<lparr>fnodes := (fnodes st1)(e := f\<lparr>f_fifo := p\<rparr>), pipes := (pipes st1)(p \<mapsto> pipe)\<rparr>))
                       else Some (Inr st1)) (\<lambda>st2.
                xbind (Some (vfs_inode_cache (e_store env) (inos st2) e)) (\<lambda>ic2.
                xbind (Some (vfs_inode_ref ic2 e)) (\<lambda>(r, ic3).
                  Some (Inr (Inr r, st2\<lparr>inos := ic3\<rparr>))))))"

definition vfs_effective_inode :: "addr \<Rightarrow> fs_st \<Rightarrow> (addr \<times> fs_st) exec" where
  "vfs_effective_inode inode st =
     (if inode = NULL then Inr (NULL, st)
      else if inode \<notin> live (inos st) then Inl Use_After_Free
      else let target = (if f_mount (fnodes st inode) \<noteq> NULL then f_mount (fnodes st inode) else inode) in
           case vfs_inode_ref (inos st) target of
             Inl f \<Rightarrow> Inl f
           | Inr (r, ic) \<Rightarrow> Inr (r, st\<lparr>inos := ic\<rparr>))"

section \<open>Entries\<close>

definition vfs_dir_cache_mkroot :: "addr option \<Rightarrow> addr \<Rightarrow> fs_st \<Rightarrow> (addr \<times> fs_st) exec" where
  "vfs_dir_cache_mkroot new root_inode st =
     (case new of
        None \<Rightarrow> Inl Assert_Failed
      | Some d \<Rightarrow>
          (case vfs_inode_ref (inos st) root_inode of
             Inl f \<Rightarrow> Inl f
           | Inr (i, ic) \<Rightarrow>
               Inr (d, st\<lparr>inos := ic, dircs := (dircs st)(d \<mapsto> \<lparr>dc_parent = d, dc_inode = i, dc_usage = 1\<rparr>)\<rparr>)))"

partial_function (option) vfs_dir_cache_release :: "store_op \<Rightarrow> addr \<Rightarrow> fs_st \<Rightarrow> fs_st exec option" where
  "vfs_dir_cache_release drv dirc st =
     (if dirc = NULL then Some (Inl Assert_Failed)
      else case dircs st dirc of
             None \<Rightarrow> Some (Inl Use_After_Free)
           | Some d \<Rightarrow>
               let u = (if dc_usage d \<noteq> 0 then dc_usage d - 1 else dc_usage d);
                   st1 = st\<lparr>dircs := (dircs st)(dirc \<mapsto> d\<lparr>dc_usage := u\<rparr>)\<rparr> in
               if u \<noteq> 0 then Some (Inr st1)
               else Option.bind (if dc_parent d \<noteq> dirc then vfs_dir_cache_release drv (dc_parent d) st1 else Some (Inr st1)) (\<lambda>r.
                      case r of
                        Inl f \<Rightarrow> Some (Inl f)
                      | Inr st2 \<Rightarrow>
                          (case vfs_inode_release drv (inos st2) (dc_inode d) of
                             Inl f \<Rightarrow> Some (Inl f)
                           | Inr ic \<Rightarrow> Some (Inr (st2\<lparr>inos := ic, dircs := (dircs st2)(dirc := None)\<rparr>)))))"

definition vfs_dir_cache_ref :: "addr \<Rightarrow> fs_st \<Rightarrow> (addr \<times> fs_st) exec" where
  "vfs_dir_cache_ref dirc st =
     (if dirc = NULL then Inl Assert_Failed
      else case dircs st dirc of
             None \<Rightarrow> Inl Use_After_Free
           | Some d \<Rightarrow> Inr (dirc, st\<lparr>dircs := (dircs st)(dirc \<mapsto> d\<lparr>dc_usage := dc_usage d + 1\<rparr>)\<rparr>))"

text \<open>The inode of an entry.\<close>

definition dirc_inode :: "addr \<Rightarrow> fs_st \<Rightarrow> addr exec" where
  "dirc_inode dirc st = (case dircs st dirc of None \<Rightarrow> Inl Use_After_Free | Some d \<Rightarrow> Inr (dc_inode d))"

definition vfs_dir_cache_new :: "vfs_env \<Rightarrow> addr \<Rightarrow> u32 \<Rightarrow> fs_st \<Rightarrow> ((errno + addr) \<times> fs_st) exec option" where
  "vfs_dir_cache_new env par inode_id st =
     (if par = NULL then Some (Inl Assert_Failed)
      else case e_alloc env st of
             None \<Rightarrow> Some (Inr (Inl ENOMEM, st))
           | Some d \<Rightarrow>
               xbind (Some (vfs_dir_cache_ref par st)) (\<lambda>(p, st1).
               xbind (Some (dirc_inode par st1)) (\<lambda>i.
               xbind (vfs_get_inode env (device_id (inos st1) i) inode_id st1) (\<lambda>(r, st2).
                 case r of
                   Inl status \<Rightarrow>
                     xbind (vfs_dir_cache_release (e_store env) par st2) (\<lambda>st3. Some (Inr (Inl status, st3)))
                 | Inr oi \<Rightarrow>
                     xbind (Some (vfs_effective_inode oi st2)) (\<lambda>(i', st3).
                       if i' = NULL then Some (Inl Assert_Failed)
                       else xbind (Some (vfs_inode_release (e_store env) (inos st3) oi)) (\<lambda>ic.
                              Some (Inr (Inr d, st3\<lparr>inos := ic,
                                dircs := (dircs st3)(d \<mapsto> \<lparr>dc_parent = p, dc_inode = i', dc_usage = 1\<rparr>)\<rparr>))))))))"


section \<open>References to inodes\<close>

text \<open>
  A store of objects with counted references, as its clients see it: \<open>r\<close> is the number of references they hold to
  each object.
\<close>

locale ref_store =
  fixes ok :: "'s \<Rightarrow> (addr \<Rightarrow> nat) \<Rightarrow> bool" and take_ref :: "'s \<Rightarrow> addr \<Rightarrow> (addr \<times> 's) exec" and drop_ref :: "'s \<Rightarrow> addr \<Rightarrow> 's exec"
  assumes take_ok: "ok s r \<Longrightarrow> 0 < r e \<Longrightarrow> r e < 2 ^ 32 - 1 \<Longrightarrow> \<exists>s'. take_ref s e = Inr (e, s') \<and> ok s' (r(e := r e + 1))"
    and drop_ok: "ok s r \<Longrightarrow> 0 < r e \<Longrightarrow> \<exists>s'. drop_ref s e = Inr s' \<and> ok s' (r(e := r e - 1))"
begin

lemma take_drop:
  assumes "ok s r" "0 < r e" "r e < 2 ^ 32 - 1"
  shows "\<exists>s' s''. take_ref s e = Inr (e, s') \<and> drop_ref s' e = Inr s'' \<and> ok s'' r"
proof -
  obtain s' where s': "take_ref s e = Inr (e, s')" "ok s' (r(e := r e + 1))" using take_ok [OF assms] by blast
  then show ?thesis using drop_ok [OF s'(2), of e] by auto
qed

end

lemma client_refD:
  assumes "client_inv (ic, r)"
  obtains os es where "icache_inv ic os es" "\<And>e. r e = (if e \<in> set os then unat (usage_count ic e) else 0)"
  using assms by (auto simp: client_inv_def)

interpretation ino: ref_store "\<lambda>ic r. client_inv (ic, r)" vfs_inode_ref "vfs_inode_release drv" for drv
proof
  fix ic r e
  assume h: "client_inv (ic, r)" "0 < r e" "r e < 2 ^ 32 - 1"
  from h(1) obtain os es where i: "icache_inv ic os es" "\<And>e. r e = (if e \<in> set os then unat (usage_count ic e) else 0)"
    by (rule client_refD) blast
  then have e: "e \<in> set os \<union> set es" "usage_count ic e + 1 \<noteq> 0"
    using h(2,3) unat_incr [of "usage_count ic e"] by (auto split: if_splits)
  then show "\<exists>s'. vfs_inode_ref ic e = Inr (e, s') \<and> client_inv (s', r(e := r e + 1))"
    using vfs_inode_ref_inv [OF i(1) e] ref_client_inv [OF i e(1) h(3)] by blast
next
  fix ic r e
  assume h: "client_inv (ic, r)" "0 < r e"
  from h(1) obtain os es where i: "icache_inv ic os es" "\<And>e. r e = (if e \<in> set os then unat (usage_count ic e) else 0)"
    by (rule client_refD) blast
  then have "e \<in> set os" using h(2) by (auto split: if_splits)
  then obtain s' where s': "vfs_inode_release drv ic e = Inr s'" using vfs_inode_release_inv [OF i(1), of e drv] by blast
  then show "\<exists>s'. vfs_inode_release drv ic e = Inr s' \<and> client_inv (s', r(e := r e - 1))"
    using client_step_inv [OF client_step.release h(1)] h(2) by blast
qed

lemma referenced_live: "client_inv (ic, r) \<Longrightarrow> 0 < r e \<Longrightarrow> e \<in> live ic \<and> e \<noteq> NULL"
proof (elim client_refD)
  fix os es
  assume h: "0 < r e" "icache_inv ic os es" "\<And>e. r e = (if e \<in> set os then unat (usage_count ic e) else 0)"
  then have "e \<in> set os" by (auto split: if_splits)
  then show "e \<in> live ic \<and> e \<noteq> NULL" using h(2) icache_inv_rep(4) [OF h(2)] by (auto simp: icache_inv_def)
qed

section \<open>Identity of inodes\<close>

text \<open>No operation on the cache changes the number or the device of an inode, and none but a load brings one to life.\<close>

definition same_keys :: "icache_st \<Rightarrow> icache_st \<Rightarrow> bool" where
  "same_keys ic ic' \<longleftrightarrow> ino_key ic' = ino_key ic \<and> live ic' \<subseteq> live ic"

lemma same_keys_trans: "same_keys a b \<Longrightarrow> same_keys b c \<Longrightarrow> same_keys a c"
  by (auto simp: same_keys_def)

lemma key_links [simp]: "ino_key (ic\<lparr>links := h\<rparr>) = ino_key ic"
  by (simp add: ino_key_def fun_eq_iff)

lemma more_keys: "mruc_st.more ic' = mruc_st.more ic \<Longrightarrow> same_keys ic ic'"
  using same_more [of ic' ic] by (auto simp: same_keys_def ino_key_def)

lemma mruc_remove_more: "mruc_remove st e = Inr st' \<Longrightarrow> mruc_st.more st' = mruc_st.more st"
  by (auto simp: mruc_remove_def Let_def split: if_splits sum.splits)

lemma mruc_link_more: "mruc_link st c e h = Inr st' \<Longrightarrow> mruc_st.more st' = mruc_st.more st"
  by (auto simp: mruc_link_def Let_def split: if_splits sum.splits)

lemma evict_keys: "vfs_icache_evict drv ic e = Inr ic' \<Longrightarrow> same_keys ic ic'"
proof -
  assume h: "vfs_icache_evict drv ic e = Inr ic'"
  then obtain ic1 where 1: "mruc_remove ic e = Inr ic1" by (auto simp: vfs_icache_evict_def split: sum.splits)
  moreover have "same_keys ic1 ic'" using h 1
    by (auto simp: vfs_icache_evict_def ifs_store_inode_def same_keys_def ino_key_def split: if_splits option.splits)
  ultimately show ?thesis using more_keys [OF mruc_remove_more] same_keys_trans by blast
qed

lemma mruc_add_keys: "mruc_add (vfs_icache_evict drv) ic c e h = Inr ic' \<Longrightarrow> same_keys ic ic'"
  using more_keys [OF mruc_link_more] evict_keys same_keys_trans unfolding mruc_add_def by (auto split: if_splits sum.splits) blast+

lemma cache_op_keys:
  "vfs_inode_ref ic e = Inr (x, ic') \<Longrightarrow> same_keys ic ic'"
  "vfs_inode_release drv ic e = Inr ic' \<Longrightarrow> same_keys ic ic'"
  "vfs_inode_cache drv ic e = Inr ic' \<Longrightarrow> same_keys ic ic'"
proof -
  show "same_keys ic ic'" if r: "vfs_inode_ref ic e = Inr (x, ic')"
  proof (cases "usage_count ic e = 0")
    case True
    then obtain ic1 where "mruc_remove ic e = Inr ic1" using r by (auto simp: vfs_inode_ref_def split: if_splits sum.splits)
    with r True more_keys [OF mruc_remove_more [OF this]] show ?thesis
      by (auto simp: vfs_inode_ref_def same_keys_def ino_key_def split: if_splits sum.splits)
  qed (use r in \<open>auto simp: vfs_inode_ref_def same_keys_def ino_key_def split: if_splits\<close>)
  show "same_keys ic ic'" if "vfs_inode_release drv ic e = Inr ic'"
    using that by (auto simp: vfs_inode_release_def Let_def same_keys_def ino_key_def dest!: mruc_add_keys split: if_splits sum.splits)
  show "same_keys ic ic'" if "vfs_inode_cache drv ic e = Inr ic'"
    using that mruc_add_keys by (auto simp: vfs_inode_cache_def split: if_splits)
qed

section \<open>References between entries\<close>

text \<open>
  \<open>dr\<close> and \<open>ir\<close> are the references of the clients to entries and to inodes.  \<open>Z\<close> are entries about to be freed: they have
  given up their parent and nobody refers to them.  \<open>rank\<close> orders the entries along the parents.
\<close>

definition kids :: "fs_st \<Rightarrow> addr set \<Rightarrow> addr \<Rightarrow> addr set" where
  "kids st Z d = {c. c \<noteq> d \<and> c \<notin> Z \<and> (\<exists>x. dircs st c = Some x \<and> dc_parent x = d)}"

definition users :: "fs_st \<Rightarrow> addr \<Rightarrow> addr set" where
  "users st e = {c. \<exists>x. dircs st c = Some x \<and> dc_inode x = e}"

definition entry_ok :: "(addr \<Rightarrow> nat) \<Rightarrow> addr set \<Rightarrow> fs_st \<Rightarrow> (addr \<Rightarrow> nat) \<Rightarrow> addr \<Rightarrow> dir_cache \<Rightarrow> bool" where
  "entry_ok rank Z st dr d x \<longleftrightarrow>
     unat (dc_usage x) = dr d + card (kids st Z d) \<and> dc_usage x \<noteq> 0 \<and> dc_parent x \<in> dom (dircs st) - Z \<and>
     (dc_parent x = d \<or> rank (dc_parent x) < rank d)"

definition dc_inv :: "(addr \<Rightarrow> nat) \<Rightarrow> addr set \<Rightarrow> fs_st \<Rightarrow> (addr \<Rightarrow> nat) \<Rightarrow> (addr \<Rightarrow> nat) \<Rightarrow> bool" where
  "dc_inv rank Z st dr ir \<longleftrightarrow>
     finite (dom (dircs st)) \<and> dircs st NULL = None \<and> client_inv (inos st, \<lambda>e. ir e + card (users st e)) \<and>
     (\<forall>d x. dircs st d = Some x \<longrightarrow> d \<notin> Z \<longrightarrow> entry_ok rank Z st dr d x) \<and>
     (\<forall>d. dircs st d = None \<or> d \<in> Z \<longrightarrow> dr d = 0)"

lemma dc_invD:
  assumes "dc_inv rank Z st dr ir"
  shows "finite (dom (dircs st))" "dircs st NULL = None" "client_inv (inos st, \<lambda>e. ir e + card (users st e))"
    "dircs st d = Some x \<Longrightarrow> d \<notin> Z \<Longrightarrow> entry_ok rank Z st dr d x"
    "0 < dr d \<Longrightarrow> d \<notin> Z \<and> (\<exists>x. dircs st d = Some x)"
  using assms unfolding dc_inv_def by (blast, blast, blast, blast, (metis less_irrefl not_None_eq))

lemma finite_kids:
  assumes "finite (dom (dircs st))"
  shows "finite (kids st Z d)" "finite (users st e)"
  by (rule finite_subset [OF _ assms], force simp: kids_def users_def)+

lemma dirc_not_null: "dc_inv rank Z st dr ir \<Longrightarrow> dircs st d = Some x \<Longrightarrow> d \<noteq> NULL"
  using dc_invD(2) by (cases "d = NULL") auto

text \<open>Changing the count of an entry changes no edge.\<close>

lemma usage_edges:
  assumes "dircs st d = Some x"
  shows "kids (st\<lparr>dircs := (dircs st)(d \<mapsto> x\<lparr>dc_usage := u\<rparr>)\<rparr>) Z c = kids st Z c"
    "users (st\<lparr>dircs := (dircs st)(d \<mapsto> x\<lparr>dc_usage := u\<rparr>)\<rparr>) e = users st e"
    "dom (dircs (st\<lparr>dircs := (dircs st)(d \<mapsto> x\<lparr>dc_usage := u\<rparr>)\<rparr>)) = dom (dircs st)"
  using assms by (auto simp: kids_def users_def)

lemma inos_edges [simp]:
  "kids (st\<lparr>inos := ic\<rparr>) Z c = kids st Z c" "users (st\<lparr>inos := ic\<rparr>) e = users st e"
  "entry_ok rank Z (st\<lparr>inos := ic\<rparr>) dr d x = entry_ok rank Z st dr d x"
  by (simp_all add: kids_def users_def entry_ok_def)


lemma dc_inv_usage:
  assumes i: "dc_inv rank Z st dr ir" and d: "dircs st d = Some x" "d \<notin> Z" and u: "u \<noteq> 0" "unat u = n + card (kids st Z d)"
  shows "dc_inv rank Z (st\<lparr>dircs := (dircs st)(d \<mapsto> x\<lparr>dc_usage := u\<rparr>)\<rparr>) (dr(d := n)) ir"
  using i d u dirc_not_null [OF i d(1)] unfolding dc_inv_def entry_ok_def usage_edges [OF d(1)] by auto

text \<open>An entry of which the last reference goes away: it stays behind without its parent, whose reference the client takes over.\<close>

lemma dc_inv_zombie:
  assumes i: "dc_inv rank Z st dr ir" and d: "dircs st d = Some x" "dr d = 1" "kids st Z d = {}" "d \<notin> Z"
  defines "st1 \<equiv> st\<lparr>dircs := (dircs st)(d \<mapsto> x\<lparr>dc_usage := 0\<rparr>)\<rparr>"
    and "dr1 \<equiv> (if dc_parent x = d then dr(d := 0) else dr(d := 0, dc_parent x := dr (dc_parent x) + 1))"
  shows "dc_inv rank (insert d Z) st1 dr1 ir"
proof -
  note e = usage_edges [OF d(1), of 0, folded st1_def]
  have k: "kids st1 (insert d Z) c = kids st Z c - {d}" for c
  proof -
    have "kids st1 (insert d Z) c = kids st1 Z c - {d}" by (auto simp: kids_def)
    then show ?thesis using e(1) by simp
  qed
  have kd: "d \<in> kids st Z c \<longleftrightarrow> c = dc_parent x \<and> c \<noteq> d" for c using d(1,4) by (auto simp: kids_def)
  have "entry_ok rank (insert d Z) st1 dr1 c y" if c: "dircs st1 c = Some y" "c \<notin> insert d Z" for c y
  proof -
    have y: "dircs st c = Some y" "c \<noteq> d" "c \<notin> Z" using c by (auto simp: st1_def)
    have ok: "entry_ok rank Z st dr c y" using dc_invD(4) [OF i y(1,3)] .
    have "dc_parent y \<noteq> d" using d(3) y by (auto simp: kids_def)
    moreover have "dr1 c + card (kids st Z c - {d}) = dr c + card (kids st Z c)"
    proof (cases "d \<in> kids st Z c")
      case True
      then have "0 < card (kids st Z c)" using finite_kids(1) [OF dc_invD(1) [OF i]] by (auto simp: card_gt_0_iff)
      then show ?thesis using True kd [of c] y(2) by (simp add: dr1_def)
    qed (use kd [of c] y(2) in \<open>auto simp: dr1_def\<close>)
    ultimately show ?thesis using ok e(3) unfolding entry_ok_def k by auto
  qed
  moreover have "dr1 c = 0" if "dircs st1 c = None \<or> c \<in> insert d Z" for c
  proof -
    have "dc_parent x \<in> dom (dircs st) - Z" using dc_invD(4) [OF i d(1,4)] by (simp add: entry_ok_def)
    then have "c = d \<or> c \<noteq> dc_parent x \<and> dr c = 0" using that i unfolding dc_inv_def by (auto simp: st1_def split: if_splits)
    then show ?thesis by (auto simp: dr1_def)
  qed
  moreover have "finite (dom (dircs st1))" using dc_invD(1) [OF i] unfolding e(3) .
  moreover have "dircs st1 NULL = None" using dc_invD(2) [OF i] dirc_not_null [OF i d(1)] by (simp add: st1_def)
  moreover have "inos st1 = inos st" "fnodes st1 = fnodes st" by (simp_all add: st1_def)
  ultimately show ?thesis
    using dc_invD(3) [OF i] unfolding dc_inv_def e(2) by auto
qed

text \<open>Freeing it.\<close>

lemma dc_inv_free:
  assumes i: "dc_inv rank (insert d Z) st dr ir" and d: "dircs st d = Some x" "d \<notin> Z"
    and ic: "client_inv (ic, (\<lambda>e. ir e + card (users st e))(dc_inode x := ir (dc_inode x) + card (users st (dc_inode x)) - 1))"
  shows "dc_inv rank Z (st\<lparr>inos := ic, dircs := (dircs st)(d := None)\<rparr>) dr ir"
proof -
  let ?st = "st\<lparr>inos := ic, dircs := (dircs st)(d := None)\<rparr>"
  have u: "users ?st e = users st e - {d}" for e by (auto simp: users_def)
  have du: "d \<in> users st e \<longleftrightarrow> e = dc_inode x" for e using d(1) by (auto simp: users_def)
  have "(\<lambda>e. ir e + card (users ?st e)) = (\<lambda>e. ir e + card (users st e))(dc_inode x := ir (dc_inode x) + card (users st (dc_inode x)) - 1)"
  proof
    fix e
    have "card (users st e) > 0" if "d \<in> users st e" using that finite_kids(2) [OF dc_invD(1) [OF i]] by (auto simp: card_gt_0_iff)
    then show "ir e + card (users ?st e) = ((\<lambda>e. ir e + card (users st e))(dc_inode x := ir (dc_inode x) + card (users st (dc_inode x)) - 1)) e"
      using du [of e] by (cases "e = dc_inode x") (simp_all add: u)
  qed
  moreover have "entry_ok rank Z ?st dr c y" if "dircs ?st c = Some y" "c \<notin> Z" for c y
  proof -
    have c: "c \<noteq> d" "dircs st c = Some y" using that by (auto split: if_splits)
    then have "entry_ok rank (insert d Z) st dr c y" using dc_invD(4) [OF i, of c y] that(2) by blast
    moreover have "kids ?st Z c = kids st (insert d Z) c" by (auto simp: kids_def)
    ultimately show ?thesis by (auto simp: entry_ok_def)
  qed
  moreover have "dr c = 0" if "dircs ?st c = None \<or> c \<in> Z" for c
    using that i unfolding dc_inv_def by (auto split: if_splits)
  ultimately show ?thesis using i ic unfolding dc_inv_def by auto
qed

lemma vfs_dir_cache_release_inv:
  assumes "dc_inv rank Z st dr ir" "0 < dr d"
  shows "\<exists>st'. vfs_dir_cache_release drv d st = Some (Inr st') \<and> dc_inv rank Z st' (dr(d := dr d - 1)) ir
    \<and> same_keys (inos st) (inos st') \<and> (\<forall>z \<in> Z. dircs st' z = dircs st z) \<and> fnodes st' = fnodes st \<and> pipes st' = pipes st \<and> dom (dircs st') \<subseteq> dom (dircs st)
    \<and> (\<forall>c y. dircs st' c = Some y \<longrightarrow> (\<exists>x. dircs st c = Some x \<and> dc_inode y = dc_inode x \<and> dc_parent y = dc_parent x))"
  using assms
proof (induction "rank d" arbitrary: d Z st dr rule: less_induct)
  case less
  from dc_invD(5) [OF less.prems] obtain x where x: "d \<notin> Z" "dircs st d = Some x" by blast
  have nn: "d \<noteq> NULL" by (rule dirc_not_null [OF less.prems(1) x(2)])
  have ok: "entry_ok rank Z st dr d x" using dc_invD(4) [OF less.prems(1) x(2,1)] .
  then have u: "dc_usage x \<noteq> 0" "unat (dc_usage x - 1) = dr d - 1 + card (kids st Z d)"
    using less.prems(2) unat_decr [of "dc_usage x"] by (auto simp: entry_ok_def)
  show ?case
  proof (cases "dc_usage x - 1 = 0")
    case False
    let ?st = "st\<lparr>dircs := (dircs st)(d \<mapsto> x\<lparr>dc_usage := dc_usage x - 1\<rparr>)\<rparr>"
    have "vfs_dir_cache_release drv d st = Some (Inr ?st)"
      using False nn x(2) u(1) by (subst vfs_dir_cache_release.simps) (simp add: Let_def)
    moreover have "dc_inv rank Z ?st (dr(d := dr d - 1)) ir" by (rule dc_inv_usage [OF less.prems(1) x(2,1) False u(2)])
    ultimately show ?thesis using x by (intro exI [of _ ?st]) (auto simp: same_keys_def)
  next
    case True
    then have z: "dr d = 1" "card (kids st Z d) = 0" using u(2) less.prems(2) by auto
    then have k: "kids st Z d = {}" using finite_kids(1) [OF dc_invD(1) [OF less.prems(1)]] by auto
    let ?st1 = "st\<lparr>dircs := (dircs st)(d \<mapsto> x\<lparr>dc_usage := 0\<rparr>)\<rparr>"
    note i1 = dc_inv_zombie [OF less.prems(1) x(2) z(1) k x(1)]
    have "\<exists>st2. (if dc_parent x \<noteq> d then vfs_dir_cache_release drv (dc_parent x) ?st1 else Some (Inr ?st1)) = Some (Inr st2)
      \<and> dc_inv rank (insert d Z) st2 (dr(d := 0)) ir \<and> (\<forall>z \<in> insert d Z. dircs st2 z = dircs ?st1 z)
      \<and> same_keys (inos st) (inos st2)
      \<and> fnodes st2 = fnodes st \<and> pipes st2 = pipes st \<and> dom (dircs st2) \<subseteq> dom (dircs st)
      \<and> (\<forall>c y. dircs st2 c = Some y \<longrightarrow> (\<exists>x. dircs st c = Some x \<and> dc_inode y = dc_inode x \<and> dc_parent y = dc_parent x))"
    proof (cases "dc_parent x = d")
      case True
      then show ?thesis using i1 x(2) by (intro exI [of _ ?st1]) (auto simp: same_keys_def)
    next
      case False
      then have r: "rank (dc_parent x) < rank d" using ok by (simp add: entry_ok_def)
      let ?dr = "dr(d := 0, dc_parent x := dr (dc_parent x) + 1)"
      have i: "dc_inv rank (insert d Z) ?st1 ?dr ir" using i1 False by simp
      have "?dr(dc_parent x := ?dr (dc_parent x) - 1) = dr(d := 0)" using False by auto
      with less.hyps [OF r i] obtain st2 where s2: "vfs_dir_cache_release drv (dc_parent x) ?st1 = Some (Inr st2)"
          "dc_inv rank (insert d Z) st2 (dr(d := 0)) ir" "\<forall>z \<in> insert d Z. dircs st2 z = dircs ?st1 z"
          "fnodes st2 = fnodes ?st1" "pipes st2 = pipes ?st1" "dom (dircs st2) \<subseteq> dom (dircs ?st1)"
          "\<forall>c y. dircs st2 c = Some y \<longrightarrow> (\<exists>x. dircs ?st1 c = Some x \<and> dc_inode y = dc_inode x \<and> dc_parent y = dc_parent x)"
          "same_keys (inos ?st1) (inos st2)"
        by auto
      have "\<forall>c y. dircs ?st1 c = Some y \<longrightarrow> (\<exists>x. dircs st c = Some x \<and> dc_inode y = dc_inode x \<and> dc_parent y = dc_parent x)"
        using x(2) by auto
      with s2(7) have "\<forall>c y. dircs st2 c = Some y \<longrightarrow> (\<exists>x. dircs st c = Some x \<and> dc_inode y = dc_inode x \<and> dc_parent y = dc_parent x)"
        by metis
      moreover from this have "dom (dircs st2) \<subseteq> dom (dircs st)" by blast
      ultimately show ?thesis using False s2(1-5,8) by (intro exI [of _ st2]) simp
    qed
    then obtain st2 where st2: "(if dc_parent x \<noteq> d then vfs_dir_cache_release drv (dc_parent x) ?st1 else Some (Inr ?st1)) = Some (Inr st2)"
      "dc_inv rank (insert d Z) st2 (dr(d := 0)) ir" "\<forall>z \<in> insert d Z. dircs st2 z = dircs ?st1 z"
      "fnodes st2 = fnodes st" "pipes st2 = pipes st" "dom (dircs st2) \<subseteq> dom (dircs st)"
      "\<forall>c y. dircs st2 c = Some y \<longrightarrow> (\<exists>x. dircs st c = Some x \<and> dc_inode y = dc_inode x \<and> dc_parent y = dc_parent x)"
      "same_keys (inos st) (inos st2)" by blast
    have d2: "dircs st2 d = Some (x\<lparr>dc_usage := 0\<rparr>)" using st2(3) by simp
    then have "d \<in> users st2 (dc_inode x)" by (auto simp: users_def)
    then have "0 < ir (dc_inode x) + card (users st2 (dc_inode x))"
      using finite_kids(2) [OF dc_invD(1) [OF st2(2)]] by (auto simp: card_gt_0_iff)
    from ino.drop_ok [OF dc_invD(3) [OF st2(2)] this, of drv]
    obtain ic where ic: "vfs_inode_release drv (inos st2) (dc_inode x) = Inr ic"
        "client_inv (ic, (\<lambda>e. ir e + card (users st2 e))(dc_inode x := ir (dc_inode x) + card (users st2 (dc_inode x)) - 1))" by auto
    let ?st3 = "st2\<lparr>inos := ic, dircs := (dircs st2)(d := None)\<rparr>"
    have "vfs_dir_cache_release drv d st = Some (Inr ?st3)"
      using True nn x(2) u(1) st2(1) ic(1) by (subst vfs_dir_cache_release.simps) (simp add: Let_def)
    moreover have "dc_inv rank Z ?st3 (dr(d := dr d - 1)) ir"
      using dc_inv_free [OF st2(2) d2 x(1)] ic(2) z(1) by simp
    moreover have "same_keys (inos st) ic" using same_keys_trans [OF st2(8) cache_op_keys(2) [OF ic(1)]] .
    ultimately show ?thesis using st2 x by (intro exI [of _ ?st3]) (auto split: if_splits)
  qed
qed


section \<open>The operations as clients see them\<close>

definition dcache_ok :: "fs_st \<Rightarrow> (addr \<Rightarrow> nat) \<Rightarrow> (addr \<Rightarrow> nat) \<Rightarrow> bool" where
  "dcache_ok st dr ir \<longleftrightarrow> (\<exists>rank. dc_inv rank {} st dr ir)"

text \<open>What is left of an entry after others were released: its edges.\<close>

definition edges_kept :: "fs_st \<Rightarrow> fs_st \<Rightarrow> bool" where
  "edges_kept st st' \<longleftrightarrow>
     same_keys (inos st) (inos st') \<and> fnodes st' = fnodes st \<and> pipes st' = pipes st \<and> dom (dircs st') \<subseteq> dom (dircs st) \<and>
     (\<forall>c y. dircs st' c = Some y \<longrightarrow> (\<exists>x. dircs st c = Some x \<and> dc_inode y = dc_inode x \<and> dc_parent y = dc_parent x))"

lemma release_ok:
  assumes "dcache_ok st dr ir" "0 < dr d"
  shows "\<exists>st'. vfs_dir_cache_release drv d st = Some (Inr st') \<and> dcache_ok st' (dr(d := dr d - 1)) ir \<and> edges_kept st st'"
proof -
  obtain rank where "dc_inv rank {} st dr ir" using assms(1) by (auto simp: dcache_ok_def)
  from vfs_dir_cache_release_inv [OF this assms(2), of drv] show ?thesis unfolding dcache_ok_def edges_kept_def by blast
qed

lemma dcache_okD:
  assumes "dcache_ok st dr ir"
  shows "finite (dom (dircs st))" "client_inv (inos st, \<lambda>e. ir e + card (users st e))"
    "0 < dr d \<Longrightarrow> d \<noteq> NULL \<and> (\<exists>x. dircs st d = Some x)"
    "dircs st d = Some x \<Longrightarrow> (\<exists>y. dircs st (dc_parent x) = Some y) \<and> 0 < card (users st (dc_inode x))"
    "dircs st d = None \<Longrightarrow> dr d = 0"
proof -
  obtain rank where i: "dc_inv rank {} st dr ir" using assms by (auto simp: dcache_ok_def)
  show "finite (dom (dircs st))" "client_inv (inos st, \<lambda>e. ir e + card (users st e))" using dc_invD(1,3) [OF i] .
  show "d \<noteq> NULL \<and> (\<exists>x. dircs st d = Some x)" if "0 < dr d"
    using dc_invD(5) [OF i that] dirc_not_null [OF i] by blast
  show "dr d = 0" if "dircs st d = None" using i that by (simp add: dc_inv_def)
  assume d: "dircs st d = Some x"
  then have "dc_parent x \<in> dom (dircs st)" using dc_invD(4) [OF i d] by (auto simp: entry_ok_def)
  moreover have "d \<in> users st (dc_inode x)" using d by (auto simp: users_def)
  ultimately show "(\<exists>y. dircs st (dc_parent x) = Some y) \<and> 0 < card (users st (dc_inode x))"
    using finite_kids(2) [OF dc_invD(1) [OF i]] by (auto simp: card_gt_0_iff)
qed

lemma card_edges:
  assumes "finite (dom (dircs st))"
  shows "card (kids st Z d) \<le> card (dom (dircs st))" "card (users st e) \<le> card (dom (dircs st))"
  by (rule card_mono [OF assms], force simp: kids_def users_def)+

lemma ref_ok:
  assumes ok: "dcache_ok st dr ir" and d: "dircs st d = Some x" and b: "dr d + card (dom (dircs st)) < 2 ^ 32 - 1"
  shows "\<exists>st'. vfs_dir_cache_ref d st = Inr (d, st') \<and> dcache_ok st' (dr(d := dr d + 1)) ir
    \<and> st' = st\<lparr>dircs := (dircs st)(d \<mapsto> x\<lparr>dc_usage := dc_usage x + 1\<rparr>)\<rparr>"
proof -
  obtain rank where i: "dc_inv rank {} st dr ir" using ok by (auto simp: dcache_ok_def)
  have u: "unat (dc_usage x) = dr d + card (kids st {} d)" using dc_invD(4) [OF i d] by (simp add: entry_ok_def)
  have "unat (dc_usage x) < 2 ^ 32 - 1" using u b card_edges(1) [OF dc_invD(1) [OF i], of "{}" d] by linarith
  then have n: "dc_usage x + 1 \<noteq> 0" "unat (dc_usage x + 1) = (dr d + 1) + card (kids st {} d)"
    using unat_incr [of "dc_usage x"] u by auto
  then show ?thesis
    using dc_inv_usage [OF i d _ n] dirc_not_null [OF i d] d by (auto simp: vfs_dir_cache_ref_def dcache_ok_def)
qed

lemma dcache_ok_inos:
  assumes ok: "dcache_ok st dr ir" and ic: "client_inv (ic, \<lambda>e. ir' e + card (users st e))"
  shows "dcache_ok (st\<lparr>inos := ic, fnodes := fn, pipes := ps\<rparr>) dr ir'"
proof -
  have "kids (st\<lparr>inos := ic, fnodes := fn, pipes := ps\<rparr>) Z c = kids st Z c" "users (st\<lparr>inos := ic, fnodes := fn, pipes := ps\<rparr>) e = users st e"
    for Z c e by (simp_all add: kids_def users_def)
  then show ?thesis using ok ic unfolding dcache_ok_def dc_inv_def entry_ok_def by auto
qed


lemma load_ref_ok:
  assumes c: "client_inv (ic, r)" and miss: "vfs_get_cached_inode ic d n = Some (Inr (NULL, ic))"
    and e: "e \<notin> live ic" "e \<noteq> NULL" "e \<noteq> open_inodes ic" "e \<noteq> c_mrul (caches ic (inode_cache ic))"
  shows "\<exists>ic1 ic2. vfs_inode_cache drv (load_inode ic e n d) e = Inr ic1 \<and> vfs_inode_ref ic1 e = Inr (e, ic2)
    \<and> client_inv (ic2, r(e := r e + 1))"
proof -
  from c obtain os es where i: "icache_inv ic os es" "\<And>e. r e = (if e \<in> set os then unat (usage_count ic e) else 0)"
    by (rule client_refD) blast
  have "find (\<lambda>e. ino_key ic e = (n, d)) (os @ es) = None"
  proof (rule ccontr)
    assume "\<not> ?thesis"
    then obtain x where "vfs_inode_ref ic x = Inr (NULL, ic)"
      using miss vfs_get_cached_inode_inv [OF i(1), of d n] by auto
    then show False using vfs_inode_ref_same by blast
  qed
  note li = load_inv [OF i(1) e(1) this]
  let ?ic = "load_inode ic e n d"
  have ne: "e \<notin> set os \<union> set es" using e(1) i(1) by (auto simp: icache_inv_def)
  have f: "open_inodes ?ic = open_inodes ic" "c_mrul (caches ?ic (inode_cache ?ic)) = c_mrul (caches ic (inode_cache ic))"
      "e \<in> live ?ic" "usage_count ?ic e = 0" "usage_count ?ic = (usage_count ic)(e := 0)" by (auto simp: load_inode_def)
  obtain ic1 where ic1: "vfs_inode_cache drv ?ic e = Inr ic1" "icache_inv ic1 os (cache_after es e)" "usage_count ic1 = usage_count ?ic"
    using icache_add [of ?ic os es e drv] li ne e f by (auto simp: vfs_inode_cache_def)
  have r1: "\<And>x. r x = (if x \<in> set os then unat (usage_count ic1 x) else 0)" using i(2) ic1(3) f(5) ne by auto
  have m: "e \<in> set os \<union> set (cache_after es e)" by (cases es) (auto simp: cache_after_def)
  have z: "usage_count ic1 e + 1 \<noteq> 0" "r e < 2 ^ 32 - 1" using ic1(3) f(4) i(2) [of e] ne by auto
  obtain ic2 where "vfs_inode_ref ic1 e = Inr (e, ic2)" using vfs_inode_ref_inv [OF ic1(2) m z(1)] by blast
  then show ?thesis using ic1(1) ref_client_inv [OF ic1(2) r1 m z(2)] by blast
qed

text \<open>A lookup in the cache gives an inode with a reference, or nothing and the cache as it was.\<close>

lemma get_cached_ok:
  assumes c: "client_inv (ic, r)" and b: "\<And>e. r e < 2 ^ 32 - 1"
  shows "vfs_get_cached_inode ic d n = Some (Inr (NULL, ic)) \<or>
    (\<exists>e ic'. vfs_get_cached_inode ic d n = Some (Inr (e, ic')) \<and> e \<noteq> NULL \<and> client_inv (ic', r(e := r e + 1))
      \<and> same_keys ic ic' \<and> ino_key ic e = (n, d))"
proof -
  from c obtain os es where i: "icache_inv ic os es" "\<And>e. r e = (if e \<in> set os then unat (usage_count ic e) else 0)"
    by (rule client_refD) blast
  show ?thesis
  proof (cases "find (\<lambda>e. ino_key ic e = (n, d)) (os @ es)")
    case None
    then show ?thesis using vfs_get_cached_inode_inv [OF i(1), of d n] by simp
  next
    case (Some e)
    then have m: "e \<in> set os \<union> set es" using find_SomeD by fastforce
    have "unat (usage_count ic e) < 2 ^ 32 - 1" using m i b [of e] by (auto simp: icache_inv_def split: if_splits)
    then have u: "usage_count ic e + 1 \<noteq> 0" using unat_incr by blast
    obtain ic' where r: "vfs_inode_ref ic e = Inr (e, ic')" using vfs_inode_ref_inv [OF i(1) m u] by blast
    have "vfs_get_cached_inode ic d n = Some (Inr (e, ic'))" using Some vfs_get_cached_inode_inv [OF i(1), of d n] r by simp
    then show ?thesis
      using find_SomeD(1) [OF Some] ref_client_inv [OF i m b [of e] r] vfs_inode_ref_same [OF r] cache_op_keys(1) [OF r] by blast
  qed
qed



lemma get_cached_miss:
  assumes c: "client_inv (ic, r)" and miss: "vfs_get_cached_inode ic d n = Some (Inr (NULL, ic))" and e: "0 < r e"
  shows "ino_key ic e \<noteq> (n, d)"
proof
  assume k: "ino_key ic e = (n, d)"
  from c obtain os es where i: "icache_inv ic os es" "\<And>e. r e = (if e \<in> set os then unat (usage_count ic e) else 0)"
    by (rule client_refD) blast
  then have "e \<in> set os" using e by (auto split: if_splits)
  then have "find (\<lambda>e. ino_key ic e = (n, d)) (os @ es) \<noteq> None" using k by (auto simp: find_None_iff)
  then obtain x where "vfs_inode_ref ic x = Inr (NULL, ic)" using miss vfs_get_cached_inode_inv [OF i(1), of d n] by auto
  then show False using vfs_inode_ref_same by blast
qed

section \<open>The tree of files\<close>

text \<open>
  What the files of all devices are, by number and device: the entries of the directories, the attributes, the texts
  of the links, and what is mounted where.  The inodes in memory agree with it.
\<close>

type_synonym key = "u32 \<times> u32"

record tree =
  t_find :: "key \<Rightarrow> string \<Rightarrow> errno + u32"
  t_node :: "key \<Rightarrow> inode_perm"
  t_size :: "key \<Rightarrow> u32"
  t_link :: "key \<Rightarrow> string"
  t_mount :: "key \<Rightarrow> key option"

definition node_ok :: "tree \<Rightarrow> key \<Rightarrow> fnode \<Rightarrow> bool" where
  "node_ok T k f \<longleftrightarrow> i_uid f = i_uid (t_node T k) \<and> i_gid f = i_gid (t_node T k) \<and> i_mode f = i_mode (t_node T k) \<and>
     f_size f = t_size T k \<and> (S_ISLNK (i_mode f) \<longrightarrow> f_lock f = 1)"

definition mount_ok :: "tree \<Rightarrow> icache_st \<Rightarrow> (addr \<Rightarrow> nat) \<Rightarrow> key \<Rightarrow> fnode \<Rightarrow> bool" where
  "mount_ok T ic ir k f \<longleftrightarrow>
     (case t_mount T k of None \<Rightarrow> f_mount f = NULL | Some m \<Rightarrow> 0 < ir (f_mount f) \<and> ino_key ic (f_mount f) = m)"

definition tree_ok :: "tree \<Rightarrow> fs_st \<Rightarrow> (addr \<Rightarrow> nat) \<Rightarrow> bool" where
  "tree_ok T st ir \<longleftrightarrow>
     (\<forall>e \<in> live (inos st). node_ok T (ino_key (inos st) e) (fnodes st e) \<and> mount_ok T (inos st) ir (ino_key (inos st) e) (fnodes st e)) \<and>
     (\<forall>k. t_mount T k \<noteq> None \<longrightarrow> (\<exists>e. 0 < ir e \<and> ino_key (inos st) e = k))"

lemma tree_ok_keys:
  assumes t: "tree_ok T st ir" and k: "same_keys (inos st) (inos st')" "fnodes st' = fnodes st" and ir: "\<And>e. 0 < ir e \<Longrightarrow> 0 < ir' e"
  shows "tree_ok T st' ir'"
proof -
  have e: "node_ok T (ino_key (inos st') e) (fnodes st' e) \<and> mount_ok T (inos st') ir' (ino_key (inos st') e) (fnodes st' e)"
    if "e \<in> live (inos st')" for e
  proof -
    have "e \<in> live (inos st)" using that k(1) by (auto simp: same_keys_def)
    then have "node_ok T (ino_key (inos st) e) (fnodes st e) \<and> mount_ok T (inos st) ir (ino_key (inos st) e) (fnodes st e)"
      using t by (auto simp: tree_ok_def)
    then show ?thesis using k ir by (auto simp: same_keys_def mount_ok_def split: option.splits)
  qed
  moreover have "\<exists>e. 0 < ir' e \<and> ino_key (inos st') e = m" if "t_mount T m \<noteq> None" for m
    using t k(1) ir that unfolding tree_ok_def same_keys_def by metis
  ultimately show ?thesis unfolding tree_ok_def by blast
qed

lemma tree_ok_load:
  assumes t: "tree_ok T st ir" and held: "\<And>x. 0 < ir x \<Longrightarrow> x \<in> live (inos st) \<and> ino_key (inos st) x \<noteq> (n, dev)"
    and e: "e \<notin> live (inos st)" "node_ok T (n, dev) f" "f_mount f = NULL"
    and ic: "same_keys (load_inode (inos st) e n dev) (inos st')" and fn: "fnodes st' = (fnodes st)(e := f)"
  shows "tree_ok T st' ir"
proof -
  have k: "ino_key (inos st') = (ino_key (inos st))(e := (n, dev))" "live (inos st') \<subseteq> insert e (live (inos st))"
    using ic by (auto simp: same_keys_def load_inode_def ino_key_def fun_eq_iff)
  have nm: "t_mount T (n, dev) = None" using t held unfolding tree_ok_def by blast
  have ke: "ino_key (inos st') x = ino_key (inos st) x" if "0 < ir x" for x
    using held [OF that] e(1) k(1) by auto
  have "node_ok T (ino_key (inos st') x) (fnodes st' x) \<and> mount_ok T (inos st') ir (ino_key (inos st') x) (fnodes st' x)"
    if "x \<in> live (inos st')" for x
  proof (cases "x = e")
    case False
    then have "node_ok T (ino_key (inos st) x) (fnodes st x) \<and> mount_ok T (inos st) ir (ino_key (inos st) x) (fnodes st x)"
      using that k(2) t by (auto simp: tree_ok_def)
    moreover have "e \<noteq> y" if "0 < ir y" for y using held [OF that] e(1) by blast
    ultimately show ?thesis using False k(1) fn by (auto simp: mount_ok_def split: option.splits)
  qed (use e nm k(1) fn in \<open>simp add: mount_ok_def\<close>)
  moreover have "\<exists>x. 0 < ir x \<and> ino_key (inos st') x = m" if "t_mount T m \<noteq> None" for m
    using t ke that unfolding tree_ok_def by metis
  ultimately show ?thesis unfolding tree_ok_def by blast
qed


section \<open>The operations on the whole\<close>

text \<open>The files above a given one, as the entries of the cache have them, this file first.\<close>

inductive chain :: "fs_st \<Rightarrow> addr \<Rightarrow> key list \<Rightarrow> bool" for st where
  top: "dircs st d = Some x \<Longrightarrow> dc_parent x = d \<Longrightarrow> chain st d [ino_key (inos st) (dc_inode x)]"
| sub: "dircs st d = Some x \<Longrightarrow> dc_parent x \<noteq> d \<Longrightarrow> chain st (dc_parent x) ks \<Longrightarrow> chain st d (ino_key (inos st) (dc_inode x) # ks)"

lemma chain_entry: "chain st d ks \<Longrightarrow> \<exists>x ks'. dircs st d = Some x \<and> ks = ino_key (inos st) (dc_inode x) # ks'"
  by (erule chain.cases) auto

text \<open>\<open>mr\<close> are the references to inodes that the mounts hold; \<open>ir\<close> counts them too.\<close>

definition fs_ok :: "tree \<Rightarrow> (addr \<Rightarrow> nat) \<Rightarrow> fs_st \<Rightarrow> (addr \<Rightarrow> nat) \<Rightarrow> (addr \<Rightarrow> nat) \<Rightarrow> bool" where
  "fs_ok T mr st dr ir \<longleftrightarrow> dcache_ok st dr ir \<and> tree_ok T st mr \<and> (\<forall>e. mr e \<le> ir e) \<and> card (dom (dircs st)) \<le> 2 ^ 30"

text \<open>The clients hold so few references that \<open>k\<close> more do not make a counter overflow.\<close>

definition few :: "nat \<Rightarrow> (addr \<Rightarrow> nat) \<Rightarrow> (addr \<Rightarrow> nat) \<Rightarrow> bool" where
  "few k dr ir \<longleftrightarrow> (\<forall>a. dr a + k < 2 ^ 30 \<and> ir a + k < 2 ^ 30)"

text \<open>What a client knows of the entries it holds stays true.\<close>

definition chains_kept :: "(addr \<Rightarrow> nat) \<Rightarrow> fs_st \<Rightarrow> fs_st \<Rightarrow> bool" where
  "chains_kept dr st st' \<longleftrightarrow> (\<forall>d ks. 0 < dr d \<longrightarrow> chain st d ks \<longrightarrow> chain st' d ks)"

text \<open>
  What the allocators and the driver promise: fresh addresses, no more entries than fit in memory, and inodes that
  agree with the tree.  \<open>IO\<close> are the errors of the device.
\<close>

definition env_ok :: "tree \<Rightarrow> errno set \<Rightarrow> vfs_env \<Rightarrow> bool" where
  "env_ok T IO env \<longleftrightarrow>
     (\<forall>st d. e_alloc env st = Some d \<longrightarrow> d \<noteq> NULL \<and> dircs st d = None \<and> card (dom (dircs st)) < 2 ^ 30) \<and>
     (\<forall>dev n st. case ifs_load_inode env dev n st of
        Inl s \<Rightarrow> s \<in> IO
      | Inr (e, f) \<Rightarrow> e \<noteq> NULL \<and> e \<notin> live (inos st) \<and> e \<noteq> open_inodes (inos st) \<and>
          e \<noteq> c_mrul (caches (inos st) (inode_cache (inos st))) \<and> f_mount f = NULL \<and> node_ok T (n, dev) f) \<and>
     (\<forall>st. e_pipe env st \<noteq> None)"

lemma few_step: "few (Suc k) dr ir \<Longrightarrow> few k (dr(a := dr a + 1)) ir" "few (Suc k) dr ir \<Longrightarrow> few k dr (ir(a := ir a + 1))"
  "few k dr ir \<Longrightarrow> l \<le> k \<Longrightarrow> few l dr ir"
proof -
  assume h: "few (Suc k) dr ir"
  then have b: "dr x + Suc k < 2 ^ 30" "ir x + Suc k < 2 ^ 30" for x unfolding few_def by blast+
  then show "few k (dr(a := dr a + 1)) ir" "few k dr (ir(a := ir a + 1))"
    using Suc_lessD [OF b(1) [unfolded add_Suc_right]] Suc_lessD [OF b(2) [unfolded add_Suc_right]] by (auto simp: few_def)
next
  assume "few k dr ir" "l \<le> k"
  then show "few l dr ir" unfolding few_def by (meson add_le_cancel_left le_less_trans)
qed

lemma few_inodes:
  assumes "dcache_ok st dr ir" "card (dom (dircs st)) \<le> 2 ^ 30" "few k dr ir'" "\<And>e. ir e \<le> ir' e + 1"
  shows "ir e + card (users st e) < 2 ^ 32 - 1"
proof -
  have "card (users st e) \<le> 2 ^ 30"
    by (rule le_trans [OF card_edges(2) [OF dcache_okD(1) [OF assms(1)]] assms(2)])
  moreover have "ir' e < 2 ^ 30" using assms(3) unfolding few_def by (metis add_lessD1)
  ultimately show ?thesis using assms(4) [of e] by simp
qed

lemma add_ref: "(\<lambda>e. ir e + card (U e))(x := ir x + card (U x) + 1) = (\<lambda>e. (ir(x := ir x + 1)) e + card (U e))"
  by auto


lemma held_live:
  assumes "dcache_ok st dr ir" "0 < ir e"
  shows "e \<in> live (inos st) \<and> e \<noteq> NULL"
  using referenced_live [OF dcache_okD(2) [OF assms(1)], of e] assms(2) by auto

lemma entry_live:
  assumes "dcache_ok st dr ir" "dircs st d = Some x"
  shows "dc_inode x \<in> live (inos st) \<and> dc_inode x \<noteq> NULL"
  using referenced_live [OF dcache_okD(2) [OF assms(1)], of "dc_inode x"] dcache_okD(4) [OF assms] by auto

lemma chain_mono:
  assumes "chain st d ks" and ok: "dcache_ok st' dr ir" and d: "dircs st' d = Some y"
    and e: "\<And>c y. dircs st' c = Some y \<Longrightarrow> c \<in> dom (dircs st) \<Longrightarrow> \<exists>x. dircs st c = Some x \<and> dc_inode y = dc_inode x \<and> dc_parent y = dc_parent x
      \<and> ino_key (inos st') (dc_inode x) = ino_key (inos st) (dc_inode x)"
  shows "chain st' d ks"
  using assms(1) d
proof (induction arbitrary: y)
  case (top d x)
  then have "d \<in> dom (dircs st)" by blast
  from e [OF top(3) this] show ?case using top chain.top [OF top(3)] by auto
next
  case (sub d x ks)
  have "d \<in> dom (dircs st)" using sub(1) by blast
  then obtain x' where x: "dc_inode y = dc_inode x'" "dc_parent y = dc_parent x'" "x' = x"
      "ino_key (inos st') (dc_inode x) = ino_key (inos st) (dc_inode x)" using e [OF sub(5)] sub(1) by auto
  obtain z where "dircs st' (dc_parent x) = Some z" using dcache_okD(4) [OF ok sub(5)] x by auto
  then show ?case using chain.sub [OF sub(5)] sub(2,4) x by auto
qed

lemma release_fs:
  assumes fs: "fs_ok T mr st dr ir" "0 < dr d"
  shows "\<exists>st'. vfs_dir_cache_release drv d st = Some (Inr st') \<and> fs_ok T mr st' (dr(d := dr d - 1)) ir
    \<and> chains_kept (dr(d := dr d - 1)) st st'"
proof -
  have ok: "dcache_ok st dr ir" "tree_ok T st mr" "card (dom (dircs st)) \<le> 2 ^ 30" "\<And>e. mr e \<le> ir e" using fs(1) by (auto simp: fs_ok_def)
  from release_ok [OF ok(1) fs(2), of drv] obtain st' where st': "vfs_dir_cache_release drv d st = Some (Inr st')"
    "dcache_ok st' (dr(d := dr d - 1)) ir" "edges_kept st st'" by blast
  have k: "same_keys (inos st) (inos st')" "fnodes st' = fnodes st" "dom (dircs st') \<subseteq> dom (dircs st)"
      "\<And>c y. dircs st' c = Some y \<Longrightarrow> \<exists>x. dircs st c = Some x \<and> dc_inode y = dc_inode x \<and> dc_parent y = dc_parent x"
    using st'(3) unfolding edges_kept_def by blast+
  have "tree_ok T st' mr" by (rule tree_ok_keys [OF ok(2) k(1,2)])
  moreover have "card (dom (dircs st')) \<le> 2 ^ 30" by (rule le_trans [OF card_mono [OF dcache_okD(1) [OF ok(1)] k(3)] ok(3)])
  moreover have "chains_kept (dr(d := dr d - 1)) st st'"
    unfolding chains_kept_def
  proof (intro allI impI)
    fix c ks assume c: "0 < (dr(d := dr d - 1)) c" "chain st c ks"
    obtain y where "dircs st' c = Some y" using dcache_okD(3) [OF st'(2) c(1)] by blast
    then show "chain st' c ks"
      by (rule chain_mono [OF c(2) st'(2)]) (use k(1,4) in \<open>auto simp: same_keys_def\<close>)
  qed
  ultimately show ?thesis using st'(1,2) ok(4) unfolding fs_ok_def by blast
qed

lemma ref_fs:
  assumes fs: "fs_ok T mr st dr ir" and d: "dircs st d = Some x" and few: "few k dr ir"
  shows "\<exists>st'. vfs_dir_cache_ref d st = Inr (d, st') \<and> fs_ok T mr st' (dr(d := dr d + 1)) ir
    \<and> (\<forall>c ks. chain st c ks \<longrightarrow> chain st' c ks) \<and> inos st' = inos st \<and> fnodes st' = fnodes st
    \<and> dircs st' = (dircs st)(d \<mapsto> x\<lparr>dc_usage := dc_usage x + 1\<rparr>)"
proof -
  have ok: "dcache_ok st dr ir" "tree_ok T st mr" "card (dom (dircs st)) \<le> 2 ^ 30" "\<And>e. mr e \<le> ir e" using fs(1) by (auto simp: fs_ok_def)
  have "dr d < 2 ^ 30" using few unfolding few_def by (metis add_lessD1)
  then have "dr d + card (dom (dircs st)) < 2 ^ 32 - 1" using ok(3) by simp
  from ref_ok [OF ok(1) d this] obtain st' where st': "vfs_dir_cache_ref d st = Inr (d, st')"
    "dcache_ok st' (dr(d := dr d + 1)) ir" "st' = st\<lparr>dircs := (dircs st)(d \<mapsto> x\<lparr>dc_usage := dc_usage x + 1\<rparr>)\<rparr>" by blast
  have "chain st' c ks" if h: "chain st c ks" for c ks
  proof -
    obtain y where "dircs st' c = Some y" using chain_entry [OF h] st'(3) by (cases "c = d") auto
    then show ?thesis by (rule chain_mono [OF h st'(2)]) (use st'(3) d in \<open>auto split: if_splits\<close>)
  qed
  moreover have "fs_ok T mr st' (dr(d := dr d + 1)) ir"
    using st'(2,3) ok(2-4) d by (simp add: fs_ok_def tree_ok_def insert_absorb domI)
  ultimately show ?thesis using st'(1,3) by auto
qed

lemma get_inode_ok:
  assumes env: "env_ok T IO env" and fs: "fs_ok T mr st dr ir" and few: "few k dr ir"
  shows "\<exists>r st'. vfs_get_inode env dev n st = Some (Inr (r, st'))
    \<and> (case r of Inl s \<Rightarrow> s \<in> IO \<and> st' = st
       | Inr e \<Rightarrow> e \<noteq> NULL \<and> dircs st' = dircs st \<and> dcache_ok st' dr (ir(e := ir e + 1)) \<and> tree_ok T st' mr
           \<and> ino_key (inos st') e = (n, dev) \<and> (\<forall>x \<in> live (inos st). ino_key (inos st') x = ino_key (inos st) x))"
proof -
  have ok: "dcache_ok st dr ir" "tree_ok T st mr" "card (dom (dircs st)) \<le> 2 ^ 30" "\<And>e. mr e \<le> ir e" using fs by (auto simp: fs_ok_def)
  let ?r = "\<lambda>e. ir e + card (users st e)"
  have c: "client_inv (inos st, ?r)" using dcache_okD(2) [OF ok(1)] .
  have b: "?r e < 2 ^ 32 - 1" for e by (rule few_inodes [OF ok(1,3) few]) simp
  from get_cached_ok [OF c b, of dev n] show ?thesis
  proof (elim disjE exE conjE)
    fix e ic
    assume e: "vfs_get_cached_inode (inos st) dev n = Some (Inr (e, ic))" "e \<noteq> NULL" "client_inv (ic, ?r(e := ?r e + 1))"
      "same_keys (inos st) ic" "ino_key (inos st) e = (n, dev)"
    have "dcache_ok (st\<lparr>inos := ic, fnodes := fnodes st, pipes := pipes st\<rparr>) dr (ir(e := ir e + 1))"
      using e(3) by (intro dcache_ok_inos [OF ok(1)]) (simp only: add_ref)
    moreover have "tree_ok T (st\<lparr>inos := ic\<rparr>) mr" by (rule tree_ok_keys [OF ok(2)]) (use e(4) in auto)
    ultimately show ?thesis using e(1,2,4,5)
      by (intro exI [of _ "Inr e"] exI [of _ "st\<lparr>inos := ic\<rparr>"]) (simp add: vfs_get_inode_def same_keys_def)
  next
    assume miss: "vfs_get_cached_inode (inos st) dev n = Some (Inr (NULL, inos st))"
    show ?thesis
    proof (cases "ifs_load_inode env dev n st")
      case (Inl s)
      then have "s \<in> IO" using env unfolding env_ok_def by (metis (no_types, lifting) sum.simps(5))
      then show ?thesis using miss Inl by (intro exI [of _ "Inl s"] exI [of _ st]) (simp add: vfs_get_inode_def)
    next
      case (Inr p)
      obtain e f where p: "p = (e, f)" by (cases p)
      have "case ifs_load_inode env dev n st of Inl s \<Rightarrow> s \<in> IO
      | Inr (e, f) \<Rightarrow> e \<noteq> NULL \<and> e \<notin> live (inos st) \<and> e \<noteq> open_inodes (inos st) \<and>
          e \<noteq> c_mrul (caches (inos st) (inode_cache (inos st))) \<and> f_mount f = NULL \<and> node_ok T (n, dev) f"
        using env unfolding env_ok_def by blast
      then have e: "e \<notin> live (inos st)" "e \<noteq> NULL" "e \<noteq> open_inodes (inos st)" "e \<noteq> c_mrul (caches (inos st) (inode_cache (inos st)))"
          "f_mount f = NULL" "node_ok T (n, dev) f"
        using Inr p by auto
      from load_ref_ok [OF c miss e(1-4), of "e_store env"] obtain ic1 ic2 where
        ic: "vfs_inode_cache (e_store env) (load_inode (inos st) e n dev) e = Inr ic1" "vfs_inode_ref ic1 e = Inr (e, ic2)"
          "client_inv (ic2, ?r(e := ?r e + 1))" by blast
      have sk: "same_keys (load_inode (inos st) e n dev) ic2"
        by (rule same_keys_trans [OF cache_op_keys(3) [OF ic(1)] cache_op_keys(1) [OF ic(2)]])
      let ?st1 = "load_node st e f n dev"
      obtain p pi where pp: "e_pipe env ?st1 = Some (p, pi)" using env unfolding env_ok_def by (metis option.exhaust surj_pair)
      define f' where "f' = (if S_ISFIFO (i_mode f) then f\<lparr>f_fifo := p\<rparr> else f)"
      define ps where "ps = (if S_ISFIFO (i_mode f) then (pipes st)(p \<mapsto> pi) else pipes st)"
      let ?st = "st\<lparr>inos := ic2, fnodes := (fnodes st)(e := f'), pipes := ps\<rparr>"
      have "vfs_get_inode env dev n st = Some (Inr (Inr e, ?st))"
        using miss Inr ic pp p by (auto simp: vfs_get_inode_def f'_def ps_def load_node_def)
      moreover have "dcache_ok ?st dr (ir(e := ir e + 1))"
        using ic(3) by (intro dcache_ok_inos [OF ok(1)]) (simp only: add_ref)
      moreover have "tree_ok T ?st mr"
      proof (rule tree_ok_load [OF ok(2) _ e(1)])
        show "node_ok T (n, dev) f'" "f_mount f' = NULL" using e(5,6) by (auto simp: f'_def node_ok_def)
        show "x \<in> live (inos st) \<and> ino_key (inos st) x \<noteq> (n, dev)" if "0 < mr x" for x
        proof -
          have "0 < ir x" using that ok(4) [of x] by simp
          then show ?thesis using held_live [OF ok(1)] get_cached_miss [OF c miss, of x] by simp
        qed
      qed (use sk in simp_all)
      moreover have "ino_key ic2 = (ino_key (inos st))(e := (n, dev))"
        using sk by (auto simp: same_keys_def load_inode_def ino_key_def fun_eq_iff)
      ultimately show ?thesis using e(1,2) by (intro exI [of _ "Inr e"] exI [of _ ?st]) auto
    qed
  qed
qed

text \<open>The file that is seen where \<open>k\<close> is: \<open>k\<close> or what is mounted on it.\<close>

definition t_eff :: "tree \<Rightarrow> key \<Rightarrow> key" where
  "t_eff T k = (case t_mount T k of None \<Rightarrow> k | Some m \<Rightarrow> m)"

lemma effective_ok:
  assumes ok: "dcache_ok st dr ir'" and t: "tree_ok T st mr" and b: "card (dom (dircs st)) \<le> 2 ^ 30" "few k dr ir"
    and i: "0 < ir' i" and ir: "\<And>e. mr e \<le> ir' e" "\<And>e. ir' e \<le> ir e + 1"
  shows "\<exists>j st'. vfs_effective_inode i st = Inr (j, st') \<and> j \<noteq> NULL \<and> dcache_ok st' dr (ir'(j := ir' j + 1)) \<and> tree_ok T st' mr
    \<and> dircs st' = dircs st \<and> ino_key (inos st') = ino_key (inos st) \<and> ino_key (inos st) j = t_eff T (ino_key (inos st) i)"
proof -
  let ?r = "\<lambda>e. ir' e + card (users st e)"
  have c: "client_inv (inos st, ?r)" using dcache_okD(2) [OF ok] .
  have lv: "i \<in> live (inos st)" "i \<noteq> NULL" using held_live [OF ok i] by auto
  have m: "mount_ok T (inos st) mr (ino_key (inos st) i) (fnodes st i)" using t lv(1) by (auto simp: tree_ok_def)
  define j where "j = (if f_mount (fnodes st i) \<noteq> NULL then f_mount (fnodes st i) else i)"
  have mn: "f_mount (fnodes st i) \<noteq> NULL" if "0 < mr (f_mount (fnodes st i))"
    using held_live [OF ok, of "f_mount (fnodes st i)"] that ir(1) [of "f_mount (fnodes st i)"] by linarith
  have j: "0 < ir' j" "ino_key (inos st) j = t_eff T (ino_key (inos st) i)"
    using m mn i ir(1) [of j] by (auto simp: mount_ok_def t_eff_def j_def split: option.splits)
  then have "j \<noteq> NULL" using held_live [OF ok] by (simp only: simp_thms)
  moreover obtain ic where ic: "vfs_inode_ref (inos st) j = Inr (j, ic)" "client_inv (ic, ?r(j := ?r j + 1))"
    using ino.take_ok [OF c _ few_inodes [OF ok b ir(2)], of j] j(1) by auto
  moreover have "dcache_ok (st\<lparr>inos := ic, fnodes := fnodes st, pipes := pipes st\<rparr>) dr (ir'(j := ir' j + 1))"
    using ic(2) by (intro dcache_ok_inos [OF ok]) (simp only: add_ref)
  moreover have "vfs_effective_inode i st = Inr (j, st\<lparr>inos := ic\<rparr>)"
    using lv ic(1) unfolding vfs_effective_inode_def j_def by (auto simp: Let_def)
  moreover have "tree_ok T (st\<lparr>inos := ic\<rparr>) mr" by (rule tree_ok_keys [OF t]) (use cache_op_keys(1) [OF ic(1)] in auto)
  ultimately show ?thesis using j(2) cache_op_keys(1) [OF ic(1)]
    by (intro exI [of _ j] exI [of _ "st\<lparr>inos := ic\<rparr>"]) (simp add: same_keys_def)
qed

text \<open>A new entry takes over a reference to its parent and one to its inode.\<close>

lemma dcache_ok_new:
  assumes ok: "dcache_ok st dr ir" and d: "d \<noteq> NULL" "dircs st d = None" and p: "0 < dr p"
    and ic: "client_inv (ic, \<lambda>e. ir' e + card (users st e) + (if e = i then 1 else 0))"
  shows "dcache_ok (st\<lparr>inos := ic, dircs := (dircs st)(d \<mapsto> \<lparr>dc_parent = p, dc_inode = i, dc_usage = 1\<rparr>)\<rparr>)
    (dr(p := dr p - 1, d := 1)) ir'"
proof -
  let ?st = "st\<lparr>inos := ic, dircs := (dircs st)(d \<mapsto> \<lparr>dc_parent = p, dc_inode = i, dc_usage = 1\<rparr>)\<rparr>" and ?dr = "dr(p := dr p - 1, d := 1)"
  obtain rank where iv: "dc_inv rank {} st dr ir" using ok by (auto simp: dcache_ok_def)
  obtain x where x: "dircs st p = Some x" using dc_invD(5) [OF iv p] by blast
  have pd: "p \<noteq> d" using x d(2) by auto
  have np: "\<And>c y. dircs st c = Some y \<Longrightarrow> dc_parent y \<in> dom (dircs st) \<and> dc_parent y \<noteq> d"
    using dc_invD(4) [OF iv] d(2) unfolding entry_ok_def by fastforce
  have k: "kids ?st {} c = (if c = p then insert d (kids st {} c) else if c = d then {} else kids st {} c)" for c
    using pd d(2) np by (auto simp: kids_def)
  have nk: "d \<notin> kids st {} c" for c using d(2) by (auto simp: kids_def)
  have nu: "d \<notin> users st e" for e using d(2) by (auto simp: users_def)
  have u: "users ?st e = (if e = i then insert d (users st e) else users st e)" for e
    using d(2) by (auto simp: users_def)
  note fin = finite_kids [OF dc_invD(1) [OF iv]]
  have "entry_ok (rank(d := Suc (rank p))) {} ?st ?dr c y" if c: "dircs ?st c = Some y" for c y
  proof (cases "c = d")
    case True
    then show ?thesis using c pd x by (auto simp: entry_ok_def k)
  next
    case False
    then have y: "dircs st c = Some y" using c by simp
    have "?dr c + card (kids ?st {} c) = dr c + card (kids st {} c)" using False p nk fin(1) by (simp add: k)
    then show ?thesis using dc_invD(4) [OF iv y] False np [OF y] unfolding entry_ok_def by auto
  qed
  moreover have "(\<lambda>e. ir' e + card (users ?st e)) = (\<lambda>e. ir' e + card (users st e) + (if e = i then 1 else 0))"
    using nu fin(2) by (auto simp: u)
  moreover have "?dr c = 0" if "dircs ?st c = None" for c
    using that iv x pd unfolding dc_inv_def by (auto split: if_splits)
  ultimately have "dc_inv (rank(d := Suc (rank p))) {} ?st ?dr ir'"
    using iv ic d(1) unfolding dc_inv_def by auto
  then show ?thesis by (auto simp: dcache_ok_def)
qed

lemma new_ok:
  assumes env: "env_ok T IO env" and fs: "fs_ok T mr st dr ir" and few: "few (Suc k) dr ir" and ch: "chain st par ks"
  shows "\<exists>r st'. vfs_dir_cache_new env par n st = Some (Inr (r, st')) \<and> chains_kept dr st st'
    \<and> (case r of Inl e \<Rightarrow> e \<in> insert ENOMEM IO \<and> fs_ok T mr st' dr ir
       | Inr d \<Rightarrow> dr d = 0 \<and> fs_ok T mr st' (dr(d := 1)) ir \<and> chain st' d (t_eff T (n, snd (hd ks)) # ks))"
proof -
  have ok: "dcache_ok st dr ir" "tree_ok T st mr" "card (dom (dircs st)) \<le> 2 ^ 30" "\<And>e. mr e \<le> ir e" using fs by (auto simp: fs_ok_def)
  obtain x ks' where x: "dircs st par = Some x" "ks = ino_key (inos st) (dc_inode x) # ks'" using chain_entry [OF ch] by blast
  have nn: "par \<noteq> NULL" using ok(1) x(1) unfolding dcache_ok_def by (auto dest: dirc_not_null)
  show ?thesis
  proof (cases "e_alloc env st")
    case None
    then show ?thesis using nn fs
      by (intro exI [of _ "Inl ENOMEM"] exI [of _ st]) (simp add: vfs_dir_cache_new_def chains_kept_def)
  next
    case (Some d)
    have d: "d \<noteq> NULL" "dircs st d = None" "card (dom (dircs st)) < 2 ^ 30" using env Some unfolding env_ok_def by blast+
    have pd: "par \<noteq> d" using x d(2) by auto
    from ref_fs [OF fs x(1) few] obtain st1 where st1: "vfs_dir_cache_ref par st = Inr (par, st1)" "fs_ok T mr st1 (dr(par := dr par + 1)) ir"
      "\<And>c ks. chain st c ks \<Longrightarrow> chain st1 c ks" "inos st1 = inos st" "dircs st1 = (dircs st)(par \<mapsto> x\<lparr>dc_usage := dc_usage x + 1\<rparr>)" by blast
    let ?dr = "dr(par := dr par + 1)" and ?dev = "device_id (inos st1) (dc_inode x)"
    have dm: "dom (dircs st1) = dom (dircs st)" using st1(5) x(1) by auto
    have i: "dirc_inode par st1 = Inr (dc_inode x)" using st1(5) by (simp add: dirc_inode_def)
    have f1: "few k ?dr ir" by (rule few_step(1) [OF few])
    have dev: "?dev = snd (hd ks)" using x(2) st1(4) by (simp add: ino_key_def)
    from get_inode_ok [OF env st1(2) f1, of ?dev n] obtain r st2 where st2: "vfs_get_inode env ?dev n st1 = Some (Inr (r, st2))"
      "case r of Inl s \<Rightarrow> s \<in> IO \<and> st2 = st1
       | Inr e \<Rightarrow> e \<noteq> NULL \<and> dircs st2 = dircs st1 \<and> dcache_ok st2 ?dr (ir(e := ir e + 1)) \<and> tree_ok T st2 mr
           \<and> ino_key (inos st2) e = (n, ?dev) \<and> (\<forall>x \<in> live (inos st1). ino_key (inos st2) x = ino_key (inos st1) x)" by blast
    show ?thesis
    proof (cases r)
      case (Inl s)
      then have s: "s \<in> IO" "st2 = st1" using st2(2) by auto
      have "0 < ?dr par" by simp
      from release_fs [OF st1(2) this, of "e_store env"] obtain st3 where st3:
        "vfs_dir_cache_release (e_store env) par st1 = Some (Inr st3)" "fs_ok T mr st3 (?dr(par := ?dr par - 1)) ir"
        "chains_kept (?dr(par := ?dr par - 1)) st1 st3" by blast
      have dd: "?dr(par := ?dr par - 1) = dr" by auto
      have "fs_ok T mr st3 dr ir" "chains_kept dr st st3" using st3(2,3) st1(3) unfolding dd chains_kept_def by blast+
      then show ?thesis using Some nn st1(1) i st2(1) Inl s st3(1) by (simp add: vfs_dir_cache_new_def)
    next
      case (Inr oi)
      then have oi: "oi \<noteq> NULL" "dircs st2 = dircs st1" "dcache_ok st2 ?dr (ir(oi := ir oi + 1))" "tree_ok T st2 mr"
          "ino_key (inos st2) oi = (n, ?dev)" "\<And>x. x \<in> live (inos st1) \<Longrightarrow> ino_key (inos st2) x = ino_key (inos st1) x"
        using st2(2) by simp_all
      have c2: "card (dom (dircs st2)) \<le> 2 ^ 30" using oi(2) dm ok(3) by simp
      have oir: "0 < (ir(oi := ir oi + 1)) oi" "\<And>e. mr e \<le> (ir(oi := ir oi + 1)) e" "\<And>e. (ir(oi := ir oi + 1)) e \<le> ir e + 1"
        using ok(4) by (simp_all add: le_Suc_eq)
      from effective_ok [OF oi(3,4) c2 f1 oir] obtain j st3 where st3: "vfs_effective_inode oi st2 = Inr (j, st3)" "j \<noteq> NULL"
        "dcache_ok st3 ?dr ((ir(oi := ir oi + 1))(j := (ir(oi := ir oi + 1)) j + 1))" "tree_ok T st3 mr" "dircs st3 = dircs st2"
        "ino_key (inos st3) = ino_key (inos st2)" "ino_key (inos st2) j = t_eff T (ino_key (inos st2) oi)" by blast
      let ?ir = "(ir(oi := ir oi + 1))(j := (ir(oi := ir oi + 1)) j + 1)"
      have "0 < ?ir oi + card (users st3 oi)" by simp
      from ino.drop_ok [OF dcache_okD(2) [OF st3(3)] this, of "e_store env"] obtain ic where
        ic: "vfs_inode_release (e_store env) (inos st3) oi = Inr ic"
          "client_inv (ic, (\<lambda>e. ?ir e + card (users st3 e))(oi := ?ir oi + card (users st3 oi) - 1))" by blast
      have "(\<lambda>e. ?ir e + card (users st3 e))(oi := ?ir oi + card (users st3 oi) - 1) = (\<lambda>e. ir e + card (users st3 e) + (if e = j then 1 else 0))"
        by auto
      with ic(2) have ic': "client_inv (ic, \<lambda>e. ir e + card (users st3 e) + (if e = j then 1 else 0))" by simp
      let ?st = "st3\<lparr>inos := ic, dircs := (dircs st3)(d \<mapsto> \<lparr>dc_parent = par, dc_inode = j, dc_usage = 1\<rparr>)\<rparr>"
      have k3: "same_keys (inos st3) ic" by (rule cache_op_keys(2) [OF ic(1)])
      have ds: "dircs st3 = dircs st1" using st3(5) oi(2) by simp
      have d3: "dircs st3 d = None" using ds st1(5) d(2) pd by simp
      have "dcache_ok ?st (?dr(par := ?dr par - 1, d := 1)) ir"
        by (rule dcache_ok_new [OF st3(3) d(1) d3 _ ic']) simp
      moreover have "?dr(par := ?dr par - 1, d := 1) = dr(d := 1)" using pd by auto
      ultimately have ok': "dcache_ok ?st (dr(d := 1)) ir" by simp
      moreover have "tree_ok T ?st mr" by (rule tree_ok_keys [OF st3(4)]) (use k3 in auto)
      moreover have "card (dom (dircs ?st)) \<le> 2 ^ 30"
      proof -
        have "dom (dircs ?st) = insert d (dom (dircs st))" using ds dm by simp
        then show ?thesis using d(3) dcache_okD(1) [OF ok(1)] by (simp add: card_insert_if)
      qed
      moreover have ch1: "chain ?st c cs" if h: "chain st c cs" for c cs
      proof -
        obtain y where y: "dircs st c = Some y" using chain_entry [OF h] by blast
        then have "c \<noteq> d" using d(2) by auto
        then obtain z where "dircs ?st c = Some z" using y ds st1(5) by (cases "c = par") auto
        then show ?thesis
        proof (rule chain_mono [OF h ok'])
          fix b z assume b: "dircs ?st b = Some z" "b \<in> dom (dircs st)"
          then obtain w where w: "dircs st b = Some w" by blast
          then have bd: "b \<noteq> d" using d(2) by auto
          have "dc_inode w \<in> live (inos st1)" using entry_live [OF ok(1) w] st1(4) by simp
          then have "ino_key ic (dc_inode w) = ino_key (inos st) (dc_inode w)"
            using k3 st3(6) oi(6) st1(4) by (simp add: same_keys_def)
          then show "\<exists>x. dircs st b = Some x \<and> dc_inode z = dc_inode x \<and> dc_parent z = dc_parent x
            \<and> ino_key (inos ?st) (dc_inode x) = ino_key (inos st) (dc_inode x)"
            using b(1) w bd ds st1(5) x(1) by (auto split: if_splits)
        qed
      qed
      moreover have "chain ?st d (t_eff T (n, snd (hd ks)) # ks)"
      proof -
        have "chain ?st d (ino_key (inos ?st) j # ks)"
          using chain.sub [of ?st d "\<lparr>dc_parent = par, dc_inode = j, dc_usage = 1\<rparr>" ks] ch1 [OF ch] pd by simp
        moreover have "ino_key (inos ?st) j = t_eff T (n, snd (hd ks))"
          using k3 st3(6,7) oi(5) dev by (simp add: same_keys_def)
        ultimately show ?thesis by simp
      qed
      moreover have "dr d = 0" by (rule dcache_okD(5) [OF ok(1) d(2)])
      moreover have "vfs_dir_cache_new env par n st = Some (Inr (Inr d, ?st))"
        using Some nn st1(1) i st2(1) Inr st3(1,2) ic(1) by (simp add: vfs_dir_cache_new_def)
      ultimately show ?thesis
        using ok(4) by (intro exI [of _ "Inr d"] exI [of _ ?st]) (auto simp: fs_ok_def chains_kept_def)
    qed
  qed
qed

section \<open>Properties\<close>

text \<open>The step from an entry to its parent.\<close>

definition up :: "fs_st \<Rightarrow> addr \<Rightarrow> addr \<Rightarrow> bool" where
  "up st c a \<longleftrightarrow> (\<exists>x. dircs st c = Some x \<and> dc_parent x = a)"

lemma dcache_reach_dom:
  assumes "dcache_ok st dr ir" "(up st)\<^sup>*\<^sup>* c a" "c \<in> dom (dircs st)"
  shows "a \<in> dom (dircs st)"
  using assms(2,3) by (induction rule: rtranclp_induct) (auto simp: up_def dest: dcache_okD(4) [OF assms(1)])

text \<open>The entries in memory are those that the clients can reach.\<close>

lemma dcache_exact:
  assumes ok: "dcache_ok st dr ir"
  shows "a \<in> dom (dircs st) \<longleftrightarrow> (\<exists>c. 0 < dr c \<and> (up st)\<^sup>*\<^sup>* c a)"
proof
  obtain rank where i: "dc_inv rank {} st dr ir" using ok by (auto simp: dcache_ok_def)
  define top where "top = Max (rank ` dom (dircs st))"
  have bound: "rank c \<le> top" if "c \<in> dom (dircs st)" for c using that dcache_okD(1) [OF ok] by (simp add: top_def)
  show "\<exists>c. 0 < dr c \<and> (up st)\<^sup>*\<^sup>* c a" if "a \<in> dom (dircs st)"
    using that
  proof (induction "top - rank a" arbitrary: a rule: less_induct)
    case less
    then obtain x where x: "dircs st a = Some x" by blast
    have u: "unat (dc_usage x) = dr a + card (kids st {} a)" "dc_usage x \<noteq> 0" using dc_invD(4) [OF i x] by (auto simp: entry_ok_def)
    show ?case
    proof (cases "dr a = 0")
      case True
      then have "kids st {} a \<noteq> {}" using u by (auto simp: unat_eq_0)
      then obtain b y where b: "b \<noteq> a" "dircs st b = Some y" "dc_parent y = a" by (auto simp: kids_def)
      then have "rank a < rank b" using dc_invD(4) [OF i b(2)] by (auto simp: entry_ok_def)
      moreover have "rank b \<le> top" using bound b(2) by blast
      ultimately have "top - rank b < top - rank a" by linarith
      then obtain c where "0 < dr c" "(up st)\<^sup>*\<^sup>* c b" using less.hyps [of b] b(2) by blast
      moreover have "up st b a" using b by (simp add: up_def)
      ultimately show ?thesis by (meson rtranclp.rtrancl_into_rtrancl)
    qed blast
  qed
  show "a \<in> dom (dircs st)" if "\<exists>c. 0 < dr c \<and> (up st)\<^sup>*\<^sup>* c a"
    using that dcache_okD(3) [OF ok] dcache_reach_dom [OF ok] by blast
qed

text \<open>
  C8: releasing a reference to an entry of the directory cache ends without a fault, and frees exactly the entries that no
  remaining reference reaches through the parents: neither an ancestor in use nor any other entry is lost, and none that is
  out of use stays.  The entries left keep their inode and their parent, and every count is again the number of references.
\<close>

theorem dir_cache_release_exact:
  assumes ok: "dcache_ok st dr ir" and d: "0 < dr d"
  shows "\<exists>st'. vfs_dir_cache_release drv d st = Some (Inr st') \<and> dcache_ok st' (dr(d := dr d - 1)) ir
    \<and> (\<forall>a. a \<in> dom (dircs st') \<longleftrightarrow> (\<exists>c. 0 < (dr(d := dr d - 1)) c \<and> (up st)\<^sup>*\<^sup>* c a))
    \<and> (\<forall>a y. dircs st' a = Some y \<longrightarrow> (\<exists>x. dircs st a = Some x \<and> dc_inode y = dc_inode x \<and> dc_parent y = dc_parent x))"
proof -
  let ?dr = "dr(d := dr d - 1)"
  obtain st' where st': "vfs_dir_cache_release drv d st = Some (Inr st')" "dcache_ok st' ?dr ir" "edges_kept st st'"
    using release_ok [OF ok d] by blast
  have e: "\<And>a y. dircs st' a = Some y \<Longrightarrow> \<exists>x. dircs st a = Some x \<and> dc_inode y = dc_inode x \<and> dc_parent y = dc_parent x"
    using st'(3) by (simp add: edges_kept_def)
  have up: "up st' c a \<longleftrightarrow> up st c a" if "c \<in> dom (dircs st')" for c a using that e by (fastforce simp: up_def)
  have "(up st')\<^sup>*\<^sup>* c a \<longleftrightarrow> (up st)\<^sup>*\<^sup>* c a" if c: "c \<in> dom (dircs st')" for c a
  proof
    show "(up st)\<^sup>*\<^sup>* c a" if "(up st')\<^sup>*\<^sup>* c a" using that
    proof (induction rule: rtranclp_induct)
      case (step x y)
      then show ?case using up [of x y] by (meson domI rtranclp.rtrancl_into_rtrancl up_def)
    qed simp
    show "(up st')\<^sup>*\<^sup>* c a" if "(up st)\<^sup>*\<^sup>* c a" using that
    proof (induction rule: rtranclp_induct)
      case (step x y)
      then have "x \<in> dom (dircs st')" using dcache_reach_dom [OF st'(2) _ c] by blast
      then show ?case using up [of x y] step by (meson rtranclp.rtrancl_into_rtrancl)
    qed simp
  qed
  moreover have "c \<in> dom (dircs st')" if "0 < ?dr c" for c using dcache_okD(3) [OF st'(2) that] by blast
  ultimately show ?thesis using st'(1,2) e dcache_exact [OF st'(2)] by (intro exI [of _ st']) blast
qed

text \<open>A root directory for the examples: the entry 20, which a process has as root and as current directory.\<close>

definition ex_node :: fnode where
  "ex_node = \<lparr>i_uid = 0, i_gid = 0, i_mode = 0x41FF, f_size = 0, f_if_dev = 0, f_fifo = NULL, f_mount = NULL, f_lock = 1,
     f_open_count = 0, f_nlink = 1, f_atime = 0, f_mtime = 0, f_ctime = 0\<rparr>"

definition ex_fs :: "icache_st \<Rightarrow> fs_st" where
  "ex_fs ic = \<lparr>inos = ic, fnodes = \<lambda>_. ex_node, dircs = [20 \<mapsto> \<lparr>dc_parent = 20, dc_inode = 8, dc_usage = 2\<rparr>], pipes = Map.empty\<rparr>"

definition ex_refs :: "addr \<Rightarrow> nat" where
  "ex_refs = (\<lambda>_. 0)(20 := 2)"

lemma ex_dcache: "\<exists>ic. ino_key ic 8 = (11, 1) \<and> dcache_ok (ex_fs ic) ex_refs (\<lambda>_. 0)"
proof -
  obtain st st2 where s: "vfs_icache_initialize ic_blank 1 3 = Inr st" "(client_step None)\<^sup>*\<^sup>* (st, \<lambda>_. 0) (st2, (\<lambda>_. 0)(8 := 1))"
      "ino_key st2 8 = (11, 1)"
    using ic_example by blast
  have "icache_inv st [] []" using vfs_icache_initialize_inv [of 1 3 ic_blank] s(1) by (auto simp: ic_blank_def)
  then have "client_inv (st, \<lambda>_. 0)" by (rule client_invI) simp
  from client_reach_inv [OF s(2) this] have c: "client_inv (st2, (\<lambda>_. 0)(8 := 1))" .
  have f: "inos (ex_fs st2) = st2" "dircs (ex_fs st2) = [20 \<mapsto> \<lparr>dc_parent = 20, dc_inode = 8, dc_usage = 2\<rparr>]" by (simp_all add: ex_fs_def)
  have u: "users (ex_fs st2) e = (if e = 8 then {20} else {})" "kids (ex_fs st2) {} e = {}" for e
    by (auto simp: users_def kids_def ex_fs_def split: if_splits)
  have "(\<lambda>e. 0 + card (users (ex_fs st2) e)) = (\<lambda>_. 0)(8 := 1)" unfolding u by auto
  then have "dc_inv (\<lambda>_. 0) {} (ex_fs st2) ex_refs (\<lambda>_. 0)"
    using c unfolding dc_inv_def entry_ok_def by (auto simp: u f ex_refs_def split: if_splits)
  then show ?thesis using s(3) unfolding dcache_ok_def by blast
qed

theorem dir_cache_release_exact_witness:
  "\<exists>ic st'. vfs_dir_cache_release None 20 (ex_fs ic) = Some (Inr st') \<and> dom (dircs st') = {20}"
proof -
  obtain ic where ic: "dcache_ok (ex_fs ic) ex_refs (\<lambda>_. 0)" using ex_dcache by blast
  have r: "ex_refs(20 := ex_refs 20 - 1) = (\<lambda>_. 0)(20 := 1)" by (auto simp: ex_refs_def)
  have "(up (ex_fs ic))\<^sup>*\<^sup>* 20 a \<longleftrightarrow> a = 20" for a
  proof
    show "a = 20" if "(up (ex_fs ic))\<^sup>*\<^sup>* 20 a" using that by (induction rule: rtranclp_induct) (auto simp: up_def ex_fs_def)
  qed simp
  then show ?thesis
    using dir_cache_release_exact [OF ic, of 20 None] unfolding r by (auto simp: ex_refs_def split: if_splits) blast
qed

end
