(* ===== verification/Pathres.thy ===== *)
theory Pathres
  imports Dcache
begin

text \<open>
  Path resolution (\<^verbatim>\<open>src/kernel/vfs/pathres.c\<close>) with the calls of \<^verbatim>\<open>src/kernel/vfs.c\<close> and
  \<^verbatim>\<open>src/kernel/vfs/ifswrap.c\<close> that it makes.  A path is a string without its terminator, a pointer into it an index.
  The theory shows that the resolver finds what a walk through the tree of files finds, and that it keeps exactly
  one reference, to the entry it returns.
\<close>

section \<open>Constants\<close>

definition CONFIG_FILE_MAX_NAME_LENGTH :: nat where "CONFIG_FILE_MAX_NAME_LENGTH = 128"
definition CONFIG_MAX_PATH_RECURSION :: nat where "CONFIG_MAX_PATH_RECURSION = 32"
definition PATHRES_FLAG_NOSYMLINK :: u32 where "PATHRES_FLAG_NOSYMLINK = 1"
definition PATHRES_FLAG_PARENT :: u32 where "PATHRES_FLAG_PARENT = 2"
definition MODE_READ :: u32 where "MODE_READ = 4"
definition MODE_WRITE :: u32 where "MODE_WRITE = 2"
definition MODE_EXEC :: u32 where "MODE_EXEC = 1"

section \<open>Strings\<close>

definition strchrnul :: "string \<Rightarrow> nat \<Rightarrow> char \<Rightarrow> nat" where
  "strchrnul s i c = i + length (takeWhile (\<lambda>x. x \<noteq> c) (drop i s))"

text \<open>The string that a buffer holds: its characters up to the terminator.\<close>

definition c_string :: "string \<Rightarrow> string" where
  "c_string b = takeWhile (\<lambda>c. c \<noteq> CHR 0x00) b"

section \<open>Calls of the driver\<close>

definition ifs_find_dirent :: "vfs_env \<Rightarrow> fs_st \<Rightarrow> addr \<Rightarrow> string \<Rightarrow> errno + u32" where
  "ifs_find_dirent env st inode name =
     (case op_find_dirent env (device_id (inos st) inode) of None \<Rightarrow> Inl ENOTSUP | Some find_op \<Rightarrow> find_op st inode name)"

definition ifs_read :: "vfs_env \<Rightarrow> fs_st \<Rightarrow> addr \<Rightarrow> u32 \<Rightarrow> u32 \<Rightarrow> errno option \<times> string" where
  "ifs_read env st inode file_offset len =
     (case op_read_inode env (device_id (inos st) inode) of None \<Rightarrow> (Some ENOTSUP, []) | Some read_op \<Rightarrow> read_op st inode file_offset len)"

definition vfs_find_dirent :: "vfs_env \<Rightarrow> addr \<Rightarrow> string \<Rightarrow> fs_st \<Rightarrow> (errno + u32) exec" where
  "vfs_find_dirent env inode name st =
     (if inode = NULL then Inl Assert_Failed
      else if inode \<notin> live (inos st) then Inl Use_After_Free
      else if \<not> vfs_have_permissions (e_creds env) (fnodes st inode) MODE_EXEC then Inr (Inl EACCES)
      else Inr (ifs_find_dirent env st inode name))"

text \<open>
  The lock of an inode.  Nobody else runs during a call, so a process that has to wait for a lock does not return:
  the value \<^term>\<open>None\<close>.
\<close>

definition inode_down :: "addr \<Rightarrow> fs_st \<Rightarrow> fs_st exec option" where
  "inode_down inode st =
     (if inode \<notin> live (inos st) then Some (Inl Use_After_Free)
      else case semaphore_try_down (f_lock (fnodes st inode)) of
             (True, s) \<Rightarrow> Some (Inr (st\<lparr>fnodes := (fnodes st)(inode := (fnodes st inode)\<lparr>f_lock := s\<rparr>)\<rparr>))
           | (False, s) \<Rightarrow> None)"

definition inode_up :: "addr \<Rightarrow> fs_st \<Rightarrow> fs_st exec option" where
  "inode_up inode st =
     (if inode \<notin> live (inos st) then Some (Inl Use_After_Free)
      else Some (Inr (st\<lparr>fnodes := (fnodes st)(inode := (fnodes st inode)\<lparr>f_lock := semaphore_up (f_lock (fnodes st inode))\<rparr>)\<rparr>)))"

text \<open>\<^verbatim>\<open>vfs_inode_ref\<close> and \<^verbatim>\<open>vfs_inode_release\<close> on the whole state.\<close>

definition inode_ref :: "addr \<Rightarrow> fs_st \<Rightarrow> (addr \<times> fs_st) exec option" where
  "inode_ref inode st = xbind (Some (vfs_inode_ref (inos st) inode)) (\<lambda>(i, ic). Some (Inr (i, st\<lparr>inos := ic\<rparr>)))"

definition inode_release :: "vfs_env \<Rightarrow> addr \<Rightarrow> fs_st \<Rightarrow> fs_st exec option" where
  "inode_release env inode st =
     xbind (Some (vfs_inode_release (e_store env) (inos st) inode)) (\<lambda>ic. Some (Inr (st\<lparr>inos := ic\<rparr>)))"

text \<open>The result is the status and what was read into the buffer.\<close>

definition vfs_readlink :: "vfs_env \<Rightarrow> addr \<Rightarrow> u32 \<Rightarrow> fs_st \<Rightarrow> ((errno option \<times> string) \<times> fs_st) exec option" where
  "vfs_readlink env inode0 sz st =
     (if inode0 = NULL then Some (Inl Assert_Failed)
      else xbind (inode_ref inode0 st) (\<lambda>(inode, st1).
           xbind (inode_down inode st1) (\<lambda>st2.
             if \<not> vfs_have_permissions (e_creds env) (fnodes st2 inode) MODE_READ
             then xbind (inode_up inode st2) (\<lambda>st3. xbind (inode_release env inode st3) (\<lambda>st4. Some (Inr ((Some EACCES, []), st4))))
             else if \<not> S_ISLNK (i_mode (fnodes st2 inode))
             then xbind (inode_up inode st2) (\<lambda>st3. xbind (inode_release env inode st3) (\<lambda>st4. Some (Inr ((Some EINVAL, []), st4))))
             else let sz' = (if f_size (fnodes st2 inode) < sz then f_size (fnodes st2 inode) else sz);
                      (status, dat) = ifs_read env st2 inode 0 sz';
                      st3 = (if dat \<noteq> [] then st2\<lparr>fnodes := (fnodes st2)(inode := (fnodes st2 inode)\<lparr>f_atime := e_time env\<rparr>)\<rparr> else st2) in
                  xbind (inode_up inode st3) (\<lambda>st4. xbind (inode_release env inode st4) (\<lambda>st5. Some (Inr ((status, dat), st5)))))))"

section \<open>The resolver\<close>

type_synonym resolver = "addr \<Rightarrow> string \<Rightarrow> fs_st \<Rightarrow> ((errno + addr) \<times> fs_st) exec option"

text \<open>Cleaning up and failing: the entries that were held are released in order.\<close>

fun release_all :: "vfs_env \<Rightarrow> addr list \<Rightarrow> errno \<Rightarrow> fs_st \<Rightarrow> ((errno + 'a) \<times> fs_st) exec option" where
  "release_all env [] status st = Some (Inr (Inl status, st))"
| "release_all env (d # ds) status st = xbind (vfs_dir_cache_release (e_store env) d st) (release_all env ds status)"

text \<open>
  The new entry \<open>newc\<close> in \<open>dirc\<close> is a link that is to be followed.  The result is the entry it leads to.
\<close>

definition follow_link :: "resolver \<Rightarrow> vfs_env \<Rightarrow> addr \<Rightarrow> addr \<Rightarrow> fs_st \<Rightarrow> ((errno + addr) \<times> fs_st) exec option" where
  "follow_link resolve env dirc newc st =
     xbind (Some (dirc_inode newc st)) (\<lambda>parent.
       let sz = f_size (fnodes st parent) in
       if CONFIG_FILE_MAX_NAME_LENGTH \<le> unat sz then release_all env [newc, dirc] ENAMETOOLONG st
       else case e_buf env (unat sz + 1) st of
              None \<Rightarrow> release_all env [newc, dirc] ENOMEM st
            | Some target \<Rightarrow>
                xbind (vfs_readlink env parent sz st) (\<lambda>((status, dat), st1).
                  case status of
                    Some s \<Rightarrow> release_all env [newc, dirc] s st1
                  | None \<Rightarrow>
                      let target = c_string ((mem_write target 0 dat)[unat (f_size (fnodes st1 parent)) := CHR 0x00]) in
                      xbind (inode_ref parent st1) (\<lambda>(lnk, st2).
                      xbind (vfs_dir_cache_release (e_store env) newc st2) (\<lambda>st3.
                      xbind (resolve dirc target st3) (\<lambda>(r, st4).
                      xbind (inode_release env lnk st4) (\<lambda>st5.
                        case r of
                          Inl s \<Rightarrow> release_all env [dirc] s st5
                        | Inr newc' \<Rightarrow> Some (Inr (Inr newc', st5))))))))"

datatype step = Done "errno + addr" | Next addr

text \<open>A name: look it up in the directory \<open>dirc\<close>.  \<open>final\<close> tells whether it is the last element.\<close>

definition find_name :: "resolver \<Rightarrow> vfs_env \<Rightarrow> u32 \<Rightarrow> string \<Rightarrow> bool \<Rightarrow> addr \<Rightarrow> fs_st \<Rightarrow> (step \<times> fs_st) exec option" where
  "find_name resolve env flags name final dirc st =
     (if flag flags PATHRES_FLAG_PARENT \<and> final then Some (Inr (Done (Inr dirc), st))
      else if CONFIG_FILE_MAX_NAME_LENGTH \<le> length name then Some (Inl Out_Of_Bounds)
      else xbind (Some (dirc_inode dirc st)) (\<lambda>parent.
           xbind (Some (vfs_find_dirent env parent name st)) (\<lambda>r.
             case r of
               Inl status \<Rightarrow> xbind (release_all env [dirc] status st) (\<lambda>(r, st). Some (Inr (Done r, st)))
             | Inr inode_id \<Rightarrow>
                 xbind (vfs_dir_cache_new env dirc inode_id st) (\<lambda>(r, st1).
                   case r of
                     Inl status \<Rightarrow> xbind (release_all env [dirc] status st1) (\<lambda>(r, st). Some (Inr (Done r, st)))
                   | Inr newc \<Rightarrow>
                       xbind (Some (dirc_inode newc st1)) (\<lambda>parent.
                       xbind (if S_ISLNK (i_mode (fnodes st1 parent)) \<and> \<not> (final \<and> flag flags PATHRES_FLAG_NOSYMLINK)
                              then follow_link resolve env dirc newc st1
                              else Some (Inr (Inr newc, st1))) (\<lambda>(r, st2).
                         case r of
                           Inl status \<Rightarrow> Some (Inr (Done (Inl status), st2))
                         | Inr newc \<Rightarrow>
                             xbind (vfs_dir_cache_release (e_store env) dirc st2) (\<lambda>st3. Some (Inr (Next newc, st3))))))))) "

text \<open>
  One round of the loop up to the point where \<^verbatim>\<open>remaining_path\<close> advances.  \<^verbatim>\<open>element_count\<close> is never incremented, so
  every empty element starts again at the root directory.
\<close>

definition find_element :: "resolver \<Rightarrow> vfs_env \<Rightarrow> string \<Rightarrow> u32 \<Rightarrow> nat \<Rightarrow> nat \<Rightarrow> addr \<Rightarrow> fs_st \<Rightarrow> (step \<times> fs_st) exec option" where
  "find_element resolve env path flags element_count remaining_path dirc st =
     (let separator = strchrnul path remaining_path (CHR ''/'');
          end_of_path = length path;
          element_size = separator - remaining_path;
          element = take element_size (drop remaining_path path) in
      if element_count = 0 \<and> element_size = 0
      then xbind (vfs_dir_cache_release (e_store env) dirc st) (\<lambda>st1.
           xbind (Some (vfs_dir_cache_ref (e_root env) st1)) (\<lambda>(d, st2). Some (Inr (Next d, st2))))
      else if element_size = 0
      then if end_of_path \<le> separator + 2 then Some (Inr (Done (Inr dirc), st)) else Some (Inr (Next dirc, st))
      else if element = ''..''
      then (case dircs st dirc of
              None \<Rightarrow> Some (Inl Use_After_Free)
            | Some d \<Rightarrow>
                xbind (Some (vfs_dir_cache_ref (dc_parent d) st)) (\<lambda>(newc, st1).
                  if newc \<noteq> dirc
                  then xbind (vfs_dir_cache_release (e_store env) dirc st1) (\<lambda>st2. Some (Inr (Next newc, st2)))
                  else xbind (vfs_dir_cache_release (e_store env) newc st1) (\<lambda>st2. Some (Inr (Next dirc, st2)))))
      else if element = ''.'' then Some (Inr (Next dirc, st))
      else find_name resolve env flags element (end_of_path \<le> separator + 1) dirc st)"

function path_loop :: "resolver \<Rightarrow> vfs_env \<Rightarrow> string \<Rightarrow> u32 \<Rightarrow> nat \<Rightarrow> nat \<Rightarrow> addr \<Rightarrow> fs_st \<Rightarrow> ((errno + addr) \<times> fs_st) exec option" where
  "path_loop resolve env path flags element_count remaining_path dirc st =
     xbind (find_element resolve env path flags element_count remaining_path dirc st) (\<lambda>(s, st1).
       case s of
         Done r \<Rightarrow> Some (Inr (r, st1))
       | Next dirc \<Rightarrow>
           let remaining_path' = strchrnul path remaining_path (CHR ''/'') + 1 in
           if length path \<le> remaining_path'
           then if flag flags PATHRES_FLAG_PARENT then Some (Inr (Inl EINVAL, st1)) else Some (Inr (Inr dirc, st1))
           else xbind (Some (dirc_inode dirc st1)) (\<lambda>parent.
                  if \<not> S_ISDIR (i_mode (fnodes st1 parent)) then release_all env [dirc] ENOTDIR st1
                  else path_loop resolve env path flags element_count remaining_path' dirc st1))"
  by pat_completeness auto
termination
  by (relation "measure (\<lambda>(r, env, path, flags, n, i, d, st). length path - i)")
    (auto simp: Let_def strchrnul_def)

text \<open>\<^verbatim>\<open>_vfs_find_dirc_at\<close>.\<close>

function vfs_find_dirc_rec :: "vfs_env \<Rightarrow> nat \<Rightarrow> u32 \<Rightarrow> addr \<Rightarrow> string \<Rightarrow> fs_st \<Rightarrow> ((errno + addr) \<times> fs_st) exec option" where
  "vfs_find_dirc_rec env recurse_level flags curdir path st =
     xbind (Some (vfs_dir_cache_ref curdir st)) (\<lambda>(dirc, st1).
       if recurse_level > CONFIG_MAX_PATH_RECURSION then release_all env [dirc] ELOOP st1
       else if path = '''' then release_all env [dirc] ENOENT st1
       else case e_buf env CONFIG_FILE_MAX_NAME_LENGTH st1 of
              None \<Rightarrow> release_all env [dirc] ENOMEM st1
            | Some path_element \<Rightarrow>
                path_loop (vfs_find_dirc_rec env (recurse_level + 1) 0) env path flags 0 0 dirc st1)"
  by pat_completeness auto
termination
  by (relation "measure (\<lambda>(env, l, flags, d, path, st). CONFIG_MAX_PATH_RECURSION + 1 - l)") auto

declare path_loop.simps [simp del] vfs_find_dirc_rec.simps [simp del]

definition vfs_find_dirc_at :: "vfs_env \<Rightarrow> addr \<Rightarrow> string \<Rightarrow> fs_st \<Rightarrow> ((errno + addr) \<times> fs_st) exec option" where
  "vfs_find_dirc_at env curdir path = vfs_find_dirc_rec env 0 0 curdir path"

definition vfs_find_dirc :: "vfs_env \<Rightarrow> string \<Rightarrow> fs_st \<Rightarrow> ((errno + addr) \<times> fs_st) exec option" where
  "vfs_find_dirc env path = vfs_find_dirc_at env (e_cwd env) path"

definition vfs_find_dirc_symlink_at :: "vfs_env \<Rightarrow> addr \<Rightarrow> string \<Rightarrow> fs_st \<Rightarrow> ((errno + addr) \<times> fs_st) exec option" where
  "vfs_find_dirc_symlink_at env curdir path = vfs_find_dirc_rec env 0 PATHRES_FLAG_NOSYMLINK curdir path"

definition vfs_find_dirc_symlink :: "vfs_env \<Rightarrow> string \<Rightarrow> fs_st \<Rightarrow> ((errno + addr) \<times> fs_st) exec option" where
  "vfs_find_dirc_symlink env path = vfs_find_dirc_symlink_at env (e_cwd env) path"

definition vfs_find_dirc_parent_at :: "vfs_env \<Rightarrow> addr \<Rightarrow> string \<Rightarrow> fs_st \<Rightarrow> ((errno + addr) \<times> fs_st) exec option" where
  "vfs_find_dirc_parent_at env curdir path = vfs_find_dirc_rec env 0 PATHRES_FLAG_PARENT curdir path"

definition vfs_find_dirc_parent :: "vfs_env \<Rightarrow> string \<Rightarrow> fs_st \<Rightarrow> ((errno + addr) \<times> fs_st) exec option" where
  "vfs_find_dirc_parent env path = vfs_find_dirc_parent_at env (e_cwd env) path"

text \<open>The inode behind the result of a lookup, with a reference of its own.\<close>

definition inode_of :: "vfs_env \<Rightarrow> (errno + addr) \<times> fs_st \<Rightarrow> ((errno + addr) \<times> fs_st) exec option" where
  "inode_of env = (\<lambda>(r, st).
     case r of
       Inl status \<Rightarrow> Some (Inr (Inl status, st))
     | Inr dirc \<Rightarrow>
         xbind (Some (dirc_inode dirc st)) (\<lambda>i.
         xbind (inode_ref i st) (\<lambda>(inode, st1).
         xbind (vfs_dir_cache_release (e_store env) dirc st1) (\<lambda>st2. Some (Inr (Inr inode, st2))))))"

definition vfs_find_parent :: "vfs_env \<Rightarrow> string \<Rightarrow> fs_st \<Rightarrow> ((errno + addr) \<times> fs_st) exec option" where
  "vfs_find_parent env path st = xbind (vfs_find_dirc_parent env path st) (inode_of env)"

definition vfs_find_inode :: "vfs_env \<Rightarrow> string \<Rightarrow> fs_st \<Rightarrow> ((errno + addr) \<times> fs_st) exec option" where
  "vfs_find_inode env path st = xbind (vfs_find_dirc env path st) (inode_of env)"

definition vfs_find_symlink :: "vfs_env \<Rightarrow> string \<Rightarrow> fs_st \<Rightarrow> ((errno + addr) \<times> fs_st) exec option" where
  "vfs_find_symlink env path st = xbind (vfs_find_dirc_symlink env path st) (inode_of env)"

section \<open>File names\<close>

definition strrchr :: "string \<Rightarrow> char \<Rightarrow> nat option" where
  "strrchr s c = (if c \<in> set s then Some (length s - 1 - length (takeWhile (\<lambda>x. x \<noteq> c) (rev s))) else None)"

definition vfs_get_filename :: "vfs_env \<Rightarrow> string \<Rightarrow> fs_st \<Rightarrow> errno + string" where
  "vfs_get_filename env path st =
     (if 1023 < length path then Inl ENAMETOOLONG
      else if e_buf env (length path + 1) st = None then Inl ENOMEM
      else let separator = strrchr path (CHR ''/'');
               (pathcopy, separator) =
                 (if path \<noteq> '''' \<and> separator = Some (length path - 1)
                  then (butlast path, strrchr (butlast path) (CHR ''/'')) else (path, separator));
               name = (case separator of None \<Rightarrow> pathcopy | Some i \<Rightarrow> drop (i + 1) pathcopy) in
           if e_buf env (length name + 1) st = None then Inl ENOMEM else Inr name)"

section \<open>What the resolver should find\<close>

text \<open>
  A walk through the tree of files.  A place is the list of the files from there up to the root.  \<open>R\<close> is the root
  directory of the process.
\<close>

function elements :: "string \<Rightarrow> string list" where
  "elements p =
     (let e = takeWhile (\<lambda>c. c \<noteq> CHR ''/'') p; r = drop (length e + 1) p in if r = [] then [e] else e # elements r)"
  by pat_completeness auto
termination
  by (relation "measure length") auto

declare elements.simps [simp del]

text \<open>Following the link \<open>k\<close> at the place \<open>ks\<close>.\<close>

definition link_goal :: "tree \<Rightarrow> creds \<Rightarrow> (key list \<Rightarrow> string \<Rightarrow> errno + key list) \<Rightarrow> key \<Rightarrow> key list \<Rightarrow> errno + key list" where
  "link_goal T p jump k ks =
     (if CONFIG_FILE_MAX_NAME_LENGTH \<le> unat (t_size T k) then Inl ENAMETOOLONG
      else if \<not> vfs_have_permissions p (t_node T k) MODE_READ then Inl EACCES
      else jump ks (c_string (take (unat (t_size T k)) (t_link T k))))"

definition walk_element :: "(key list \<Rightarrow> string \<Rightarrow> errno + key list) \<Rightarrow> tree \<Rightarrow> creds \<Rightarrow> key list \<Rightarrow> u32 \<Rightarrow> string \<Rightarrow> bool \<Rightarrow> key list \<Rightarrow>
    errno + key list" where
  "walk_element jump T p R flags e final ks =
     (if e = '''' then Inr R
      else if e = ''..'' then Inr (if tl ks = [] then ks else tl ks)
      else if e = ''.'' then Inr ks
      else if \<not> vfs_have_permissions p (t_node T (hd ks)) MODE_EXEC then Inl EACCES
      else case t_find T (hd ks) e of
             Inl s \<Rightarrow> Inl s
           | Inr n \<Rightarrow>
               let k = t_eff T (n, snd (hd ks)) in
               if S_ISLNK (i_mode (t_node T k)) \<and> \<not> (final \<and> flag flags PATHRES_FLAG_NOSYMLINK)
               then link_goal T p jump k ks
               else Inr (k # ks))"

fun walk :: "(key list \<Rightarrow> string \<Rightarrow> errno + key list) \<Rightarrow> tree \<Rightarrow> creds \<Rightarrow> key list \<Rightarrow> u32 \<Rightarrow> string list \<Rightarrow> key list \<Rightarrow> errno + key list" where
  "walk jump T p R flags [] ks = Inr ks"
| "walk jump T p R flags (e # es) ks =
     (if flag flags PATHRES_FLAG_PARENT \<and> es = [] then
        if e \<in> {'''', ''.'', ''..''} then Inl EINVAL else Inr ks
      else case walk_element jump T p R flags e (es = []) ks of
             Inl s \<Rightarrow> Inl s
           | Inr ks' \<Rightarrow>
               if es = [] then Inr ks'
               else if \<not> S_ISDIR (i_mode (t_node T (hd ks'))) then Inl ENOTDIR
               else walk jump T p R flags es ks')"

function resolve_path :: "tree \<Rightarrow> creds \<Rightarrow> key list \<Rightarrow> nat \<Rightarrow> u32 \<Rightarrow> key list \<Rightarrow> string \<Rightarrow> errno + key list" where
  "resolve_path T p R level flags ks path =
     (if level > CONFIG_MAX_PATH_RECURSION then Inl ELOOP
      else if path = '''' then Inl ENOENT
      else walk (resolve_path T p R (level + 1) 0) T p R flags (elements path) ks)"
  by pat_completeness auto
termination
  by (relation "measure (\<lambda>(T, p, R, l, flags, ks, path). CONFIG_MAX_PATH_RECURSION + 1 - l)") auto

declare resolve_path.simps [simp del]

section \<open>The calls on the state\<close>

text \<open>What the driver and the heap promise besides \<open>env_ok\<close>.\<close>

definition driver_ok :: "tree \<Rightarrow> errno set \<Rightarrow> vfs_env \<Rightarrow> bool" where
  "driver_ok T IO env \<longleftrightarrow> env_ok T IO env \<and>
     (\<forall>st e name. e \<in> live (inos st) \<longrightarrow> ifs_find_dirent env st e name = t_find T (ino_key (inos st) e) name) \<and>
     (\<forall>st e n. e \<in> live (inos st) \<longrightarrow>
        (case ifs_read env st e 0 n of
           (None, dat) \<Rightarrow> dat = take (unat n) (t_link T (ino_key (inos st) e))
         | (Some s, dat) \<Rightarrow> s \<in> IO)) \<and>
     (\<forall>k. S_ISLNK (i_mode (t_node T k)) \<longrightarrow> unat (t_size T k) \<le> length (t_link T k)) \<and>
     (\<forall>n st b. e_buf env n st = Some b \<longrightarrow> length b = n)"

lemma driver_okD:
  assumes "driver_ok T IO env"
  shows "env_ok T IO env" "e \<in> live (inos st) \<Longrightarrow> ifs_find_dirent env st e name = t_find T (ino_key (inos st) e) name"
    "e \<in> live (inos st) \<Longrightarrow> ifs_read env st e 0 n = (status, dat) \<Longrightarrow>
       (case status of None \<Rightarrow> dat = take (unat n) (t_link T (ino_key (inos st) e)) | Some s \<Rightarrow> s \<in> IO)"
    "e_buf env m st = Some b \<Longrightarrow> length b = m" "S_ISLNK (i_mode (t_node T k)) \<Longrightarrow> unat (t_size T k) \<le> length (t_link T k)"
  using assms unfolding driver_ok_def by (blast, blast, (metis (no_types, lifting) case_prod_conv), blast, blast)

lemma chain_frame:
  assumes "chain st d ks" "dircs st' = dircs st" "ino_key (inos st') = ino_key (inos st)"
  shows "chain st' d ks"
  using assms(1)
proof (induction rule: chain.induct)
  case (top d x)
  then show ?case using chain.top [of st' d x] assms(2,3) by simp
next
  case (sub d x ks)
  then show ?case using chain.sub [of st' d x ks] assms(2,3) by simp
qed

lemma tree_ok_fnodes:
  assumes t: "tree_ok T st mr"
    and fn: "\<And>e. e \<in> live (inos st) \<Longrightarrow> node_ok T (ino_key (inos st) e) (fn e) \<and> f_mount (fn e) = f_mount (fnodes st e)"
  shows "tree_ok T (st\<lparr>fnodes := fn\<rparr>) mr"
proof -
  have "mount_ok T (inos st) mr (ino_key (inos st) e) (fn e)" if "e \<in> live (inos st)" for e
  proof -
    have "mount_ok T (inos st) mr (ino_key (inos st) e) (fnodes st e)" using t that unfolding tree_ok_def by blast
    then show ?thesis using fn [OF that] unfolding mount_ok_def by (auto split: option.splits)
  qed
  then show ?thesis using t fn unfolding tree_ok_def by simp
qed

lemma fs_ok_fnodes:
  assumes fs: "fs_ok T mr st dr ir"
    and fn: "\<And>e. e \<in> live (inos st) \<Longrightarrow> node_ok T (ino_key (inos st) e) (fn e) \<and> f_mount (fn e) = f_mount (fnodes st e)"
  shows "fs_ok T mr (st\<lparr>fnodes := fn\<rparr>) dr ir"
proof -
  have "dcache_ok (st\<lparr>inos := inos st, fnodes := fn, pipes := pipes st\<rparr>) dr ir"
    using fs by (intro dcache_ok_inos dcache_okD(2)) (auto simp: fs_ok_def)
  moreover have "tree_ok T (st\<lparr>fnodes := fn\<rparr>) mr" by (rule tree_ok_fnodes [OF _ fn]) (use fs in \<open>auto simp: fs_ok_def\<close>)
  ultimately show ?thesis using fs by (simp add: fs_ok_def)
qed

text \<open>One more reference.\<close>

definition inc :: "(addr \<Rightarrow> nat) \<Rightarrow> addr \<Rightarrow> addr \<Rightarrow> nat" where
  "inc r a = r(a := r a + 1)"

lemma inc_simps [simp]:
  "0 < inc r a a" "r e \<le> inc r a e" "inc r a e \<le> r e + 1"
  by (auto simp: inc_def)

lemma inc_dec: "(inc r a)(a := inc r a a - 1) = r"
  by (auto simp: inc_def)

lemma inc_pos [intro]: "0 < r d \<Longrightarrow> 0 < inc r a d"
  by (simp add: inc_def)

lemma inc_commute: "inc (inc r a) b = inc (inc r b) a"
  by (auto simp: inc_def)

lemma few_inc: "few (Suc k) dr ir \<Longrightarrow> few k (inc dr a) ir" "few (Suc k) dr ir \<Longrightarrow> few k dr (inc ir a)"
  unfolding inc_def by (rule few_step, assumption)+

lemma inode_ref_fs:
  assumes fs: "fs_ok T mr st dr ir" and d: "dircs st d = Some x" and few: "few k dr ir"
  shows "\<exists>ic. inode_ref (dc_inode x) st = Some (Inr (dc_inode x, st\<lparr>inos := ic\<rparr>)) \<and> same_keys (inos st) ic
    \<and> fs_ok T mr (st\<lparr>inos := ic\<rparr>) dr (inc ir (dc_inode x))"
proof -
  let ?i = "dc_inode x"
  have ok: "dcache_ok st dr ir" "tree_ok T st mr" "card (dom (dircs st)) \<le> 2 ^ 30" "\<And>e. mr e \<le> ir e" using fs by (auto simp: fs_ok_def)
  have p: "0 < ir ?i + card (users st ?i)" using dcache_okD(4) [OF ok(1) d] by simp
  have b: "ir ?i + card (users st ?i) < 2 ^ 32 - 1" by (rule few_inodes [OF ok(1,3) few]) simp
  from ino.take_ok [OF dcache_okD(2) [OF ok(1)] p b] obtain ic where ic: "vfs_inode_ref (inos st) ?i = Inr (?i, ic)"
    "client_inv (ic, (\<lambda>e. ir e + card (users st e))(?i := ir ?i + card (users st ?i) + 1))" by blast
  have k: "same_keys (inos st) ic" by (rule cache_op_keys(1) [OF ic(1)])
  have "dcache_ok (st\<lparr>inos := ic, fnodes := fnodes st, pipes := pipes st\<rparr>) dr (inc ir ?i)"
    using ic(2) unfolding inc_def by (intro dcache_ok_inos [OF ok(1)]) (simp only: add_ref)
  moreover have "tree_ok T (st\<lparr>inos := ic\<rparr>) mr" by (rule tree_ok_keys [OF ok(2)]) (use k in auto)
  moreover have "mr e \<le> inc ir ?i e" for e using le_trans [OF ok(4) [of e] inc_simps(2) [of ir e ?i]] .
  ultimately show ?thesis using ic(1) k ok(3) by (intro exI [of _ ic]) (simp add: inode_ref_def fs_ok_def)
qed

lemma inode_release_fs:
  assumes fs: "fs_ok T mr st dr (inc ir i)" and mr: "\<And>e. mr e \<le> ir e"
  shows "\<exists>ic. inode_release env i st = Some (Inr (st\<lparr>inos := ic\<rparr>)) \<and> same_keys (inos st) ic \<and> fs_ok T mr (st\<lparr>inos := ic\<rparr>) dr ir"
proof -
  have ok: "dcache_ok st dr (inc ir i)" "tree_ok T st mr" "card (dom (dircs st)) \<le> 2 ^ 30" using fs by (auto simp: fs_ok_def)
  have "0 < inc ir i i + card (users st i)" by simp
  from ino.drop_ok [OF dcache_okD(2) [OF ok(1)] this, of "e_store env"] obtain ic where
    ic: "vfs_inode_release (e_store env) (inos st) i = Inr ic"
      "client_inv (ic, (\<lambda>e. inc ir i e + card (users st e))(i := inc ir i i + card (users st i) - 1))" by blast
  have k: "same_keys (inos st) ic" by (rule cache_op_keys(2) [OF ic(1)])
  have "(\<lambda>e. inc ir i e + card (users st e))(i := inc ir i i + card (users st i) - 1) = (\<lambda>e. ir e + card (users st e))"
    by (auto simp: inc_def)
  then have "dcache_ok (st\<lparr>inos := ic, fnodes := fnodes st, pipes := pipes st\<rparr>) dr ir"
    using ic(2) by (intro dcache_ok_inos [OF ok(1)]) simp
  moreover have "tree_ok T (st\<lparr>inos := ic\<rparr>) mr" by (rule tree_ok_keys [OF ok(2)]) (use k in auto)
  ultimately show ?thesis using ic(1) k ok(3) mr by (intro exI [of _ ic]) (simp add: inode_release_def fs_ok_def)
qed

lemma perm_node: "node_ok T k f \<Longrightarrow> vfs_have_permissions p f m = vfs_have_permissions p (t_node T k) m"
  by (simp add: node_ok_def vfs_have_permissions_def vfs_get_min_permissions_def)

lemma node_fs: "fs_ok T mr st dr ir \<Longrightarrow> e \<in> live (inos st) \<Longrightarrow> node_ok T (ino_key (inos st) e) (fnodes st e)"
  by (auto simp: fs_ok_def tree_ok_def)

text \<open>Reading a link that an entry refers to.\<close>

lemma readlink_ok:
  assumes env: "driver_ok T IO env" and fs: "fs_ok T mr st dr ir" and d: "dircs st d = Some x" and few: "few k dr ir"
    and lnk: "S_ISLNK (i_mode (fnodes st (dc_inode x)))"
  defines "i \<equiv> dc_inode x" and "ky \<equiv> ino_key (inos st) (dc_inode x)"
  shows "\<exists>status dat st'. vfs_readlink env i (f_size (fnodes st i)) st = Some (Inr ((status, dat), st'))
    \<and> fs_ok T mr st' dr ir \<and> dircs st' = dircs st \<and> ino_key (inos st') = ino_key (inos st) \<and> f_size (fnodes st' i) = f_size (fnodes st i)
    \<and> (case status of
         None \<Rightarrow> vfs_have_permissions (e_creds env) (t_node T ky) MODE_READ \<and> length dat = unat (t_size T ky)
           \<and> dat = take (unat (t_size T ky)) (t_link T ky)
       | Some s \<Rightarrow> s \<in> IO \<or> s = EACCES \<and> \<not> vfs_have_permissions (e_creds env) (t_node T ky) MODE_READ)"
proof -
  have ok: "dcache_ok st dr ir" using fs by (simp add: fs_ok_def)
  have lv: "i \<in> live (inos st)" "i \<noteq> NULL" using entry_live [OF ok d] by (simp_all add: i_def)
  have nd: "node_ok T ky (fnodes st i)" using node_fs [OF fs lv(1)] by (simp add: ky_def i_def)
  from inode_ref_fs [OF fs d few] obtain ic where ic: "inode_ref i st = Some (Inr (i, st\<lparr>inos := ic\<rparr>))" "same_keys (inos st) ic"
    "fs_ok T mr (st\<lparr>inos := ic\<rparr>) dr (inc ir i)" unfolding i_def by blast
  have lv1: "i \<in> live ic" using held_live [of "st\<lparr>inos := ic\<rparr>" dr "inc ir i" i] ic(3) by (simp add: fs_ok_def)
  have k1: "ino_key ic = ino_key (inos st)" using ic(2) by (simp add: same_keys_def)
  define f where "f = fnodes st i"
  have lm: "S_ISLNK (i_mode f)" using lnk by (simp add: f_def i_def)
  have lock: "f_lock f = 1" using nd lnk by (simp add: node_ok_def f_def i_def)
  let ?st2 = "st\<lparr>inos := ic, fnodes := (fnodes st)(i := f\<lparr>f_lock := 0\<rparr>)\<rparr>"
  have down: "inode_down i (st\<lparr>inos := ic\<rparr>) = Some (Inr ?st2)"
    using lv1 lock by (simp add: inode_down_def semaphore_try_down_def f_def)
  obtain status dat where rd: "ifs_read env ?st2 i 0 (f_size f) = (status, dat)" by (cases "ifs_read env ?st2 i 0 (f_size f)")
  have lv2: "i \<in> live (inos ?st2)" using lv1 by simp
  have sz: "f_size f = t_size T ky" "ino_key (inos ?st2) i = ky" using nd k1 by (simp_all add: f_def node_ok_def ky_def i_def)
  have drv: "case status of None \<Rightarrow> length dat = unat (t_size T ky) \<and> dat = take (unat (t_size T ky)) (t_link T ky) | Some s \<Rightarrow> s \<in> IO"
    using driver_okD(3) [OF env lv2 rd] driver_okD(5) [OF env, of ky] lm nd unfolding sz
    by (simp add: node_ok_def f_def split: option.splits)
  have fin: "\<exists>ic'. inode_release env i (st\<lparr>inos := ic, fnodes := (fnodes st)(i := f\<lparr>f_lock := 1, f_atime := t\<rparr>)\<rparr>)
      = Some (Inr (st\<lparr>inos := ic, fnodes := (fnodes st)(i := f\<lparr>f_lock := 1, f_atime := t\<rparr>)\<rparr>\<lparr>inos := ic'\<rparr>)) \<and> same_keys ic ic'
    \<and> fs_ok T mr (st\<lparr>inos := ic, fnodes := (fnodes st)(i := f\<lparr>f_lock := 1, f_atime := t\<rparr>)\<rparr>\<lparr>inos := ic'\<rparr>) dr ir" for t
  proof -
    let ?fn = "(fnodes st)(i := f\<lparr>f_lock := 1, f_atime := t\<rparr>)"
    have n: "node_ok T (ino_key ic e) (?fn e) \<and> f_mount (?fn e) = f_mount (fnodes st e)" if "e \<in> live ic" for e
      using node_fs [OF ic(3)] that lock by (auto simp: f_def node_ok_def)
    have "fs_ok T mr (st\<lparr>inos := ic, fnodes := ?fn\<rparr>) dr (inc ir i)"
      using fs_ok_fnodes [OF ic(3), of ?fn] n by simp
    then show ?thesis using inode_release_fs [of T mr "st\<lparr>inos := ic, fnodes := ?fn\<rparr>" dr ir i env] fs by (simp add: fs_ok_def)
  qed
  define t where "t = (if vfs_have_permissions (e_creds env) f MODE_READ \<and> dat \<noteq> [] then e_time env else f_atime f)"
  obtain ic' where ic': "inode_release env i (st\<lparr>inos := ic, fnodes := (fnodes st)(i := f\<lparr>f_lock := 1, f_atime := t\<rparr>)\<rparr>)
      = Some (Inr (st\<lparr>inos := ic, fnodes := (fnodes st)(i := f\<lparr>f_lock := 1, f_atime := t\<rparr>)\<rparr>\<lparr>inos := ic'\<rparr>))" "same_keys ic ic'"
    "fs_ok T mr (st\<lparr>inos := ic, fnodes := (fnodes st)(i := f\<lparr>f_lock := 1, f_atime := t\<rparr>)\<rparr>\<lparr>inos := ic'\<rparr>) dr ir" using fin by blast
  let ?st' = "st\<lparr>inos := ic, fnodes := (fnodes st)(i := f\<lparr>f_lock := 1, f_atime := t\<rparr>)\<rparr>\<lparr>inos := ic'\<rparr>"
  have pm: "vfs_have_permissions p (f\<lparr>f_lock := l\<rparr>) m = vfs_have_permissions p f m" "vfs_have_permissions p f m = vfs_have_permissions p (t_node T ky) m" for p m l
    using perm_node [OF nd] by (simp_all add: f_def vfs_have_permissions_def vfs_get_min_permissions_def)
  have cm: "g\<lparr>f_lock := a, f_atime := b\<rparr> = g\<lparr>f_atime := b, f_lock := a\<rparr>" for g :: fnode and a b by (cases g) simp
  have up: "inode_up i (st\<lparr>inos := ic, fnodes := (fnodes st)(i := g\<lparr>f_lock := 0\<rparr>)\<rparr>) = Some (Inr (st\<lparr>inos := ic, fnodes := (fnodes st)(i := g\<lparr>f_lock := 1\<rparr>)\<rparr>))" for g
    using lv1 by (simp add: inode_up_def semaphore_up_def)
  have rl: "vfs_readlink env i (f_size f) st = Some (Inr ((if vfs_have_permissions (e_creds env) f MODE_READ then (status, dat) else (Some EACCES, [])), ?st'))"
  proof (cases "vfs_have_permissions (e_creds env) f MODE_READ")
    case True
    then have "vfs_readlink env i (f_size f) st = xbind (inode_up i (if dat \<noteq> [] then st\<lparr>inos := ic, fnodes := (fnodes st)(i := f\<lparr>f_lock := 0, f_atime := e_time env\<rparr>)\<rparr> else ?st2))
        (\<lambda>st4. xbind (inode_release env i st4) (\<lambda>st5. Some (Inr ((status, dat), st5))))"
      using lv(2) ic(1) down lm rd by (simp add: vfs_readlink_def pm(1) Let_def)
    also have "inode_up i (if dat \<noteq> [] then st\<lparr>inos := ic, fnodes := (fnodes st)(i := f\<lparr>f_lock := 0, f_atime := e_time env\<rparr>)\<rparr> else ?st2)
        = Some (Inr (st\<lparr>inos := ic, fnodes := (fnodes st)(i := f\<lparr>f_lock := 1, f_atime := t\<rparr>)\<rparr>))"
      using True up [of f] up [of "f\<lparr>f_atime := e_time env\<rparr>"] by (simp add: t_def cm)
    finally show ?thesis using True ic'(1) by simp
  next
    case False
    then show ?thesis using lv(2) ic(1) down up [of f] ic'(1) by (simp add: vfs_readlink_def pm(1) t_def)
  qed
  have "ino_key ic' = ino_key (inos st)" using ic'(2) k1 by (simp add: same_keys_def)
  then show ?thesis using rl ic'(3) drv pm(2) by (simp add: f_def split: option.splits if_splits)
qed


lemma kept_trans: "chains_kept dr a b \<Longrightarrow> chains_kept dr b c \<Longrightarrow> chains_kept dr a c"
  by (auto simp: chains_kept_def)

lemma kept_inc: "chains_kept (inc dr d) a b \<Longrightarrow> chains_kept dr a b"
  unfolding chains_kept_def using inc_pos by blast

lemma kept_frame: "dircs b = dircs a \<Longrightarrow> ino_key (inos b) = ino_key (inos a) \<Longrightarrow> chains_kept dr a b"
  by (auto simp: chains_kept_def intro: chain_frame)

lemma release_inc:
  assumes "fs_ok T mr st (inc dr d) ir"
  shows "\<exists>st'. vfs_dir_cache_release drv d st = Some (Inr st') \<and> fs_ok T mr st' dr ir \<and> chains_kept dr st st'"
  using release_fs [OF assms inc_simps(1), of drv] unfolding inc_dec .

lemma ref_inc:
  assumes fs: "fs_ok T mr st dr ir" and ch: "chain st d ks" and few: "few k dr ir"
  shows "\<exists>st'. vfs_dir_cache_ref d st = Inr (d, st') \<and> fs_ok T mr st' (inc dr d) ir \<and> (\<forall>c cs. chain st c cs \<longrightarrow> chain st' c cs)"
proof -
  obtain x where "dircs st d = Some x" using chain_entry [OF ch] by blast
  from ref_fs [OF fs this few] show ?thesis unfolding inc_def by blast
qed

text \<open>
  What a lookup with the references \<open>dr\<close> and \<open>ir\<close> of its callers comes to: it returns; what the callers hold stays as it
  is; a result agrees with the walk through the tree and comes with one reference; an error is that of the walk,
  one of the device, or \<^const>\<open>ENOMEM\<close>.  If the parent of a file is sought and the path does not end in a name, a
  reference may be left behind.
\<close>

definition found :: "tree \<Rightarrow> (addr \<Rightarrow> nat) \<Rightarrow> errno set \<Rightarrow> (addr \<Rightarrow> nat) \<Rightarrow> (addr \<Rightarrow> nat) \<Rightarrow> fs_st \<Rightarrow> bool \<Rightarrow> errno + key list \<Rightarrow>
    ((errno + addr) \<times> fs_st) exec option \<Rightarrow> bool" where
  "found T mr IO dr ir st parent goal res \<longleftrightarrow>
     (\<exists>r st'. res = Some (Inr (r, st')) \<and> chains_kept dr st st' \<and>
        (case r of
           Inr d \<Rightarrow> fs_ok T mr st' (inc dr d) ir \<and> (\<exists>ks. goal = Inr ks \<and> chain st' d ks)
         | Inl s \<Rightarrow> (s \<in> insert ENOMEM IO \<or> goal = Inl s) \<and>
             (fs_ok T mr st' dr ir \<or> parent \<and> s = EINVAL \<and> (\<exists>d. fs_ok T mr st' (inc dr d) ir))))"

lemma foundE:
  assumes "found T mr IO dr ir st False goal res"
  obtains r st' where "res = Some (Inr (r, st'))" "chains_kept dr st st'"
    "case r of
       Inr d \<Rightarrow> fs_ok T mr st' (inc dr d) ir \<and> (\<exists>ks. goal = Inr ks \<and> chain st' d ks)
     | Inl s \<Rightarrow> (s \<in> insert ENOMEM IO \<or> goal = Inl s) \<and> fs_ok T mr st' dr ir"
proof -
  from assms obtain r st' where h: "res = Some (Inr (r, st'))" "chains_kept dr st st'"
    "case r of
       Inr d \<Rightarrow> fs_ok T mr st' (inc dr d) ir \<and> (\<exists>ks. goal = Inr ks \<and> chain st' d ks)
     | Inl s \<Rightarrow> (s \<in> insert ENOMEM IO \<or> goal = Inl s) \<and>
         (fs_ok T mr st' dr ir \<or> False \<and> s = EINVAL \<and> (\<exists>d. fs_ok T mr st' (inc dr d) ir))"
    unfolding found_def by blast
  show ?thesis by (rule that [OF h(1,2)]) (use h(3) in \<open>cases r; simp\<close>)
qed

lemma found_kept: "chains_kept dr st0 st \<Longrightarrow> found T mr IO dr ir st parent goal res \<Longrightarrow> found T mr IO dr ir st0 parent goal res"
  unfolding found_def using kept_trans by blast

lemma found_release:
  assumes fs: "fs_ok T mr st (inc dr d) ir" and kept: "chains_kept dr st0 st" and s: "s \<in> insert ENOMEM IO \<or> goal = Inl s"
  shows "found T mr IO dr ir st0 parent goal (release_all env [d] s st)"
proof -
  obtain st' where "vfs_dir_cache_release (e_store env) d st = Some (Inr st')" "fs_ok T mr st' dr ir" "chains_kept dr st st'"
    using release_inc [OF fs] by blast
  then show ?thesis using s kept_trans [OF kept] unfolding found_def by (intro exI [of _ "Inl s"] exI [of _ st']) simp
qed

text \<open>What a call of the resolver for the target of a link does.\<close>

definition jump_ok :: "tree \<Rightarrow> (addr \<Rightarrow> nat) \<Rightarrow> errno set \<Rightarrow> vfs_env \<Rightarrow> key list \<Rightarrow> nat \<Rightarrow> resolver \<Rightarrow> (key list \<Rightarrow> string \<Rightarrow> errno + key list) \<Rightarrow> bool" where
  "jump_ok T mr IO env R k resolve jump \<longleftrightarrow>
     (\<forall>st dr ir d ks t. fs_ok T mr st dr ir \<longrightarrow> few k dr ir \<longrightarrow> 0 < dr (e_root env) \<longrightarrow> chain st (e_root env) R \<longrightarrow> chain st d ks \<longrightarrow>
        length t < CONFIG_FILE_MAX_NAME_LENGTH \<longrightarrow> found T mr IO dr ir st False (jump ks t) (resolve d t st))"

lemma c_string_target:
  assumes "length b = n + 1" "length dat = n"
  shows "c_string ((mem_write b 0 dat)[n := CHR 0x00]) = c_string dat"
proof -
  have "mem_write b 0 dat = dat @ [b ! n]"
    using assms by (simp add: mem_write_def) (metis Cons_nth_drop_Suc drop_all lessI order_refl)
  then show ?thesis using assms(2) by (simp add: c_string_def list_update_append takeWhile_tail)
qed

lemma c_string_length: "length (c_string b) \<le> length b"
  by (simp add: c_string_def length_takeWhile_le)

lemma release_two:
  assumes "fs_ok T mr st (inc (inc dr b) a) ir"
  shows "\<exists>st'. release_all env [a, b] s st = Some (Inr (Inl s, st')) \<and> fs_ok T mr st' dr ir \<and> chains_kept dr st st'"
proof -
  obtain st1 where st1: "vfs_dir_cache_release (e_store env) a st = Some (Inr st1)" "fs_ok T mr st1 (inc dr b) ir" "chains_kept (inc dr b) st st1"
    using release_inc [OF assms] by blast
  obtain st2 where st2: "vfs_dir_cache_release (e_store env) b st1 = Some (Inr st2)" "fs_ok T mr st2 dr ir" "chains_kept dr st1 st2"
    using release_inc [OF st1(2)] by blast
  show ?thesis using st1(1) st2(1,2) kept_trans [OF kept_inc [OF st1(3)] st2(3)] by simp
qed

lemma follow_link_ok:
  assumes env: "driver_ok T IO env" and fs: "fs_ok T mr st (inc (inc dr dirc) newc) ir" and few: "few (Suc (Suc (Suc k))) dr ir"
    and ch: "chain st dirc ks" "chain st newc (ky # ks')" and lnk: "S_ISLNK (i_mode (t_node T ky))"
    and root: "0 < dr (e_root env)" "chain st (e_root env) R" and jmp: "jump_ok T mr IO env R k resolve jump"
  shows "\<exists>r st'. follow_link resolve env dirc newc st = Some (Inr (r, st')) \<and>
    (case r of
       Inr d \<Rightarrow> fs_ok T mr st' (inc (inc dr dirc) d) ir \<and> chains_kept (inc dr dirc) st st'
         \<and> (\<exists>ks'. link_goal T (e_creds env) jump ky ks = Inr ks' \<and> chain st' d ks')
     | Inl s \<Rightarrow> fs_ok T mr st' dr ir \<and> chains_kept dr st st' \<and> (s \<in> insert ENOMEM IO \<or> link_goal T (e_creds env) jump ky ks = Inl s))"
proof -
  let ?dr = "inc (inc dr dirc) newc"
  obtain x where x: "dircs st newc = Some x" "ino_key (inos st) (dc_inode x) = ky" using chain_entry [OF ch(2)] by auto
  let ?i = "dc_inode x"
  have ok: "dcache_ok st ?dr ir" "\<And>e. mr e \<le> ir e" using fs by (auto simp: fs_ok_def)
  have nd: "node_ok T ky (fnodes st ?i)" using node_fs [OF fs, of ?i] entry_live [OF ok(1) x(1)] x(2) by auto
  have i: "dirc_inode newc st = Inr ?i" using x(1) by (simp add: dirc_inode_def)
  have few1: "few (Suc k) ?dr ir" by (intro few_inc few)
  have sz: "f_size (fnodes st ?i) = t_size T ky" using nd by (simp add: node_ok_def)
  have fail: "\<exists>r st''. release_all env [newc, dirc] s st' = Some (Inr (r, st'')) \<and>
    (case r of
       Inr d \<Rightarrow> fs_ok T mr st'' (inc (inc dr dirc) d) ir \<and> chains_kept (inc dr dirc) st st''
         \<and> (\<exists>ks'. link_goal T (e_creds env) jump ky ks = Inr ks' \<and> chain st'' d ks')
     | Inl s \<Rightarrow> fs_ok T mr st'' dr ir \<and> chains_kept dr st st'' \<and> (s \<in> insert ENOMEM IO \<or> link_goal T (e_creds env) jump ky ks = Inl s))"
    if h: "fs_ok T mr st' ?dr ir" "chains_kept dr st st'" "s \<in> insert ENOMEM IO \<or> link_goal T (e_creds env) jump ky ks = Inl s" for st' s
    using release_two [OF h(1), of env s] kept_trans [OF h(2)] h(3) by fastforce
  show ?thesis
  proof (cases "CONFIG_FILE_MAX_NAME_LENGTH \<le> unat (t_size T ky)")
    case True
    then show ?thesis using fail [OF fs, of ENAMETOOLONG] i sz by (simp add: follow_link_def link_goal_def chains_kept_def)
  next
    case short: False
    show ?thesis
    proof (cases "e_buf env (unat (t_size T ky) + 1) st")
      case None
      then show ?thesis using fail [OF fs, of ENOMEM] i sz short by (simp add: follow_link_def chains_kept_def)
    next
      case (Some b)
      have lm: "S_ISLNK (i_mode (fnodes st ?i))" using nd lnk by (simp add: node_ok_def)
      from readlink_ok [OF env fs x(1) few1 lm] obtain status dat st1 where
        rl: "vfs_readlink env ?i (t_size T ky) st = Some (Inr ((status, dat), st1))" "fs_ok T mr st1 ?dr ir" "dircs st1 = dircs st"
          "ino_key (inos st1) = ino_key (inos st)" "f_size (fnodes st1 ?i) = t_size T ky"
          "case status of
             None \<Rightarrow> vfs_have_permissions (e_creds env) (t_node T ky) MODE_READ \<and> length dat = unat (t_size T ky)
               \<and> dat = take (unat (t_size T ky)) (t_link T ky)
           | Some s \<Rightarrow> s \<in> IO \<or> s = EACCES \<and> \<not> vfs_have_permissions (e_creds env) (t_node T ky) MODE_READ"
        unfolding sz x(2) by blast
      have k1: "chains_kept dr' st st1" for dr' by (rule kept_frame [OF rl(3,4)])
      show ?thesis
      proof (cases status)
        case (Some s)
        then have "s \<in> insert ENOMEM IO \<or> link_goal T (e_creds env) jump ky ks = Inl s" using rl(6) short by (auto simp: link_goal_def)
        from fail [OF rl(2) k1 this] show ?thesis
          using \<open>e_buf env (unat (t_size T ky) + 1) st = Some b\<close> i sz short rl(1) Some by (simp add: follow_link_def)
      next
        case None
        then have dat: "vfs_have_permissions (e_creds env) (t_node T ky) MODE_READ" "length dat = unat (t_size T ky)"
            "dat = take (unat (t_size T ky)) (t_link T ky)" using rl(6) by auto
        define t where "t = c_string dat"
        have tg: "c_string ((mem_write b 0 dat)[unat (t_size T ky) := CHR 0x00]) = t"
          using c_string_target [OF driver_okD(4) [OF env Some] dat(2)] by (simp add: t_def)
        have tl: "length t < CONFIG_FILE_MAX_NAME_LENGTH"
          using c_string_length [of dat] dat(2) short unfolding t_def by linarith
        have goal: "link_goal T (e_creds env) jump ky ks = jump ks t"
          unfolding link_goal_def t_def using short dat(1) by (simp flip: dat(3))
        have x1: "dircs st1 newc = Some x" using rl(3) x(1) by simp
        from inode_ref_fs [OF rl(2) x1 few1] obtain ic where ic: "inode_ref ?i st1 = Some (Inr (?i, st1\<lparr>inos := ic\<rparr>))"
          "same_keys (inos st1) ic" "fs_ok T mr (st1\<lparr>inos := ic\<rparr>) ?dr (inc ir ?i)" by blast
        have k2: "chains_kept dr' st (st1\<lparr>inos := ic\<rparr>)" for dr'
          by (rule kept_frame) (use rl(3,4) ic(2) in \<open>auto simp: same_keys_def\<close>)
        from release_inc [OF ic(3)] obtain st3 where st3: "vfs_dir_cache_release (e_store env) newc (st1\<lparr>inos := ic\<rparr>) = Some (Inr st3)"
          "fs_ok T mr st3 (inc dr dirc) (inc ir ?i)" "chains_kept (inc dr dirc) (st1\<lparr>inos := ic\<rparr>) st3" by blast
        note k3 = kept_trans [OF k2 st3(3)]
        have c3: "chain st3 dirc ks" "chain st3 (e_root env) R" using k3 ch(1) root inc_pos [of dr "e_root env" dirc]
          unfolding chains_kept_def by auto
        have fk: "few k (inc dr dirc) (inc ir ?i)" by (intro few_inc few_step(3) [OF few]) simp
        have r3: "0 < inc dr dirc (e_root env)" using root(1) by blast
        from jmp st3(2) fk r3 c3 tl have "found T mr IO (inc dr dirc) (inc ir ?i) st3 False (jump ks t) (resolve dirc t st3)"
          unfolding jump_ok_def by blast
        then obtain r st4 where st4: "resolve dirc t st3 = Some (Inr (r, st4))" "chains_kept (inc dr dirc) st3 st4"
          "case r of
             Inr d \<Rightarrow> fs_ok T mr st4 (inc (inc dr dirc) d) (inc ir ?i) \<and> (\<exists>ks'. jump ks t = Inr ks' \<and> chain st4 d ks')
           | Inl s \<Rightarrow> (s \<in> insert ENOMEM IO \<or> jump ks t = Inl s) \<and> fs_ok T mr st4 (inc dr dirc) (inc ir ?i)"
          by (rule foundE)
        define dr' where "dr' = (case r of Inr d \<Rightarrow> inc (inc dr dirc) d | Inl s \<Rightarrow> inc dr dirc)"
        have "fs_ok T mr st4 dr' (inc ir ?i)" using st4(3) by (simp add: dr'_def split: sum.splits)
        from inode_release_fs [OF this ok(2), of env] obtain ic' where ic': "inode_release env ?i st4 = Some (Inr (st4\<lparr>inos := ic'\<rparr>))"
          "same_keys (inos st4) ic'" "fs_ok T mr (st4\<lparr>inos := ic'\<rparr>) dr' ir" by blast
        have fr: "chains_kept d st4 (st4\<lparr>inos := ic'\<rparr>)" for d by (rule kept_frame) (use ic'(2) in \<open>auto simp: same_keys_def\<close>)
        note k5 = kept_trans [OF kept_trans [OF k3 st4(2)] fr]
        have eq: "follow_link resolve env dirc newc st = (case r of
            Inl s \<Rightarrow> release_all env [dirc] s (st4\<lparr>inos := ic'\<rparr>) | Inr newc' \<Rightarrow> Some (Inr (Inr newc', st4\<lparr>inos := ic'\<rparr>)))"
          using Some i sz short rl(1,5) None tg ic(1) st3(1) st4(1) ic'(1) by (simp add: follow_link_def split: sum.splits)
        show ?thesis
        proof (cases r)
          case (Inl s)
          have "fs_ok T mr (st4\<lparr>inos := ic'\<rparr>) (inc dr dirc) ir" using ic'(3) Inl by (simp add: dr'_def)
          from release_inc [OF this, of "e_store env"] obtain st6 where "vfs_dir_cache_release (e_store env) dirc (st4\<lparr>inos := ic'\<rparr>) = Some (Inr st6)"
            "fs_ok T mr st6 dr ir" "chains_kept dr (st4\<lparr>inos := ic'\<rparr>) st6" by blast
          then show ?thesis using eq Inl st4(3) goal kept_trans [OF kept_inc [OF k5]] by auto
        next
          case (Inr d)
          then obtain kk where kk: "jump ks t = Inr kk" "chain st4 d kk" using st4(3) by auto
          have "chain (st4\<lparr>inos := ic'\<rparr>) d kk" by (rule chain_frame [OF kk(2)]) (use ic'(2) in \<open>auto simp: same_keys_def\<close>)
          then show ?thesis using eq Inr ic'(3) goal k5 kk(1) by (simp add: dr'_def)
        qed
      qed
    qed
  qed
qed

text \<open>One element: the outcome of the round with the reference to \<open>dirc\<close> among those of the callers.\<close>

definition stepped :: "tree \<Rightarrow> (addr \<Rightarrow> nat) \<Rightarrow> errno set \<Rightarrow> (addr \<Rightarrow> nat) \<Rightarrow> (addr \<Rightarrow> nat) \<Rightarrow> fs_st \<Rightarrow> errno + key list \<Rightarrow>
    (step \<times> fs_st) exec option \<Rightarrow> bool" where
  "stepped T mr IO dr ir st goal res \<longleftrightarrow>
     (\<exists>s st'. res = Some (Inr (s, st')) \<and> chains_kept dr st st' \<and>
        (case s of
           Next d \<Rightarrow> fs_ok T mr st' (inc dr d) ir \<and> (\<exists>ks. goal = Inr ks \<and> chain st' d ks)
         | Done (Inr d) \<Rightarrow> False
         | Done (Inl e) \<Rightarrow> (e \<in> insert ENOMEM IO \<or> goal = Inl e) \<and> fs_ok T mr st' dr ir))"

lemma steppedI:
  "chains_kept dr st st' \<Longrightarrow> fs_ok T mr st' (inc dr d) ir \<Longrightarrow> goal = Inr ks \<Longrightarrow> chain st' d ks \<Longrightarrow>
     stepped T mr IO dr ir st goal (Some (Inr (Next d, st')))"
  "chains_kept dr st st' \<Longrightarrow> fs_ok T mr st' dr ir \<Longrightarrow> e \<in> insert ENOMEM IO \<or> goal = Inl e \<Longrightarrow>
     stepped T mr IO dr ir st goal (Some (Inr (Done (Inl e), st')))"
  by (auto simp: stepped_def)

lemma stepped_release:
  assumes fs: "fs_ok T mr st (inc dr d) ir" and kept: "chains_kept dr st0 st" and s: "s \<in> insert ENOMEM IO \<or> goal = Inl s"
  shows "stepped T mr IO dr ir st0 goal (xbind (release_all env [d] s st) (\<lambda>(r, st). Some (Inr (Done r, st))))"
proof -
  obtain st' where "vfs_dir_cache_release (e_store env) d st = Some (Inr st')" "fs_ok T mr st' dr ir" "chains_kept dr st st'"
    using release_inc [OF fs] by blast
  then show ?thesis using steppedI(2) [OF kept_trans [OF kept], of st'] s by simp
qed

lemma new_inc:
  assumes env: "env_ok T IO env" and fs: "fs_ok T mr st dr ir" and few: "few (Suc k) dr ir" and ch: "chain st par ks"
  shows "\<exists>r st'. vfs_dir_cache_new env par n st = Some (Inr (r, st')) \<and> chains_kept dr st st'
    \<and> (case r of Inl e \<Rightarrow> e \<in> insert ENOMEM IO \<and> fs_ok T mr st' dr ir
       | Inr d \<Rightarrow> fs_ok T mr st' (inc dr d) ir \<and> chain st' d (t_eff T (n, snd (hd ks)) # ks))"
proof -
  from new_ok [OF env fs few ch, of n] obtain r st' where h: "vfs_dir_cache_new env par n st = Some (Inr (r, st'))" "chains_kept dr st st'"
    "case r of Inl e \<Rightarrow> e \<in> insert ENOMEM IO \<and> fs_ok T mr st' dr ir
       | Inr d \<Rightarrow> dr d = 0 \<and> fs_ok T mr st' (dr(d := 1)) ir \<and> chain st' d (t_eff T (n, snd (hd ks)) # ks)" by blast
  have "dr(d := 1) = inc dr d" if "dr d = 0" for d using that by (simp add: inc_def)
  then show ?thesis using h by (auto split: sum.splits)
qed

lemma find_name_ok:
  assumes env: "driver_ok T IO env" and fs: "fs_ok T mr st (inc dr dirc) ir" and few: "few (Suc (Suc (Suc k))) dr ir"
    and ch: "chain st dirc ks" and root: "0 < dr (e_root env)" "chain st (e_root env) R" and jmp: "jump_ok T mr IO env R k resolve jump"
    and nm: "length name < CONFIG_FILE_MAX_NAME_LENGTH" "name \<notin> {'''', ''.'', ''..''}" and par: "\<not> (flag flags PATHRES_FLAG_PARENT \<and> final)"
  shows "stepped T mr IO dr ir st (walk_element jump T (e_creds env) R flags name final ks) (find_name resolve env flags name final dirc st)"
proof -
  let ?goal = "walk_element jump T (e_creds env) R flags name final ks"
  obtain x ks' where x: "dircs st dirc = Some x" "ks = ino_key (inos st) (dc_inode x) # ks'" using chain_entry [OF ch] by blast
  let ?i = "dc_inode x"
  have ok: "dcache_ok st (inc dr dirc) ir" using fs by (auto simp: fs_ok_def)
  have lv: "?i \<in> live (inos st)" "?i \<noteq> NULL" using entry_live [OF ok x(1)] by auto
  have hk: "ino_key (inos st) ?i = hd ks" using x(2) by simp
  have nd: "node_ok T (hd ks) (fnodes st ?i)" using node_fs [OF fs lv(1)] hk by simp
  define r where "r = (if vfs_have_permissions (e_creds env) (t_node T (hd ks)) MODE_EXEC then t_find T (hd ks) name else Inl EACCES)"
  have fd: "vfs_find_dirent env ?i name st = Inr r"
    using lv driver_okD(2) [OF env lv(1), of name] hk perm_node [OF nd] by (simp add: vfs_find_dirent_def r_def)
  have i: "dirc_inode dirc st = Inr ?i" using x(1) by (simp add: dirc_inode_def)
  have refl: "chains_kept d st st" for d by (simp add: chains_kept_def)
  have p0: "(flag flags PATHRES_FLAG_PARENT \<and> final) = False" using par by simp
  show ?thesis
  proof (cases r)
    case (Inl s)
    then have "?goal = Inl s" using nm(2) by (simp add: walk_element_def r_def split: if_splits)
    then show ?thesis using stepped_release [OF fs refl, of s] Inl fd i nm(1) by (simp add: find_name_def p0 del: release_all.simps)
  next
    case (Inr n)
    let ?ky = "t_eff T (n, snd (hd ks))"
    have goal: "?goal = (if S_ISLNK (i_mode (t_node T ?ky)) \<and> \<not> (final \<and> flag flags PATHRES_FLAG_NOSYMLINK)
        then link_goal T (e_creds env) jump ?ky ks else Inr (?ky # ks))"
      using Inr nm(2) by (auto simp: walk_element_def r_def Let_def split: if_splits)
    have few1: "few (Suc (Suc k)) (inc dr dirc) ir" by (intro few_inc few)
    from new_inc [OF driver_okD(1) [OF env] fs few1 ch, of n] obtain r1 st1 where
      st1: "vfs_dir_cache_new env dirc n st = Some (Inr (r1, st1))" "chains_kept (inc dr dirc) st st1"
        "case r1 of Inl e \<Rightarrow> e \<in> insert ENOMEM IO \<and> fs_ok T mr st1 (inc dr dirc) ir
         | Inr d \<Rightarrow> fs_ok T mr st1 (inc (inc dr dirc) d) ir \<and> chain st1 d (?ky # ks)" by blast
    show ?thesis
    proof (cases r1)
      case (Inl s)
      then have "fs_ok T mr st1 (inc dr dirc) ir" "s \<in> insert ENOMEM IO \<or> ?goal = Inl s" using st1(3) by simp_all
      from stepped_release [OF this(1) kept_inc [OF st1(2)] this(2), of env] show ?thesis using st1(1) Inl Inr fd i nm(1)
        by (simp add: find_name_def p0 del: release_all.simps)
    next
      case newc: (Inr newc)
      then have n1: "fs_ok T mr st1 (inc (inc dr dirc) newc) ir" "chain st1 newc (?ky # ks)" using st1(3) by auto
      obtain y where y: "dircs st1 newc = Some y" "ino_key (inos st1) (dc_inode y) = ?ky" using chain_entry [OF n1(2)] by auto
      have c1: "chain st1 dirc ks" "chain st1 (e_root env) R" using st1(2) ch root inc_pos [of dr "e_root env" dirc]
        unfolding chains_kept_def by auto
      have "dc_inode y \<in> live (inos st1)" using entry_live [of st1 _ ir newc y] n1(1) y(1) by (auto simp: fs_ok_def)
      then have md: "i_mode (fnodes st1 (dc_inode y)) = i_mode (t_node T ?ky)" using node_fs [OF n1(1)] y(2) by (auto simp: node_ok_def)
      define foll where "foll = (if S_ISLNK (i_mode (t_node T ?ky)) \<and> \<not> (final \<and> flag flags PATHRES_FLAG_NOSYMLINK)
        then follow_link resolve env dirc newc st1 else Some (Inr (Inr newc, st1)))"
      have eq: "find_name resolve env flags name final dirc st = xbind foll (\<lambda>(r, st2).
          case r of Inl status \<Rightarrow> Some (Inr (Done (Inl status), st2))
          | Inr newc \<Rightarrow> xbind (vfs_dir_cache_release (e_store env) dirc st2) (\<lambda>st3. Some (Inr (Next newc, st3))))"
        using st1(1) newc Inr fd i nm(1) y(1) md by (simp add: find_name_def p0 foll_def dirc_inode_def)
      have "\<exists>r st2. foll = Some (Inr (r, st2)) \<and>
        (case r of
           Inr d \<Rightarrow> fs_ok T mr st2 (inc (inc dr dirc) d) ir \<and> chains_kept (inc dr dirc) st1 st2 \<and> (\<exists>ks'. ?goal = Inr ks' \<and> chain st2 d ks')
         | Inl s \<Rightarrow> fs_ok T mr st2 dr ir \<and> chains_kept dr st1 st2 \<and> (s \<in> insert ENOMEM IO \<or> ?goal = Inl s))"
      proof (cases "S_ISLNK (i_mode (t_node T ?ky)) \<and> \<not> (final \<and> flag flags PATHRES_FLAG_NOSYMLINK)")
        case True
        then have g: "S_ISLNK (i_mode (t_node T ?ky))" "?goal = link_goal T (e_creds env) jump ?ky ks" "foll = follow_link resolve env dirc newc st1"
          using goal by (auto simp: foll_def)
        show ?thesis unfolding g(2,3) by (rule follow_link_ok [OF env n1(1) few c1(1) n1(2) g(1) root(1) c1(2) jmp])
      next
        case False
        then show ?thesis using n1 goal by (auto simp: foll_def chains_kept_def)
      qed
      then obtain r2 st2 where st2: "foll = Some (Inr (r2, st2))"
        "case r2 of
           Inr d \<Rightarrow> fs_ok T mr st2 (inc (inc dr dirc) d) ir \<and> chains_kept (inc dr dirc) st1 st2 \<and> (\<exists>ks'. ?goal = Inr ks' \<and> chain st2 d ks')
         | Inl s \<Rightarrow> fs_ok T mr st2 dr ir \<and> chains_kept dr st1 st2 \<and> (s \<in> insert ENOMEM IO \<or> ?goal = Inl s)" by blast
      show ?thesis
      proof (cases r2)
        case (Inl s)
        then show ?thesis using st2 eq steppedI(2) [OF kept_trans [OF kept_inc [OF st1(2)]], of st2] by simp
      next
        case (Inr d)
        then obtain kk where d: "fs_ok T mr st2 (inc (inc dr d) dirc) ir" "chains_kept (inc dr dirc) st1 st2" "?goal = Inr kk" "chain st2 d kk"
          using st2(2) by (auto simp: inc_commute)
        obtain st3 where st3: "vfs_dir_cache_release (e_store env) dirc st2 = Some (Inr st3)" "fs_ok T mr st3 (inc dr d) ir" "chains_kept (inc dr d) st2 st3"
          using release_inc [OF d(1)] by blast
        have "chain st3 d kk" using st3(3) d(4) unfolding chains_kept_def by simp
        then show ?thesis using st2(1) eq Inr st3(1,2) d(3)
            steppedI(1) [OF kept_trans [OF kept_inc [OF kept_trans [OF st1(2) d(2)]] kept_inc [OF st3(3)]], of T mr d ir ?goal kk IO] by simp
      qed
    qed
  qed
qed

lemma elements_drop:
  fixes path i
  defines "sep \<equiv> strchrnul path i (CHR ''/'')"
  defines "e \<equiv> take (sep - i) (drop i path)"
  shows "elements (drop i path) = (if length path \<le> sep + 1 then [e] else e # elements (drop (sep + 1) path))"
proof -
  have e: "takeWhile (\<lambda>c. c \<noteq> CHR ''/'') (drop i path) = e" "sep = i + length e"
    unfolding e_def sep_def strchrnul_def by (simp_all add: takeWhile_eq_take [symmetric] length_takeWhile_le min_absorb2)
  show ?thesis by (subst elements.simps) (simp add: e Let_def add.commute)
qed

lemma element_empty: "strchrnul path i c - i = 0 \<longleftrightarrow> take (strchrnul path i c - i) (drop i path) = ''''"
  by (auto simp: strchrnul_def takeWhile_eq_Nil_iff)

lemma find_element_ok:
  fixes path :: string and i :: nat
  assumes env: "driver_ok T IO env" and fs: "fs_ok T mr st (inc dr dirc) ir" and few: "few (Suc (Suc (Suc k))) dr ir"
    and ch: "chain st dirc ks" and root: "0 < dr (e_root env)" "chain st (e_root env) R" and jmp: "jump_ok T mr IO env R k resolve jump"
  defines "sep \<equiv> strchrnul path i (CHR ''/'')"
  defines "e \<equiv> take (sep - i) (drop i path)"
  assumes len: "length e < CONFIG_FILE_MAX_NAME_LENGTH"
    and par: "\<not> (flag flags PATHRES_FLAG_PARENT \<and> length path \<le> sep + 1 \<and> e \<notin> {'''', ''.'', ''..''})"
  shows "stepped T mr IO dr ir st (walk_element jump T (e_creds env) R flags e (length path \<le> sep + 1) ks)
    (find_element resolve env path flags 0 i dirc st)"
proof -
  let ?goal = "walk_element jump T (e_creds env) R flags e (length path \<le> sep + 1) ks"
  have sz: "sep - i = 0 \<longleftrightarrow> e = ''''" unfolding e_def sep_def by (rule element_empty)
  have few1: "few (Suc (Suc k)) (inc dr dirc) ir" by (intro few_inc few)
  consider "e = ''''" | "e = ''..''" | "e = ''.''" | "e \<notin> {'''', ''.'', ''..''}" by blast
  then show ?thesis
  proof cases
    case 1
    obtain st1 where st1: "vfs_dir_cache_release (e_store env) dirc st = Some (Inr st1)" "fs_ok T mr st1 dr ir" "chains_kept dr st st1"
      using release_inc [OF fs] by blast
    have c1: "chain st1 (e_root env) R" using st1(3) root unfolding chains_kept_def by blast
    from ref_inc [OF st1(2) c1 few] obtain st2 where st2: "vfs_dir_cache_ref (e_root env) st1 = Inr (e_root env, st2)"
      "fs_ok T mr st2 (inc dr (e_root env)) ir" "\<And>c cs. chain st1 c cs \<Longrightarrow> chain st2 c cs" by blast
    have "chains_kept dr st1 st2" using st2(3) by (simp add: chains_kept_def)
    from steppedI(1) [OF kept_trans [OF st1(3) this] st2(2) _ st2(3) [OF c1], of ?goal] show ?thesis
      using 1 sz st1(1) st2(1) by (simp add: find_element_def sep_def [symmetric] e_def [symmetric] Let_def walk_element_def)
  next
    case 2
    obtain x where x: "dircs st dirc = Some x" using chain_entry [OF ch] by blast
    have pc: "chain st (dc_parent x) (if tl ks = [] then ks else tl ks) \<and> (dc_parent x = dirc \<longrightarrow> tl ks = [])"
      using ch x by (cases rule: chain.cases) (use ch in \<open>auto dest: chain_entry\<close>)
    from ref_inc [OF fs _ few1, of "dc_parent x"] pc obtain st1 where st1: "vfs_dir_cache_ref (dc_parent x) st = Inr (dc_parent x, st1)"
      "fs_ok T mr st1 (inc (inc dr dirc) (dc_parent x)) ir" "\<And>c cs. chain st c cs \<Longrightarrow> chain st1 c cs" by blast
    have k1: "chains_kept d st st1" for d using st1(3) by (simp add: chains_kept_def)
    have fs1: "fs_ok T mr st1 (inc (inc dr (dc_parent x)) dirc) ir" using st1(2) by (simp add: inc_commute)
    from release_inc [OF fs1, of "e_store env"] obtain st2 where st2: "vfs_dir_cache_release (e_store env) dirc st1 = Some (Inr st2)"
      "fs_ok T mr st2 (inc dr (dc_parent x)) ir" "chains_kept (inc dr (dc_parent x)) st1 st2" by blast
    have c2: "chain st2 (dc_parent x) (if tl ks = [] then ks else tl ks)"
      using st2(3) st1(3) pc unfolding chains_kept_def by simp
    have "stepped T mr IO dr ir st ?goal (Some (Inr (Next (dc_parent x), st2)))"
      by (rule steppedI(1) [OF kept_trans [OF k1 kept_inc [OF st2(3)]] st2(2) _ c2]) (use 2 in \<open>simp add: walk_element_def\<close>)
    then show ?thesis
      using 2 sz st1(1) st2(1) x by (auto simp: find_element_def sep_def [symmetric] e_def [symmetric] Let_def)
  next
    case 3
    from steppedI(1) [OF _ fs _ ch, of st ?goal] show ?thesis
      using 3 sz by (simp add: find_element_def sep_def [symmetric] e_def [symmetric] Let_def walk_element_def chains_kept_def)
  next
    case 4
    have "\<not> (flag flags PATHRES_FLAG_PARENT \<and> length path \<le> sep + 1)" using par 4 by blast
    from find_name_ok [OF env fs few ch root jmp len 4 this] show ?thesis
      using 4 sz by (simp add: find_element_def sep_def [symmetric] e_def [symmetric] Let_def)
  qed
qed

lemma path_loop_ok:
  assumes env: "driver_ok T IO env" and few: "few (Suc (Suc (Suc k))) dr ir" and root: "0 < dr (e_root env)"
    and jmp: "jump_ok T mr IO env R k resolve jump"
  shows "fs_ok T mr st (inc dr dirc) ir \<Longrightarrow> chain st dirc ks \<Longrightarrow> chain st (e_root env) R \<Longrightarrow>
    (\<forall>e \<in> set (elements (drop i path)). length e < CONFIG_FILE_MAX_NAME_LENGTH) \<Longrightarrow>
    found T mr IO dr ir st (flag flags PATHRES_FLAG_PARENT) (walk jump T (e_creds env) R flags (elements (drop i path)) ks)
      (path_loop resolve env path flags 0 i dirc st)"
proof (induction "length path - i" arbitrary: i dirc st ks rule: less_induct)
  case less
  define sep where "sep = strchrnul path i (CHR ''/'')"
  define e where "e = take (sep - i) (drop i path)"
  define es where "es = (if length path \<le> sep + 1 then [] else elements (drop (sep + 1) path))"
  have el: "elements (drop i path) = e # es" using elements_drop [of i path] by (simp add: sep_def e_def es_def)
  have ne: "es = [] \<longleftrightarrow> length path \<le> sep + 1"
    unfolding es_def by (simp add: elements.simps [of "drop (Suc sep) path"] Let_def)
  have sz: "sep - i = 0 \<longleftrightarrow> e = ''''" unfolding e_def sep_def by (rule element_empty)
  let ?P = "flag flags PATHRES_FLAG_PARENT" and ?p = "e_creds env"
  have unf: "path_loop resolve env path flags 0 i dirc st =
     xbind (find_element resolve env path flags 0 i dirc st) (\<lambda>(s, st1).
       case s of
         Done r \<Rightarrow> Some (Inr (r, st1))
       | Next dirc \<Rightarrow>
           if es = [] then if ?P then Some (Inr (Inl EINVAL, st1)) else Some (Inr (Inr dirc, st1))
           else xbind (Some (dirc_inode dirc st1)) (\<lambda>parent.
                  if \<not> S_ISDIR (i_mode (fnodes st1 parent)) then release_all env [dirc] ENOTDIR st1
                  else path_loop resolve env path flags 0 (sep + 1) dirc st1))"
    unfolding ne by (subst path_loop.simps) (simp only: sep_def [symmetric] Let_def)
  show ?case
  proof (cases "?P \<and> es = [] \<and> e \<notin> {'''', ''.'', ''..''}")
    case True
    then have "find_element resolve env path flags 0 i dirc st = Some (Inr (Done (Inr dirc), st))"
      using ne sz by (auto simp: find_element_def find_name_def sep_def [symmetric] e_def [symmetric] Let_def)
    then show ?thesis using True less.prems(1,2) unf el by (auto simp: found_def chains_kept_def)
  next
    case False
    have len: "length e < CONFIG_FILE_MAX_NAME_LENGTH" using less.prems(4) el by simp
    have par: "\<not> (?P \<and> length path \<le> sep + 1 \<and> e \<notin> {'''', ''.'', ''..''})" using False ne by blast
    let ?g = "walk_element jump T ?p R flags e (es = []) ks"
    from find_element_ok [OF env less.prems(1) few less.prems(2) root less.prems(3) jmp, of path i flags, folded sep_def, folded e_def, OF len par]
    obtain s st1 where st1: "find_element resolve env path flags 0 i dirc st = Some (Inr (s, st1))" "chains_kept dr st st1"
      "case s of
         Next d \<Rightarrow> fs_ok T mr st1 (inc dr d) ir \<and> (\<exists>ks. ?g = Inr ks \<and> chain st1 d ks)
       | Done (Inr d) \<Rightarrow> False
       | Done (Inl e) \<Rightarrow> (e \<in> insert ENOMEM IO \<or> ?g = Inl e) \<and> fs_ok T mr st1 dr ir"
      unfolding stepped_def ne by blast
    show ?thesis
    proof (cases s)
      case (Done r)
      then obtain s' where s': "r = Inl s'" "s' \<in> insert ENOMEM IO \<or> ?g = Inl s'" "fs_ok T mr st1 dr ir" using st1(3) by (auto split: sum.splits)
      have "?P \<and> es = [] \<longrightarrow> (\<exists>kk. ?g = Inr kk)" using False by (auto simp: walk_element_def)
      then have "s' \<in> insert ENOMEM IO \<or> walk jump T ?p R flags (e # es) ks = Inl s'" using s'(2) by auto
      then show ?thesis using unf el st1(1,2) Done s'(1,3) by (simp add: found_def)
    next
      case (Next d)
      then obtain kk where d: "fs_ok T mr st1 (inc dr d) ir" "?g = Inr kk" "chain st1 d kk" using st1(3) by auto
      show ?thesis
      proof (cases "es = []")
        case True
        then show ?thesis using False unf el st1(1,2) Next d by (auto simp: found_def)
      next
        case more: False
        obtain x ks' where x: "dircs st1 d = Some x" "kk = ino_key (inos st1) (dc_inode x) # ks'" using chain_entry [OF d(3)] by blast
        have "dc_inode x \<in> live (inos st1)" using entry_live [of st1 _ ir d x] d(1) x(1) by (auto simp: fs_ok_def)
        then have md: "i_mode (fnodes st1 (dc_inode x)) = i_mode (t_node T (hd kk))" using node_fs [OF d(1)] x(2) by (auto simp: node_ok_def)
        have unf2: "path_loop resolve env path flags 0 i dirc st =
            (if \<not> S_ISDIR (i_mode (t_node T (hd kk))) then release_all env [d] ENOTDIR st1
             else path_loop resolve env path flags 0 (sep + 1) d st1)"
          using unf st1(1) Next more x(1) md by (simp add: dirc_inode_def)
        have w: "walk jump T ?p R flags (elements (drop i path)) ks =
            (if \<not> S_ISDIR (i_mode (t_node T (hd kk))) then Inl ENOTDIR else walk jump T ?p R flags es kk)"
          using el d(2) more by simp
        show ?thesis
        proof (cases "S_ISDIR (i_mode (t_node T (hd kk)))")
          case False
          then show ?thesis using found_release [OF d(1) st1(2)] unf2 w by simp
        next
          case True
          have es: "es = elements (drop (sep + 1) path)" "length path - (sep + 1) < length path - i"
            using more ne by (auto simp: es_def sep_def strchrnul_def)
          have c1: "chain st1 (e_root env) R" using st1(2) root less.prems(3) unfolding chains_kept_def by blast
          have f: "found T mr IO dr ir st1 ?P (walk jump T ?p R flags es kk) (path_loop resolve env path flags 0 (sep + 1) d st1)"
            unfolding es(1) by (rule less.hyps [OF es(2) d(1,3) c1]) (use less.prems(4) el es(1) in auto)
          show ?thesis using found_kept [OF st1(2) f] True unf2 w by simp
        qed
      qed
    qed
  qed
qed

lemma elements_length: "e \<in> set (elements p) \<Longrightarrow> length e \<le> length p"
proof (induction p rule: elements.induct)
  case (1 p)
  let ?e = "takeWhile (\<lambda>c. c \<noteq> CHR ''/'') p"
  have "e = ?e \<or> drop (length ?e + 1) p \<noteq> [] \<and> e \<in> set (elements (drop (length ?e + 1) p))"
    using 1(2) by (subst (asm) elements.simps) (auto simp: Let_def split: if_splits)
  then show ?case using 1(1) [OF refl refl] length_takeWhile_le [of "\<lambda>c. c \<noteq> CHR ''/''" p] by fastforce
qed

text \<open>The room for references that the resolver needs from a given level on.\<close>

definition room :: "nat \<Rightarrow> nat" where
  "room level = 4 * (CONFIG_MAX_PATH_RECURSION + 2 - level)"

lemma find_dirc_rec_ok:
  assumes env: "driver_ok T IO env"
  shows "fs_ok T mr st dr ir \<Longrightarrow> few (room level) dr ir \<Longrightarrow> 0 < dr (e_root env) \<Longrightarrow> chain st (e_root env) R \<Longrightarrow> chain st d ks \<Longrightarrow>
    \<forall>e \<in> set (elements path). length e < CONFIG_FILE_MAX_NAME_LENGTH \<Longrightarrow> level \<le> CONFIG_MAX_PATH_RECURSION + 1 \<Longrightarrow>
    found T mr IO dr ir st (flag flags PATHRES_FLAG_PARENT) (resolve_path T (e_creds env) R level flags ks path)
      (vfs_find_dirc_rec env level flags d path st)"
proof (induction "CONFIG_MAX_PATH_RECURSION + 1 - level" arbitrary: level flags st dr ir d ks path rule: less_induct)
  case less
  let ?goal = "resolve_path T (e_creds env) R level flags ks path" and ?P = "flag flags PATHRES_FLAG_PARENT"
  from ref_inc [OF less.prems(1,5,2)] obtain st1 where st1: "vfs_dir_cache_ref d st = Inr (d, st1)" "fs_ok T mr st1 (inc dr d) ir"
    "\<And>c cs. chain st c cs \<Longrightarrow> chain st1 c cs" by blast
  have k1: "chains_kept dr st st1" using st1(3) by (simp add: chains_kept_def)
  note rel = found_release [OF st1(2) k1, of _ IO ?goal ?P env]
  show ?case
  proof (cases "level > CONFIG_MAX_PATH_RECURSION")
    case True
    then show ?thesis using rel [of ELOOP] st1(1) by (simp add: vfs_find_dirc_rec.simps resolve_path.simps del: release_all.simps)
  next
    case lv: False
    show ?thesis
    proof (cases "path = ''''")
      case True
      then show ?thesis using lv rel [of ENOENT] st1(1) by (simp add: vfs_find_dirc_rec.simps resolve_path.simps del: release_all.simps)
    next
      case np: False
      show ?thesis
      proof (cases "e_buf env CONFIG_FILE_MAX_NAME_LENGTH st1")
        case None
        then show ?thesis using lv np rel [of ENOMEM] st1(1) by (simp add: vfs_find_dirc_rec.simps del: release_all.simps)
      next
        case (Some b)
        let ?jump = "resolve_path T (e_creds env) R (level + 1) 0" and ?res = "vfs_find_dirc_rec env (level + 1) 0"
        have jmp: "jump_ok T mr IO env R (room (level + 1)) ?res ?jump"
          unfolding jump_ok_def
        proof (intro allI impI)
          fix st dr ir d ks and t :: string
          assume h: "fs_ok T mr st dr ir" "few (room (level + 1)) dr ir" "0 < dr (e_root env)" "chain st (e_root env) R" "chain st d ks"
            "length t < CONFIG_FILE_MAX_NAME_LENGTH"
          have "\<forall>e \<in> set (elements t). length e < CONFIG_FILE_MAX_NAME_LENGTH" using elements_length h(6) le_less_trans by blast
          from less.hyps [OF _ h(1-5) this, of 0] show "found T mr IO dr ir st False (?jump ks t) (?res d t st)"
            using lv by (simp add: flag_def diff_less_mono2 Suc_diff_le)
        qed
        have "room level = Suc (Suc (Suc (Suc (room (level + 1)))))" using lv by (simp add: room_def)
        then have few: "few (Suc (Suc (Suc (room (level + 1))))) dr ir" using few_step(3) [OF less.prems(2)] by simp
        from path_loop_ok [OF env few less.prems(3) jmp st1(2) st1(3) [OF less.prems(5)] st1(3) [OF less.prems(4)], of 0 path flags]
        have "found T mr IO dr ir st1 ?P (walk ?jump T (e_creds env) R flags (elements path) ks) (path_loop ?res env path flags 0 0 d st1)"
          using less.prems(6) by simp
        from found_kept [OF k1 this] show ?thesis
          using lv np Some st1(1) by (simp add: vfs_find_dirc_rec.simps [of env level] resolve_path.simps [of T _ R level])
      qed
    qed
  qed
qed

lemma inode_of_ok:
  assumes env: "driver_ok T IO env" and f: "found T mr IO dr ir st parent goal res" and few: "few (Suc k) dr ir"
  shows "\<exists>r st'. xbind res (inode_of env) = Some (Inr (r, st')) \<and> chains_kept dr st st' \<and>
    (case r of
       Inr i \<Rightarrow> fs_ok T mr st' dr (inc ir i) \<and> (\<exists>ks. goal = Inr ks \<and> ino_key (inos st') i = hd ks)
     | Inl s \<Rightarrow> (s \<in> insert ENOMEM IO \<or> goal = Inl s) \<and>
         (fs_ok T mr st' dr ir \<or> parent \<and> s = EINVAL \<and> (\<exists>d. fs_ok T mr st' (inc dr d) ir)))"
proof -
  from f obtain r st1 where st1: "res = Some (Inr (r, st1))" "chains_kept dr st st1"
    "case r of
       Inr d \<Rightarrow> fs_ok T mr st1 (inc dr d) ir \<and> (\<exists>ks. goal = Inr ks \<and> chain st1 d ks)
     | Inl s \<Rightarrow> (s \<in> insert ENOMEM IO \<or> goal = Inl s) \<and>
         (fs_ok T mr st1 dr ir \<or> parent \<and> s = EINVAL \<and> (\<exists>d. fs_ok T mr st1 (inc dr d) ir))"
    unfolding found_def by blast
  show ?thesis
  proof (cases r)
    case (Inl s)
    then show ?thesis using st1 by (intro exI [of _ "Inl s"] exI [of _ st1]) (simp add: inode_of_def)
  next
    case (Inr d)
    then obtain ks where d: "fs_ok T mr st1 (inc dr d) ir" "goal = Inr ks" "chain st1 d ks" using st1(3) by auto
    obtain x where x: "dircs st1 d = Some x" "ino_key (inos st1) (dc_inode x) = hd ks" using chain_entry [OF d(3)] by auto
    let ?i = "dc_inode x"
    from inode_ref_fs [OF d(1) x(1) few_inc(1) [OF few]] obtain ic where ic: "inode_ref ?i st1 = Some (Inr (?i, st1\<lparr>inos := ic\<rparr>))"
      "same_keys (inos st1) ic" "fs_ok T mr (st1\<lparr>inos := ic\<rparr>) (inc dr d) (inc ir ?i)" by blast
    have k1: "chains_kept dr st1 (st1\<lparr>inos := ic\<rparr>)" by (rule kept_frame) (use ic(2) in \<open>auto simp: same_keys_def\<close>)
    have "0 < inc dr d d" by simp
    from release_fs [OF ic(3) this, of "e_store env", unfolded inc_dec] obtain st2 where
      st2: "vfs_dir_cache_release (e_store env) d (st1\<lparr>inos := ic\<rparr>) = Some (Inr st2)" "fs_ok T mr st2 dr (inc ir ?i)"
        "chains_kept dr (st1\<lparr>inos := ic\<rparr>) st2" by blast
    have rel: "dcache_ok (st1\<lparr>inos := ic\<rparr>) (inc dr d) (inc ir ?i)" using ic(3) by (simp add: fs_ok_def)
    have "ino_key (inos st2) = ino_key ic"
      using release_ok [OF rel inc_simps(1), of "e_store env"] st2(1) by (auto simp: edges_kept_def same_keys_def)
    then have "ino_key (inos st2) ?i = hd ks" using ic(2) x(2) by (simp add: same_keys_def)
    then show ?thesis
      using Inr st1(1) x(1) ic(1) st2(1,2) d(2) kept_trans [OF st1(2) kept_trans [OF k1 st2(3)]]
      by (intro exI [of _ "Inr ?i"] exI [of _ st2]) (simp add: inode_of_def dirc_inode_def)
  qed
qed

text \<open>An empty element, wherever it is, leads back to the root directory: \<^verbatim>\<open>a//b\<close> is \<^verbatim>\<open>/b\<close>.\<close>

lemma empty_element_restarts:
  assumes "strchrnul path i (CHR ''/'') = i"
  shows "find_element resolve env path flags 0 i dirc st =
     xbind (vfs_dir_cache_release (e_store env) dirc st) (\<lambda>st1.
     xbind (Some (vfs_dir_cache_ref (e_root env) st1)) (\<lambda>(d, st2). Some (Inr (Next d, st2))))"
  using assms by (simp add: find_element_def)

text \<open>Asking for the parent of \<^verbatim>\<open>.\<close> fails and leaves a reference to the current directory behind.\<close>

lemma parent_of_dot_leaks:
  assumes "e_buf env CONFIG_FILE_MAX_NAME_LENGTH (st\<lparr>dircs := (dircs st)(e_cwd env \<mapsto> x\<lparr>dc_usage := dc_usage x + 1\<rparr>)\<rparr>) = Some b"
    "dircs st (e_cwd env) = Some x" "e_cwd env \<noteq> NULL"
  shows "vfs_find_dirc_parent env ''.'' st =
     Some (Inr (Inl EINVAL, st\<lparr>dircs := (dircs st)(e_cwd env \<mapsto> x\<lparr>dc_usage := dc_usage x + 1\<rparr>)\<rparr>))"
proof -
  have "strchrnul ''.'' 0 (CHR ''/'') = 1" by (simp add: strchrnul_def)
  then show ?thesis using assms
    by (simp add: vfs_find_dirc_parent_def vfs_find_dirc_parent_at_def vfs_find_dirc_rec.simps [of _ 0] vfs_dir_cache_ref_def
        CONFIG_MAX_PATH_RECURSION_def path_loop.simps find_element_def PATHRES_FLAG_PARENT_def flag_def Let_def)
qed

section \<open>Properties\<close>


text \<open>
  C7: a lookup of an inode, with links followed, not followed, or of the directory that holds the file, leaves no reference
  to a directory cache entry behind and gives one reference to the inode it returns, none when it fails; what the callers
  know of the entries they hold stays true.  The exception is a path whose last element is no name, of which the directory
  is sought: it fails with \<^verbatim>\<open>EINVAL\<close> and may keep a reference to an entry.
\<close>

theorem inode_lookup_balanced:
  assumes "driver_ok T IO env" "fs_ok T mr st dr ir" "few (room 0) dr ir" "0 < dr (e_root env)" "chain st (e_root env) R"
    "chain st (e_cwd env) ks" "\<forall>e \<in> set (elements path). length e < CONFIG_FILE_MAX_NAME_LENGTH"
    and lookup: "lookup \<in> {vfs_find_inode env, vfs_find_symlink env, vfs_find_parent env}"
  shows "\<exists>r st'. lookup path st = Some (Inr (r, st')) \<and> chains_kept dr st st' \<and>
    (case r of
       Inr i \<Rightarrow> fs_ok T mr st' dr (inc ir i)
     | Inl s \<Rightarrow> fs_ok T mr st' dr ir \<or> lookup = vfs_find_parent env \<and> s = EINVAL \<and> (\<exists>d. fs_ok T mr st' (inc dr d) ir))"
proof -
  define flags where "flags = (if lookup = vfs_find_parent env then PATHRES_FLAG_PARENT
    else if lookup = vfs_find_symlink env then PATHRES_FLAG_NOSYMLINK else 0)"
  have par: "flag flags PATHRES_FLAG_PARENT \<longleftrightarrow> lookup = vfs_find_parent env"
    by (simp add: flags_def flag_def PATHRES_FLAG_PARENT_def PATHRES_FLAG_NOSYMLINK_def)
  have eq: "lookup path st = xbind (vfs_find_dirc_rec env 0 flags (e_cwd env) path st) (inode_of env)"
    using lookup by (auto simp: flags_def vfs_find_inode_def vfs_find_symlink_def vfs_find_parent_def vfs_find_dirc_def vfs_find_dirc_at_def
        vfs_find_dirc_symlink_def vfs_find_dirc_symlink_at_def vfs_find_dirc_parent_def vfs_find_dirc_parent_at_def)
  have few: "few (Suc 0) dr ir" by (rule few_step(3) [OF assms(3)]) (simp add: room_def)
  from inode_of_ok [OF assms(1) find_dirc_rec_ok [OF assms(1-7), of flags] few] show ?thesis
    unfolding eq par by (auto split: sum.splits)
qed

text \<open>The examples: device 1 has the root directory 11 with the directory 12, named \<^verbatim>\<open>a\<close>.\<close>

definition ex_tree :: tree where
  "ex_tree = \<lparr>t_find = \<lambda>k name. if k = (11, 1) \<and> name = ''a'' then Inr 12 else Inl ENOENT,
     t_node = \<lambda>_. \<lparr>i_uid = 0, i_gid = 0, i_mode = 0x41FF\<rparr>, t_size = \<lambda>_. 0, t_link = \<lambda>_. '''', t_mount = \<lambda>_. None\<rparr>"

definition ex_env :: vfs_env where
  "ex_env = \<lparr>e_creds = \<lparr>uid = 0, effective_uid = 0, gid = 0, effective_gid = 0\<rparr>, e_root = 20, e_cwd = 20, e_time = 0, e_store = None,
     op_load_inode = \<lambda>_. Some (\<lambda>n st. if 40 \<in> live (inos st) \<or> 40 = open_inodes (inos st) \<or>
       40 = c_mrul (caches (inos st) (inode_cache (inos st))) then Inl ENOMEM else Inr (40, ex_node)),
     op_find_dirent = \<lambda>_. Some (\<lambda>st e name. t_find ex_tree (ino_key (inos st) e) name),
     op_read_inode = \<lambda>_. Some (\<lambda>st e off n. (None, '''')),
     e_alloc = \<lambda>st. if dircs st 60 = None \<and> card (dom (dircs st)) < 2 ^ 30 then Some 60 else None,
     e_buf = \<lambda>n st. Some (replicate n (CHR 0x00)), e_pipe = \<lambda>st. Some (80, pipe_nearly_full)\<rparr>"

lemma ex_driver: "driver_ok ex_tree {ENOMEM} ex_env"
  by (auto simp: driver_ok_def env_ok_def ex_env_def ex_tree_def ifs_load_inode_def ifs_find_dirent_def ifs_read_def node_ok_def
      ex_node_def S_ISLNK_def S_IFMT_def)

lemma ex_start:
  "\<exists>ic. fs_ok ex_tree (\<lambda>_. 0) (ex_fs ic) ex_refs (\<lambda>_. 0) \<and> chain (ex_fs ic) 20 [(11, 1)]"
proof -
  obtain ic where ic: "ino_key ic 8 = (11, 1)" "dcache_ok (ex_fs ic) ex_refs (\<lambda>_. 0)" using ex_dcache by blast
  have "tree_ok ex_tree (ex_fs ic) (\<lambda>_. 0)"
    by (auto simp: tree_ok_def node_ok_def mount_ok_def ex_tree_def ex_fs_def ex_node_def S_ISLNK_def S_IFMT_def)
  then have "fs_ok ex_tree (\<lambda>_. 0) (ex_fs ic) ex_refs (\<lambda>_. 0)" using ic(2) by (simp add: fs_ok_def ex_fs_def)
  moreover have "chain (ex_fs ic) 20 [(11, 1)]"
    using chain.top [of "ex_fs ic" 20 "\<lparr>dc_parent = 20, dc_inode = 8, dc_usage = 2\<rparr>"] ic(1) by (simp add: ex_fs_def)
  ultimately show ?thesis by blast
qed

lemma ex_elements: "elements ''/a'' = ['''', ''a'']"
  by (simp add: elements.simps Let_def)

lemma ex_resolve: "resolve_path ex_tree (e_creds ex_env) [(11, 1)] 0 0 [(11, 1)] ''/a'' = Inr [(12, 1), (11, 1)]"
  by (simp add: resolve_path.simps [of _ _ _ 0] ex_elements CONFIG_MAX_PATH_RECURSION_def walk_element_def ex_tree_def ex_env_def flag_def
      t_eff_def S_ISLNK_def S_ISDIR_def S_IFMT_def vfs_have_permissions_def get_perm_class_def get_effective_uid_def get_effective_gid_def Let_def
      vfs_get_min_permissions_def min_permissions_def MODE_EXEC_def PERM_CLASS_OWNER_def PERM_CLASS_GROUP_def PERM_CLASS_OTHER_def PERM_CLASS_NONE_def)

lemma ex_few: "few (room 0) ex_refs (\<lambda>_. 0)"
  by (simp add: few_def room_def ex_refs_def CONFIG_MAX_PATH_RECURSION_def)


theorem inode_lookup_balanced_witness:
  "\<exists>ic r st'. vfs_find_parent ex_env ''/a'' (ex_fs ic) = Some (Inr (r, st')) \<and>
     (case r of
        Inr i \<Rightarrow> fs_ok ex_tree (\<lambda>_. 0) st' ex_refs (inc (\<lambda>_. 0) i)
      | Inl s \<Rightarrow> fs_ok ex_tree (\<lambda>_. 0) st' ex_refs (\<lambda>_. 0) \<or> s = EINVAL \<and> (\<exists>d. fs_ok ex_tree (\<lambda>_. 0) st' (inc ex_refs d) (\<lambda>_. 0)))"
proof -
  obtain ic where ic: "fs_ok ex_tree (\<lambda>_. 0) (ex_fs ic) ex_refs (\<lambda>_. 0)" "chain (ex_fs ic) 20 [(11, 1)]" using ex_start by blast
  have "\<exists>r st'. vfs_find_parent ex_env ''/a'' (ex_fs ic) = Some (Inr (r, st')) \<and> chains_kept ex_refs (ex_fs ic) st' \<and>
    (case r of
       Inr i \<Rightarrow> fs_ok ex_tree (\<lambda>_. 0) st' ex_refs (inc (\<lambda>_. 0) i)
     | Inl s \<Rightarrow> fs_ok ex_tree (\<lambda>_. 0) st' ex_refs (\<lambda>_. 0) \<or>
         vfs_find_parent ex_env = vfs_find_parent ex_env \<and> s = EINVAL \<and> (\<exists>d. fs_ok ex_tree (\<lambda>_. 0) st' (inc ex_refs d) (\<lambda>_. 0)))"
    by (rule inode_lookup_balanced [OF ex_driver ic(1) ex_few, of "[(11, 1)]" "[(11, 1)]"])
      (use ic(2) in \<open>simp_all add: ex_env_def ex_refs_def ex_elements CONFIG_FILE_MAX_NAME_LENGTH_def\<close>)
  then show ?thesis by (simp only: simp_thms) blast
qed

end
