(* ===== verification/Spec2Isabelle.thy ===== *)
theory Spec2Isabelle
  imports Kernel_Prelude Llist Mruc Icache Synch Pipe Scheduler Perms Svipc Svipc_Msg Svipc_Sem Physmm Svipc_Shm
    Paging Procvmm Demand_Paging Dcache Pathres
begin

text \<open>
  \<^bold>\<open>A verification development for the posnk kernel.\<close>
\<close>

end
